(* ===== verification/Paxos_Prelude.thy ===== *)
theory Paxos_Prelude
  imports Main "HOL-Library.Word" "HOL-Library.Multiset"
begin

text \<open>
  Shared vocabulary of the development: Go's error values, results with an error branch,
  Go maps with their zero value, nil-able byte slices, big-endian byte strings of a fixed
  width, readers over a byte stream, and the generic lemmas on them that the component
  theories use.  Nothing here is specific to Paxos.
\<close>

unbundle bit_operations_syntax

named_theorems go_defs \<open>definitions that a component proof unfolds\<close>
named_theorems codec_simps \<open>equations that evaluate readers on encoded input\<close>

section \<open>Errors and results\<close>

text \<open>
  The error values of \<^verbatim>\<open>errors.go\<close>, the two errors that \<^verbatim>\<open>io.ReadFull\<close> and
  \<^verbatim>\<open>binary.Read\<close> return on a short stream, the three errors made on the spot with
  \<^verbatim>\<open>errors.New\<close> and \<^verbatim>\<open>fmt.Errorf\<close>, and \<open>ErrOther\<close> for whatever a pluggable
  storage or transport returns.
\<close>

datatype error =
    ErrInvalidNodeID | ErrInvalidAddress | ErrNoPeers | ErrElectionTimeoutTooShort
  | ErrNotLeader | ErrNoQuorum | ErrPreempted | ErrTimeout | ErrShutdown | ErrInstanceGap
  | ErrNotFound | ErrStorageClosed
  | ErrEOF | ErrUnexpectedEOF
  | ErrUnknownMessageType | ErrOwnNodeID "16 word" | ErrNoConnection "16 word"
  | ErrOther string

type_synonym 'a result = "error + 'a"

definition res_bind :: "'a result \<Rightarrow> ('a \<Rightarrow> 'b result) \<Rightarrow> 'b result" where
  "res_bind r f = (case r of Inl e \<Rightarrow> Inl e | Inr x \<Rightarrow> f x)"

lemma res_bind_simps [simp]:
  "res_bind (Inl e) f = Inl e"
  "res_bind (Inr x) f = f x"
  by (simp_all add: res_bind_def)

lemma res_bind_eq_Inr:
  "res_bind r f = Inr y \<longleftrightarrow> (\<exists>x. r = Inr x \<and> f x = Inr y)"
  by (cases r) auto

section \<open>Go maps\<close>

text \<open>
  A Go map is a partial function.  Reading a missing key gives the zero value of the
  element type, passed here as \<open>z\<close>; \<open>delete\<close> is an update with \<^term>\<open>None\<close>.  A map
  variable itself can be nil, which is an option around the map: ranging over or reading a
  nil map is the same as over the empty one.
\<close>

definition go_get :: "'v \<Rightarrow> ('k \<rightharpoonup> 'v) \<Rightarrow> 'k \<Rightarrow> 'v" where
  "go_get z m k = (case m k of None \<Rightarrow> z | Some v \<Rightarrow> v)"

definition go_delete :: "'k \<Rightarrow> ('k \<rightharpoonup> 'v) \<Rightarrow> ('k \<rightharpoonup> 'v)" where
  "go_delete k m = m(k := None)"

definition go_restore :: "'k \<Rightarrow> 'v option \<Rightarrow> ('k \<rightharpoonup> 'v) \<Rightarrow> ('k \<rightharpoonup> 'v)" where
  "go_restore k prev m = (case prev of Some v \<Rightarrow> m(k \<mapsto> v) | None \<Rightarrow> go_delete k m)"

definition deref_map :: "('k \<rightharpoonup> 'v) option \<Rightarrow> ('k \<rightharpoonup> 'v)" where
  "deref_map mo = (case mo of None \<Rightarrow> Map.empty | Some m \<Rightarrow> m)"

definition map_empty :: "('k \<rightharpoonup> 'v) \<Rightarrow> bool" where
  "map_empty m \<longleftrightarrow> dom m = {}"

lemma go_get_simps [simp]:
  "m k = None \<Longrightarrow> go_get z m k = z"
  "m k = Some v \<Longrightarrow> go_get z m k = v"
  "go_get z (m(k \<mapsto> w)) k = w"
  "k \<noteq> j \<Longrightarrow> go_get z (m(k := x)) j = go_get z m j"
  "go_get z Map.empty k = z"
  by (simp_all add: go_get_def)

lemma go_delete_simps [simp]:
  "go_delete k m k = None"
  "j \<noteq> k \<Longrightarrow> go_delete k m j = m j"
  "dom (go_delete k m) = dom m - {k}"
  by (auto simp: go_delete_def)

lemma go_delete_apply: "go_delete k m j = (if j = k then None else m j)"
  by (simp add: go_delete_def)

text \<open>
  The snapshot-and-restore pattern of the acceptor: writing a key and then restoring what
  was there before gives the original map back, whatever was written.
\<close>

lemma go_restore_upd [simp]: "go_restore k (m k) (m(k \<mapsto> v)) = m"
  by (auto simp: go_restore_def go_delete_def split: option.splits)

lemma deref_map_simps [simp]: "deref_map None = Map.empty" "deref_map (Some m) = m"
  by (simp_all add: deref_map_def)

lemma map_empty_simps [simp]:
  "map_empty Map.empty" "\<not> map_empty (m(k \<mapsto> v))"
  by (simp_all add: map_empty_def)

lemma map_empty_iff: "map_empty m \<longleftrightarrow> m = Map.empty"
  by (simp add: map_empty_def)

section \<open>Byte slices\<close>

text \<open>
  A Go \<^verbatim>\<open>[]byte\<close> is nil or a sequence of bytes; the two are distinguished by
  \<^verbatim>\<open>v != nil\<close> and by nothing else, \<^verbatim>\<open>len\<close> of a nil slice is 0.
\<close>

type_synonym byte = "8 word"
type_synonym slice = "byte list option"

definition slice_bytes :: "slice \<Rightarrow> byte list" where
  "slice_bytes v = (case v of None \<Rightarrow> [] | Some bs \<Rightarrow> bs)"

definition slice_len :: "slice \<Rightarrow> nat" where
  "slice_len v = length (slice_bytes v)"

text \<open>\<open>make([]byte, len(v))\<close> followed by \<open>copy\<close>: never nil, the same bytes.\<close>

definition slice_copy :: "slice \<Rightarrow> slice" where
  "slice_copy v = Some (slice_bytes v)"

lemma slice_bytes_simps [simp]: "slice_bytes None = []" "slice_bytes (Some bs) = bs"
  by (simp_all add: slice_bytes_def)

lemma slice_len_simps [simp]: "slice_len None = 0" "slice_len (Some bs) = length bs"
  by (simp_all add: slice_len_def)

lemma slice_copy_bytes [simp]: "slice_bytes (slice_copy v) = slice_bytes v"
  by (simp add: slice_copy_def)

lemma slice_copy_idem [simp]: "slice_copy (slice_copy v) = slice_copy v"
  by (simp add: slice_copy_def)

lemma slice_copy_id: "slice_len v > 0 \<Longrightarrow> slice_copy v = v"
  by (cases v) (auto simp: slice_copy_def)

section \<open>Machine integers\<close>

lemma unat_byte_less: "unat (b :: byte) < 256"
proof -
  have "unat b < 2 ^ LENGTH(8)" by (rule unsigned_less)
  then show ?thesis by simp
qed

lemma unat_word16_less: "unat (w :: 16 word) < 65536"
proof -
  have "unat w < 2 ^ LENGTH(16)" by (rule unsigned_less)
  then show ?thesis by simp
qed

lemma unat_word32_less: "unat (w :: 32 word) < 2 ^ 32"
proof -
  have "unat w < 2 ^ LENGTH(32)" by (rule unsigned_less)
  then show ?thesis by simp
qed

lemma unat_word64_less: "unat (w :: 64 word) < 2 ^ 64"
proof -
  have "unat w < 2 ^ LENGTH(64)" by (rule unsigned_less)
  then show ?thesis by simp
qed

section \<open>Big-endian integers\<close>

text \<open>
  \<^verbatim>\<open>binary.BigEndian\<close> writes an unsigned integer most significant byte first, in as many
  bytes as its type has; reading is Horner's rule.
\<close>

fun be_put :: "nat \<Rightarrow> nat \<Rightarrow> byte list" where
  "be_put 0 x = []"
| "be_put (Suc n) x = be_put n (x div 256) @ [word_of_nat x]"

definition be_get :: "byte list \<Rightarrow> nat" where
  "be_get bs = foldl (\<lambda>acc b. acc * 256 + unat b) 0 bs"

lemma length_be_put [simp]: "length (be_put n x) = n"
  by (induction n arbitrary: x) auto

lemma be_get_snoc [simp]: "be_get (bs @ [b]) = be_get bs * 256 + unat b"
  by (simp add: be_get_def)

lemma be_get_Nil [simp]: "be_get [] = 0"
  by (simp add: be_get_def)

lemma be_get_put: "be_get (be_put n x) = x mod 256 ^ n"
proof (induction n arbitrary: x)
  case (Suc n)
  have "be_get (be_put (Suc n) x) = (x div 256) mod 256 ^ n * 256 + x mod 256"
    by (simp add: Suc.IH unat_of_nat)
  then show ?case
    by (simp add: mod_mult2_eq)
qed simp

lemma be_get_bound: "be_get bs < 256 ^ length bs"
proof (induction bs rule: rev_induct)
  case (snoc b bs)
  have "unat b < 256" by (rule unat_byte_less)
  with snoc show ?case by simp
qed simp

lemma be_put_get: "length bs = n \<Longrightarrow> be_put n (be_get bs) = bs"
proof (induction bs arbitrary: n rule: rev_induct)
  case (snoc b bs)
  have b: "unat b < 256" by (rule unat_byte_less)
  from snoc.prems obtain m where n: "n = Suc m" "length bs = m" by (cases n) auto
  have "(be_get bs * 256 + unat b) div 256 = be_get bs" using b by simp
  moreover have "word_of_nat (be_get bs * 256 + unat b) = b"
    using b by (simp add: word_unat_eq_iff unat_of_nat del: of_nat_add of_nat_mult)
  ultimately show ?case using n snoc.IH by simp
qed simp

definition put_word :: "nat \<Rightarrow> 'a::len word \<Rightarrow> byte list" where
  "put_word n w = be_put n (unat w)"

lemma length_put_word [simp]: "length (put_word n w) = n"
  by (simp add: put_word_def)

lemma put_word_Nil [simp]: "put_word n w = [] \<longleftrightarrow> n = 0"
  by (metis length_0_conv length_put_word)

section \<open>Readers\<close>

text \<open>
  An \<^verbatim>\<open>io.Reader\<close> over bytes that have already arrived is the list of those bytes; a
  read returns the value and the rest of the stream, or an error.  \<^verbatim>\<open>io.ReadFull\<close>
  returns \<^verbatim>\<open>EOF\<close> only when nothing at all could be read, and \<^verbatim>\<open>ErrUnexpectedEOF\<close>
  when the stream ends inside the item; a zero-length read succeeds.
\<close>

type_synonym 'a reader = "byte list \<Rightarrow> ('a \<times> byte list) result"

definition read_full :: "nat \<Rightarrow> byte list reader" where
  "read_full n bs =
     (if n = 0 then Inr ([], bs)
      else if bs = [] then Inl ErrEOF
      else if length bs < n then Inl ErrUnexpectedEOF
      else Inr (take n bs, drop n bs))"

definition read_word :: "nat \<Rightarrow> 'a::len word reader" where
  "read_word n bs = res_bind (read_full n bs) (\<lambda>(d, r). Inr (word_of_nat (be_get d), r))"

definition rd_return :: "'a \<Rightarrow> 'a reader" where
  "rd_return x bs = Inr (x, bs)"

definition rd_bind :: "'a reader \<Rightarrow> ('a \<Rightarrow> 'b reader) \<Rightarrow> 'b reader" where
  "rd_bind p f bs = res_bind (p bs) (\<lambda>(x, r). f x r)"

lemma read_full_append [codec_simps]:
  "length d = n \<Longrightarrow> read_full n (d @ r) = Inr (d, r)"
  by (auto simp: read_full_def)

lemma read_full_Inr:
  "read_full n bs = Inr (d, r) \<Longrightarrow> bs = d @ r \<and> length d = n"
  by (auto simp: read_full_def split: if_splits)

lemma read_word_put [codec_simps]:
  fixes w :: "'a::len word"
  assumes "LENGTH('a) \<le> 8 * n"
  shows "read_word n (put_word n w @ r) = Inr (w, r)"
proof -
  have "unat w < 2 ^ LENGTH('a)" by simp
  also have "(2::nat) ^ LENGTH('a) \<le> 2 ^ (8 * n)" using assms by (intro power_increasing) auto
  also have "(2::nat) ^ (8 * n) = 256 ^ n" by (simp add: power_mult)
  finally have "unat w mod 256 ^ n = unat w" by simp
  then show ?thesis
    by (simp add: read_word_def put_word_def codec_simps be_get_put)
qed

lemma read_word_Inr:
  fixes w :: "'a::len word"
  assumes "read_word n bs = Inr (w, r)" and "LENGTH('a) = 8 * n"
  shows "bs = put_word n w @ r"
proof -
  from assms(1) obtain d where d: "read_full n bs = Inr (d, r)" and w: "w = word_of_nat (be_get d)"
    by (auto simp: read_word_def res_bind_eq_Inr)
  from read_full_Inr [OF d] have bs: "bs = d @ r" and len: "length d = n" by auto
  have "be_get d < 2 ^ LENGTH('a)"
    using be_get_bound [of d] len assms(2) by (simp add: power_mult)
  then have "unat w = be_get d" by (simp add: w unat_of_nat)
  then show ?thesis by (simp add: bs put_word_def be_put_get len)
qed

lemma rd_return_Inr [simp]: "rd_return x bs = Inr (y, r) \<longleftrightarrow> x = y \<and> bs = r"
  by (auto simp: rd_return_def)

lemma rd_bind_Inr:
  "rd_bind p f bs = Inr (y, r) \<longleftrightarrow> (\<exists>x s. p bs = Inr (x, s) \<and> f x s = Inr (y, r))"
  by (auto simp: rd_bind_def res_bind_eq_Inr)

lemma rd_bind_run [codec_simps]:
  "p bs = Inr (x, s) \<Longrightarrow> rd_bind p f bs = f x s"
  by (simp add: rd_bind_def)

lemma rd_return_run [codec_simps]: "rd_return x bs = Inr (x, bs)"
  by (simp add: rd_return_def)

section \<open>Counting loops\<close>

text \<open>\<open>range64 from to\<close> lists the 64-bit counter values of \<^verbatim>\<open>for i := from; i < to; i++\<close>.\<close>

lemma unat_Suc64: "(i :: 64 word) < t \<Longrightarrow> unat (i + 1) = unat i + 1"
proof -
  assume "i < t"
  then have "unat i < unat t" by (simp add: word_less_nat_alt)
  moreover have "unat t < 2 ^ 64" by (rule unat_word64_less)
  ultimately show ?thesis by (auto simp: unat_word_ariths)
qed

lemma less_Suc64: "(n :: 64 word) + 1 \<noteq> 0 \<Longrightarrow> i < n + 1 \<longleftrightarrow> i \<le> n"
proof -
  assume nz: "n + 1 \<noteq> 0"
  have "unat (n + 1) = Suc (unat n) mod 2 ^ 64" by (simp add: unat_word_ariths)
  moreover have "unat (n + 1) \<noteq> 0" using nz by (simp add: word_unat_eq_iff)
  moreover have "unat n < 2 ^ 64" by (rule unat_word64_less)
  ultimately have "unat (n + 1) = Suc (unat n)"
    by (cases "Suc (unat n) = 2 ^ 64") auto
  then show ?thesis by (auto simp: word_less_nat_alt word_le_nat_alt)
qed

function range64 :: "64 word \<Rightarrow> 64 word \<Rightarrow> 64 word list" where
  "range64 i t = (if i < t then i # range64 (i + 1) t else [])"
  by pat_completeness auto
termination
proof (relation "measure (\<lambda>(i, t). unat t - unat i)")
  fix i t :: "64 word"
  assume "i < t"
  then have "unat (i + 1) = unat i + 1" and "unat i < unat t"
    by (simp_all add: unat_Suc64 word_less_nat_alt)
  then show "((i + 1, t), (i, t)) \<in> measure (\<lambda>(i, t). unat t - unat i)" by simp
qed simp

declare range64.simps [simp del]

lemma set_range64: "set (range64 f t) = {i. f \<le> i \<and> i < t}"
proof (induction f t rule: range64.induct)
  case (1 i t)
  show ?case
  proof (cases "i < t")
    case True
    have "{j. i \<le> j \<and> j < t} = insert i {j. i + 1 \<le> j \<and> j < t}"
      using True unat_Suc64 [OF True]
      by (auto simp: word_less_nat_alt word_le_nat_alt word_unat_eq_iff)
    with 1 True show ?thesis by (simp add: range64.simps [of i t])
  next
    case False
    then show ?thesis by (auto simp: range64.simps [of i t])
  qed
qed

lemma sorted_range64: "sorted_wrt (<) (range64 f t)"
proof (induction f t rule: range64.induct)
  case (1 i t)
  show ?case
  proof (cases "i < t")
    case True
    with 1 show ?thesis using unat_Suc64 [OF True]
      by (auto simp: range64.simps [of i t] set_range64 word_less_nat_alt word_le_nat_alt)
  qed (simp add: range64.simps [of i t])
qed

lemma set_map_filter: "set (List.map_filter f xs) = {y. \<exists>x \<in> set xs. f x = Some y}"
  by (force simp: List.map_filter_def)

end
