(* ===== verification/Paxos_Types.thy ===== *)
theory Paxos_Types
  imports Paxos_Prelude
begin

text \<open>
  \<^verbatim>\<open>paxos/types.go\<close>: ballots, instances, node identifiers, values, the configuration
  with its defaults and validation, and the structs that the other components share.
  The main facts are that a ballot is an order-preserving, collision-free encoding of a
  (round, node) pair, and what a configuration that passes validation guarantees.
\<close>

section \<open>Ballots\<close>

type_synonym Ballot = "64 word"
type_synonym Instance = "64 word"
type_synonym NodeID = "16 word"
type_synonym Value = slice

definition MakeBallot :: "32 word \<Rightarrow> 16 word \<Rightarrow> Ballot" where
  "MakeBallot rnd nodeID = push_bit 16 (ucast rnd :: 64 word) OR (ucast nodeID :: 64 word)"

definition Round :: "Ballot \<Rightarrow> 32 word" where
  "Round b = ucast (drop_bit 16 b)"

definition BallotNodeID :: "Ballot \<Rightarrow> 16 word" where
  "BallotNodeID b = ucast (b AND 0xFFFF)"

section \<open>Data shared by the components\<close>

record CommittedValue =
  cv_Instance :: Instance
  cv_Value :: Value
  cv_Ballot :: Ballot

record LogEntry =
  le_Instance :: Instance
  le_Ballot :: Ballot
  le_Value :: Value

record Snapshot =
  sn_LastInstance :: Instance
  sn_Data :: slice
  sn_Checksum :: slice

text \<open>The three maps of an \<open>AcceptorState\<close> can be nil: the zero value has three nil maps.\<close>

record AcceptorState =
  PromisedBallot :: "(Instance \<rightharpoonup> Ballot) option"
  AcceptedBallot :: "(Instance \<rightharpoonup> Ballot) option"
  AcceptedValue :: "(Instance \<rightharpoonup> Value) option"

section \<open>Configuration\<close>

text \<open>
  A \<^verbatim>\<open>time.Duration\<close> is a signed 64-bit count of nanoseconds and an \<^verbatim>\<open>int\<close> is 64 bits
  wide, so both are 64-bit words read with \<^const>\<open>sint\<close>, and the product in \<open>Validate\<close>
  wraps around.  The transport, storage and logger fields are interfaces: they are
  arguments of the operations that use them.
\<close>

type_synonym Duration = "64 word"

definition Second :: Duration where "Second = 1000000000"
definition Millisecond :: Duration where "Millisecond = 1000000"

record Config =
  cfg_NodeID :: NodeID
  cfg_Address :: string
  cfg_Peers :: "string list"
  PrepareTimeout :: Duration
  AcceptTimeout :: Duration
  HeartbeatInterval :: Duration
  ElectionTimeout :: Duration
  MaxInFlightInstances :: "64 word"

definition WithDefaults :: "Config \<Rightarrow> Config" where
  "WithDefaults c =
     (let c = (if PrepareTimeout c = 0 then c\<lparr>PrepareTimeout := 1 * Second\<rparr> else c);
          c = (if AcceptTimeout c = 0 then c\<lparr>AcceptTimeout := 1 * Second\<rparr> else c);
          c = (if HeartbeatInterval c = 0 then c\<lparr>HeartbeatInterval := 100 * Millisecond\<rparr> else c);
          c = (if ElectionTimeout c = 0 then c\<lparr>ElectionTimeout := 1 * Second\<rparr> else c);
          c = (if MaxInFlightInstances c = 0 then c\<lparr>MaxInFlightInstances := 100\<rparr> else c)
      in c)"

definition Validate :: "Config \<Rightarrow> error option" where
  "Validate c =
     (if cfg_NodeID c = 0 then Some ErrInvalidNodeID
      else if cfg_Address c = '''' then Some ErrInvalidAddress
      else if length (cfg_Peers c) = 0 then Some ErrNoPeers
      else if sint (ElectionTimeout c) \<le> sint (HeartbeatInterval c * 3)
        then Some ErrElectionTimeoutTooShort
      else None)"

section \<open>Facts about ballots\<close>

text \<open>A ballot is the number \<open>round \<cdot> 2^16 + nodeID\<close>: the shift loses nothing and the two
  halves do not overlap.\<close>

lemma unat_ucast_up: "LENGTH('a) \<le> LENGTH('b) \<Longrightarrow> unat (ucast (w :: 'a::len word) :: 'b::len word) = unat w"
  by (simp add: unsigned_ucast_eq take_bit_eq_mod)
     (meson less_le_trans mod_less one_le_numeral power_increasing unsigned_less)

lemma unat_MakeBallot: "unat (MakeBallot r n) = unat r * 65536 + unat n"
proof -
  have dis: "push_bit 16 (ucast r :: 64 word) AND (ucast n :: 64 word) = 0"
    by (rule bit_word_eqI) (auto simp: bit_simps dest: bit_imp_le_length)
  have r: "unat r < 2 ^ 32" and n: "unat n < 65536"
    by (rule unat_word32_less, rule unat_word16_less)
  have hi: "unat (push_bit 16 (ucast r :: 64 word)) = unat r * 65536"
    using r by (simp add: push_bit_eq_mult unat_word_ariths unat_ucast_up)
  have "unat (MakeBallot r n)
      = unat (push_bit 16 (ucast r :: 64 word) + (ucast n :: 64 word))"
    unfolding MakeBallot_def using dis by (simp add: disjunctive_add_eq_or)
  also have "\<dots> = unat r * 65536 + unat n"
    using r n by (simp add: unat_word_ariths hi unat_ucast_up)
  finally show ?thesis .
qed

lemma Round_MakeBallot [simp]: "Round (MakeBallot r n) = r"
proof (rule word_unat_eq_iff [THEN iffD2])
  have r: "unat r < 2 ^ 32" and n: "unat n < 65536"
    by (rule unat_word32_less, rule unat_word16_less)
  have "unat (drop_bit 16 (MakeBallot r n)) = unat r"
    using n by (simp add: unat_drop_bit_eq drop_bit_nat_def unat_MakeBallot del: drop_bit_eq_div)
  with r show "unat (Round (MakeBallot r n)) = unat r"
    by (simp add: Round_def unsigned_ucast_eq take_bit_eq_mod)
qed

lemma BallotNodeID_MakeBallot [simp]: "BallotNodeID (MakeBallot r n) = n"
proof (rule word_unat_eq_iff [THEN iffD2])
  have n: "unat n < 65536" by (rule unat_word16_less)
  have "MakeBallot r n AND 0xFFFF = take_bit 16 (MakeBallot r n)"
    by (simp add: take_bit_eq_mask mask_eq_exp_minus_1)
  then have "unat (MakeBallot r n AND 0xFFFF) = unat n"
    using n by (simp add: take_bit_eq_mod unat_mod_distrib unat_MakeBallot)
  with n show "unat (BallotNodeID (MakeBallot r n)) = unat n"
    by (simp add: BallotNodeID_def unsigned_ucast_eq take_bit_eq_mod)
qed

lemma MakeBallot_inject [simp]: "MakeBallot r n = MakeBallot r' n' \<longleftrightarrow> r = r' \<and> n = n'"
  by (metis Round_MakeBallot BallotNodeID_MakeBallot)

lemma MakeBallot_nonzero: "n \<noteq> 0 \<Longrightarrow> MakeBallot r n \<noteq> 0"
  by (metis BallotNodeID_MakeBallot MakeBallot_inject unat_MakeBallot add_eq_0_iff_both_eq_0
      unat_eq_zero unsigned_0)

text \<open>
  The protocol reads a ballot as a pair: first the round, then the node that breaks ties.
  The pair type carries the lexicographic order, and the 64-bit order on ballots is that
  order.
\<close>

datatype ballot_id = BallotId (bid_round: "32 word") (bid_node: "16 word")

instantiation ballot_id :: linorder
begin

definition less_ballot_id :: "ballot_id \<Rightarrow> ballot_id \<Rightarrow> bool" where
  "less_ballot_id x y \<longleftrightarrow>
     bid_round x < bid_round y \<or> bid_round x = bid_round y \<and> bid_node x < bid_node y"

definition less_eq_ballot_id :: "ballot_id \<Rightarrow> ballot_id \<Rightarrow> bool" where
  "less_eq_ballot_id x y \<longleftrightarrow> x = y \<or> x < y"

instance
proof
  fix x y z :: ballot_id
  show "x < y \<longleftrightarrow> x \<le> y \<and> \<not> y \<le> x" and "x \<le> x"
    by (auto simp: less_ballot_id_def less_eq_ballot_id_def)
  show "x \<le> y \<Longrightarrow> y \<le> z \<Longrightarrow> x \<le> z" and "x \<le> y \<Longrightarrow> y \<le> x \<Longrightarrow> x = y"
    by (auto simp: less_ballot_id_def less_eq_ballot_id_def)
  show "x \<le> y \<or> y \<le> x"
    by (metis less_ballot_id_def less_eq_ballot_id_def ballot_id.expand linorder_neqE)
qed

end

definition encode_ballot :: "ballot_id \<Rightarrow> Ballot" where
  "encode_ballot x = MakeBallot (bid_round x) (bid_node x)"

definition decode_ballot :: "Ballot \<Rightarrow> ballot_id" where
  "decode_ballot b = BallotId (Round b) (BallotNodeID b)"

lemma decode_encode_ballot [simp]: "decode_ballot (encode_ballot x) = x"
  by (simp add: decode_ballot_def encode_ballot_def)

lemma MakeBallot_less:
  "MakeBallot r n < MakeBallot r' n' \<longleftrightarrow> r < r' \<or> r = r' \<and> n < n'"
proof -
  have n: "unat n < 65536" "unat n' < 65536" by (rule unat_word16_less)+
  have "unat r * 65536 + unat n < unat r' * 65536 + unat n'
      \<longleftrightarrow> unat r < unat r' \<or> unat r = unat r' \<and> unat n < unat n'"
    using n by linarith
  then show ?thesis
    by (simp add: word_less_nat_alt unat_MakeBallot word_unat_eq_iff)
qed

lemma encode_ballot_less: "encode_ballot x < encode_ballot y \<longleftrightarrow> x < y"
  by (simp add: encode_ballot_def MakeBallot_less less_ballot_id_def)

section \<open>Properties\<close>

text \<open>C26. Packing and unpacking a ballot: the round and the node come back from
  \<open>MakeBallot\<close> whatever they are, and a 64-bit number is rebuilt from its two halves exactly
  when it fits in 48 bits, so distinct (round, node) pairs never collide.\<close>

theorem ballot_roundtrip:
  "Round (MakeBallot r n) = r \<and> BallotNodeID (MakeBallot r n) = n
   \<and> (MakeBallot (Round b) (BallotNodeID b) = b \<longleftrightarrow> unat b < 2 ^ 48)"
proof -
  have r: "unat (Round b) = (unat b div 65536) mod 2 ^ 32"
    by (simp add: Round_def unsigned_ucast_eq take_bit_eq_mod unat_drop_bit_eq drop_bit_nat_def
        del: drop_bit_eq_div)
  have "b AND 0xFFFF = take_bit 16 b"
    by (simp add: take_bit_eq_mask mask_eq_exp_minus_1)
  then have n: "unat (BallotNodeID b) = unat b mod 65536"
    by (simp add: BallotNodeID_def unsigned_ucast_eq take_bit_eq_mod unat_mod_distrib)
  have "unat (MakeBallot (Round b) (BallotNodeID b)) = unat b mod 2 ^ 48"
    using mod_mult2_eq [of "unat b" 65536 "2 ^ 32"] by (simp add: unat_MakeBallot r n)
  then have "MakeBallot (Round b) (BallotNodeID b) = b \<longleftrightarrow> unat b < 2 ^ 48"
    by (metis mod_less mod_less_divisor word_unat_eq_iff zero_less_numeral zero_less_power)
  then show ?thesis by simp
qed

text \<open>C27. Ballots are ordered as the algorithm needs: by round first and by node identifier
  among equal rounds, which is the lexicographic order on the decoded pairs.  So a proposer
  that increases its round always gets a ballot above all its earlier ones, and two nodes
  never have equal ballots.\<close>

theorem ballot_order_lexicographic:
  "MakeBallot r n < MakeBallot r' n' \<longleftrightarrow>
     decode_ballot (MakeBallot r n) < decode_ballot (MakeBallot r' n')"
  by (simp add: MakeBallot_less decode_ballot_def less_ballot_id_def)

text \<open>C28. A configuration that passes validation has a non-zero node identifier, an address,
  at least one peer, and, when three heartbeats do not overflow a 64-bit duration, an election
  timeout longer than three heartbeat intervals.\<close>

theorem Validate_sound:
  assumes "Validate c = None"
    and "\<bar>3 * sint (HeartbeatInterval c)\<bar> < 2 ^ 63"
  shows "cfg_NodeID c \<noteq> 0 \<and> cfg_Address c \<noteq> [] \<and> cfg_Peers c \<noteq> []
    \<and> 3 * sint (HeartbeatInterval c) < sint (ElectionTimeout c)"
proof -
  have "sint (HeartbeatInterval c * 3) = sint (HeartbeatInterval c) * 3"
    using assms(2) by (simp add: sint_word_mult signed_take_bit_int_eq_self)
  with assms(1) show ?thesis by (auto simp: Validate_def split: if_splits)
qed

theorem Validate_sound_witness:
  "let c = WithDefaults \<lparr>cfg_NodeID = 1, cfg_Address = ''localhost:9001'',
        cfg_Peers = [''localhost:9002'', ''localhost:9003''], PrepareTimeout = 0,
        AcceptTimeout = 0, HeartbeatInterval = 0, ElectionTimeout = 0, MaxInFlightInstances = 0\<rparr>
   in Validate c = None \<and> 3 * sint (HeartbeatInterval c) < sint (ElectionTimeout c)"
proof -
  define c where "c = WithDefaults \<lparr>cfg_NodeID = 1, cfg_Address = ''localhost:9001'',
        cfg_Peers = [''localhost:9002'', ''localhost:9003''], PrepareTimeout = 0,
        AcceptTimeout = 0, HeartbeatInterval = 0, ElectionTimeout = 0, MaxInFlightInstances = 0\<rparr>"
  have "Validate c = None"
    by (simp add: c_def Validate_def WithDefaults_def Second_def Millisecond_def)
  moreover have "\<bar>3 * sint (HeartbeatInterval c)\<bar> < 2 ^ 63"
    by (simp add: c_def WithDefaults_def Second_def Millisecond_def)
  ultimately show ?thesis using Validate_sound [of c] by (simp add: c_def Let_def)
qed

text \<open>C29. The product in the timeout check is one of 64-bit durations and wraps around.  With an
  identifier, an address and a peer, a configuration passes exactly if its election timeout is
  above the wrapped product.  So with any heartbeat interval whose triple lies between 2^63 and
  2^64 nanoseconds (2^62 for one), every positive election timeout passes, also one that is
  shorter than a single heartbeat interval.\<close>

theorem Validate_heartbeat_overflow:
  assumes "cfg_NodeID c \<noteq> 0" "cfg_Address c \<noteq> []" "cfg_Peers c \<noteq> []"
  shows "(Validate c = None \<longleftrightarrow> (3 * sint (HeartbeatInterval c) + 2 ^ 63) mod 2 ^ 64 - 2 ^ 63 < sint (ElectionTimeout c))
    \<and> (2 ^ 63 \<le> 3 * sint (HeartbeatInterval c) \<longrightarrow> 3 * sint (HeartbeatInterval c) < 2 ^ 64
        \<longrightarrow> 0 < sint (ElectionTimeout c) \<longrightarrow> Validate c = None)"
proof -
  have "sint (HeartbeatInterval c * 3) = (3 * sint (HeartbeatInterval c) + 2 ^ 63) mod 2 ^ 64 - 2 ^ 63"
    by (simp add: sint_word_mult signed_take_bit_eq_take_bit_shift take_bit_eq_mod mult.commute)
  then have v: "Validate c = None \<longleftrightarrow> (3 * sint (HeartbeatInterval c) + 2 ^ 63) mod 2 ^ 64 - 2 ^ 63 < sint (ElectionTimeout c)"
    using assms by (simp add: Validate_def not_le)
  have "(k + 2 ^ 63) mod 2 ^ 64 - 2 ^ 63 < 0" if "2 ^ 63 \<le> k" "k < 2 ^ 64" for k :: int
  proof -
    have "(k + 2 ^ 63) mod 2 ^ 64 = (k - 2 ^ 63) mod 2 ^ 64"
      using mod_add_self2 [of "k - 2 ^ 63" "2 ^ 64"] by (simp add: add.commute)
    also have "\<dots> = k - 2 ^ 63" using that by (intro mod_pos_pos_trivial) simp_all
    finally show ?thesis using that by simp
  qed
  with v show ?thesis by force
qed

theorem Validate_heartbeat_overflow_witness:
  "let c = \<lparr>cfg_NodeID = 1, cfg_Address = ''a'', cfg_Peers = [''b''], PrepareTimeout = Second, AcceptTimeout = Second,
      HeartbeatInterval = 0x4000000000000000, ElectionTimeout = Second, MaxInFlightInstances = 100\<rparr>
   in Validate c = None \<and> 0 < sint (ElectionTimeout c) \<and> sint (ElectionTimeout c) < sint (HeartbeatInterval c)"
  using Validate_heartbeat_overflow [of "\<lparr>cfg_NodeID = 1, cfg_Address = ''a'', cfg_Peers = [''b''], PrepareTimeout = Second,
      AcceptTimeout = Second, HeartbeatInterval = 0x4000000000000000, ElectionTimeout = Second, MaxInFlightInstances = 100\<rparr>"]
  by (simp add: Let_def Second_def)

end
