(* ===== verification/Messages.thy ===== *)
theory Messages
  imports Paxos_Types "HOL-Library.Sublist"
begin

text \<open>
  \<^verbatim>\<open>paxos/message.go\<close>: the protocol messages and their binary encoding.  Each message is
  a one-byte type tag followed by its fields in big-endian order; a value is a 32-bit length
  followed by its bytes.  The locale \<open>codec\<close> states the contract between an encoder and a
  decoder (round trip with trailing input, failure on every truncation), and its
  interpretations discharge it for the fields, the messages and the values.
\<close>

section \<open>Messages\<close>

type_synonym MessageType = "8 word"

definition MsgPrepare :: MessageType where "MsgPrepare = 1"
definition MsgPromise :: MessageType where "MsgPromise = 2"
definition MsgReject :: MessageType where "MsgReject = 3"
definition MsgAccept :: MessageType where "MsgAccept = 4"
definition MsgAccepted :: MessageType where "MsgAccepted = 5"
definition MsgNack :: MessageType where "MsgNack = 6"
definition MsgCommit :: MessageType where "MsgCommit = 7"
definition MsgHeartbeat :: MessageType where "MsgHeartbeat = 8"
definition MsgCatchupReq :: MessageType where "MsgCatchupReq = 9"
definition MsgCatchupRes :: MessageType where "MsgCatchupRes = 10"

lemmas msg_type_defs =
  MsgPrepare_def MsgPromise_def MsgReject_def MsgAccept_def MsgAccepted_def MsgNack_def
  MsgCommit_def MsgHeartbeat_def MsgCatchupReq_def MsgCatchupRes_def

text \<open>The dynamic type behind the Go interface \<open>Message\<close>: one constructor per struct, its
  arguments the struct's fields in order.\<close>

datatype Message =
    Prepare (m_Ballot: Ballot) (m_Instance: Instance)
  | Promise (m_Ballot: Ballot) (m_Instance: Instance) (m_FromNode: NodeID)
      (m_AcceptedBallot: Ballot) (m_AcceptedValue: Value)
  | Reject (m_Ballot: Ballot) (m_Instance: Instance) (m_FromNode: NodeID) (m_HigherBallot: Ballot)
  | Accept (m_Ballot: Ballot) (m_Instance: Instance) (m_Value: Value)
  | Accepted (m_Ballot: Ballot) (m_Instance: Instance) (m_FromNode: NodeID)
  | Nack (m_Ballot: Ballot) (m_Instance: Instance) (m_FromNode: NodeID) (m_HigherBallot: Ballot)
  | Commit (m_Ballot: Ballot) (m_Instance: Instance) (m_Value: Value)
  | Heartbeat (m_Ballot: Ballot) (m_LeaderID: NodeID) (m_LastInstance: Instance)

fun Type :: "Message \<Rightarrow> MessageType" where
  "Type (Prepare _ _) = MsgPrepare"
| "Type (Promise _ _ _ _ _) = MsgPromise"
| "Type (Reject _ _ _ _) = MsgReject"
| "Type (Accept _ _ _) = MsgAccept"
| "Type (Accepted _ _ _) = MsgAccepted"
| "Type (Nack _ _ _ _) = MsgNack"
| "Type (Commit _ _ _) = MsgCommit"
| "Type (Heartbeat _ _ _) = MsgHeartbeat"

section \<open>Encoding\<close>

text \<open>The encoders write to a \<^verbatim>\<open>bytes.Buffer\<close>, whose writes do not fail.  The length
  prefix is \<open>uint32(len(v))\<close>, so it is the length modulo 2^32.\<close>

abbreviation put8 :: "8 word \<Rightarrow> byte list" where "put8 \<equiv> put_word 1"
abbreviation put16 :: "16 word \<Rightarrow> byte list" where "put16 \<equiv> put_word 2"
abbreviation put32 :: "32 word \<Rightarrow> byte list" where "put32 \<equiv> put_word 4"
abbreviation put64 :: "64 word \<Rightarrow> byte list" where "put64 \<equiv> put_word 8"

definition put_value :: "Value \<Rightarrow> byte list" where
  "put_value v = put32 (word_of_nat (slice_len v)) @ slice_bytes v"

text \<open>One definition per \<open>Encode\<close> method, and the dispatch on the dynamic type.\<close>

definition encodePrepare :: "Ballot \<Rightarrow> Instance \<Rightarrow> byte list" where
  "encodePrepare b i = put8 MsgPrepare @ put64 b @ put64 i"

definition encodePromise :: "Ballot \<Rightarrow> Instance \<Rightarrow> NodeID \<Rightarrow> Ballot \<Rightarrow> Value \<Rightarrow> byte list" where
  "encodePromise b i n ab av = put8 MsgPromise @ put64 b @ put64 i @ put16 n @ put64 ab @ put_value av"

definition encodeReject :: "Ballot \<Rightarrow> Instance \<Rightarrow> NodeID \<Rightarrow> Ballot \<Rightarrow> byte list" where
  "encodeReject b i n h = put8 MsgReject @ put64 b @ put64 i @ put16 n @ put64 h"

definition encodeAccept :: "Ballot \<Rightarrow> Instance \<Rightarrow> Value \<Rightarrow> byte list" where
  "encodeAccept b i v = put8 MsgAccept @ put64 b @ put64 i @ put_value v"

definition encodeAccepted :: "Ballot \<Rightarrow> Instance \<Rightarrow> NodeID \<Rightarrow> byte list" where
  "encodeAccepted b i n = put8 MsgAccepted @ put64 b @ put64 i @ put16 n"

definition encodeNack :: "Ballot \<Rightarrow> Instance \<Rightarrow> NodeID \<Rightarrow> Ballot \<Rightarrow> byte list" where
  "encodeNack b i n h = put8 MsgNack @ put64 b @ put64 i @ put16 n @ put64 h"

definition encodeCommit :: "Ballot \<Rightarrow> Instance \<Rightarrow> Value \<Rightarrow> byte list" where
  "encodeCommit b i v = put8 MsgCommit @ put64 b @ put64 i @ put_value v"

definition encodeHeartbeat :: "Ballot \<Rightarrow> NodeID \<Rightarrow> Instance \<Rightarrow> byte list" where
  "encodeHeartbeat b l i = put8 MsgHeartbeat @ put64 b @ put16 l @ put64 i"

lemmas encode_defs =
  encodePrepare_def encodePromise_def encodeReject_def encodeAccept_def
  encodeAccepted_def encodeNack_def encodeCommit_def encodeHeartbeat_def

fun Encode :: "Message \<Rightarrow> byte list" where
  "Encode (Prepare b i) = encodePrepare b i"
| "Encode (Promise b i n ab av) = encodePromise b i n ab av"
| "Encode (Reject b i n h) = encodeReject b i n h"
| "Encode (Accept b i v) = encodeAccept b i v"
| "Encode (Accepted b i n) = encodeAccepted b i n"
| "Encode (Nack b i n h) = encodeNack b i n h"
| "Encode (Commit b i v) = encodeCommit b i v"
| "Encode (Heartbeat b l i) = encodeHeartbeat b l i"

section \<open>Decoding\<close>

abbreviation read8 :: "8 word reader" where "read8 \<equiv> read_word 1"
abbreviation read16 :: "16 word reader" where "read16 \<equiv> read_word 2"
abbreviation read32 :: "32 word reader" where "read32 \<equiv> read_word 4"
abbreviation read64 :: "64 word reader" where "read64 \<equiv> read_word 8"

text \<open>A zero length leaves the value nil; any other length allocates and fills a slice.\<close>

definition read_value :: "Value reader" where
  "read_value = rd_bind read32 (\<lambda>valueLen.
     if valueLen > 0 then rd_bind (read_full (unat valueLen)) (\<lambda>d. rd_return (Some d))
     else rd_return None)"

definition decodePrepare :: "Message reader" where
  "decodePrepare = rd_bind read64 (\<lambda>b. rd_bind read64 (\<lambda>i. rd_return (Prepare b i)))"

definition decodePromise :: "Message reader" where
  "decodePromise = rd_bind read64 (\<lambda>b. rd_bind read64 (\<lambda>i. rd_bind read16 (\<lambda>n.
     rd_bind read64 (\<lambda>ab. rd_bind read_value (\<lambda>av. rd_return (Promise b i n ab av))))))"

definition decodeReject :: "Message reader" where
  "decodeReject = rd_bind read64 (\<lambda>b. rd_bind read64 (\<lambda>i. rd_bind read16 (\<lambda>n.
     rd_bind read64 (\<lambda>h. rd_return (Reject b i n h)))))"

definition decodeAccept :: "Message reader" where
  "decodeAccept = rd_bind read64 (\<lambda>b. rd_bind read64 (\<lambda>i. rd_bind read_value (\<lambda>v.
     rd_return (Accept b i v))))"

definition decodeAccepted :: "Message reader" where
  "decodeAccepted = rd_bind read64 (\<lambda>b. rd_bind read64 (\<lambda>i. rd_bind read16 (\<lambda>n.
     rd_return (Accepted b i n))))"

definition decodeNack :: "Message reader" where
  "decodeNack = rd_bind read64 (\<lambda>b. rd_bind read64 (\<lambda>i. rd_bind read16 (\<lambda>n.
     rd_bind read64 (\<lambda>h. rd_return (Nack b i n h)))))"

definition decodeCommit :: "Message reader" where
  "decodeCommit = rd_bind read64 (\<lambda>b. rd_bind read64 (\<lambda>i. rd_bind read_value (\<lambda>v.
     rd_return (Commit b i v))))"

definition decodeHeartbeat :: "Message reader" where
  "decodeHeartbeat = rd_bind read64 (\<lambda>b. rd_bind read16 (\<lambda>l. rd_bind read64 (\<lambda>i.
     rd_return (Heartbeat b l i))))"

definition rd_fail :: "error \<Rightarrow> 'a reader" where
  "rd_fail e bs = Inl e"

definition decodeMessage :: "Message reader" where
  "decodeMessage = rd_bind read8 (\<lambda>msgType.
     if msgType = MsgPrepare then decodePrepare
     else if msgType = MsgPromise then decodePromise
     else if msgType = MsgReject then decodeReject
     else if msgType = MsgAccept then decodeAccept
     else if msgType = MsgAccepted then decodeAccepted
     else if msgType = MsgNack then decodeNack
     else if msgType = MsgCommit then decodeCommit
     else if msgType = MsgHeartbeat then decodeHeartbeat
     else rd_fail ErrUnknownMessageType)"

lemmas decode_defs =
  decodePrepare_def decodePromise_def decodeReject_def decodeAccept_def decodeAccepted_def
  decodeNack_def decodeCommit_def decodeHeartbeat_def

section \<open>The contract of an encoding\<close>

text \<open>
  \<open>parses p d x\<close>: the reader \<open>p\<close> turns exactly the bytes \<open>d\<close> into \<open>x\<close>, leaves whatever
  follows them, and reports the end of the stream on every proper prefix of \<open>d\<close>.
\<close>

definition short_read :: "'a result \<Rightarrow> bool" where
  "short_read r \<longleftrightarrow> r = Inl ErrEOF \<or> r = Inl ErrUnexpectedEOF"

definition parses :: "'a reader \<Rightarrow> byte list \<Rightarrow> 'a \<Rightarrow> bool" where
  "parses p d x \<longleftrightarrow> (\<forall>r. p (d @ r) = Inr (x, r)) \<and> (\<forall>q. strict_prefix q d \<longrightarrow> short_read (p q))"

lemma short_read_Inr [simp]: "\<not> short_read (Inr x)"
  by (simp add: short_read_def)

lemma parses_run: "parses p d x \<Longrightarrow> p (d @ r) = Inr (x, r)"
  by (simp add: parses_def)

lemma parses_return: "parses (rd_return x) [] x"
  by (simp add: parses_def rd_return_def)

lemma parses_read_full: "length d = n \<Longrightarrow> parses (read_full n) d d"
  by (auto simp: parses_def codec_simps short_read_def read_full_def dest: prefix_length_less)

lemma parses_read_word:
  "LENGTH('a) \<le> 8 * n \<Longrightarrow> parses (read_word n) (put_word n w) (w :: 'a::len word)"
  using parses_read_full [of "put_word n w" n] read_word_put [of n w]
  by (auto simp: parses_def short_read_def read_word_def)

lemma parses_bind:
  assumes p: "parses p d x" and f: "parses (f x) d' y"
  shows "parses (rd_bind p f) (d @ d') y"
  unfolding parses_def
proof (intro conjI allI impI)
  fix r show "rd_bind p f ((d @ d') @ r) = Inr (y, r)"
    using p f by (simp add: rd_bind_def parses_def)
next
  fix q assume "strict_prefix q (d @ d')"
  then consider "strict_prefix q d" | q' where "q = d @ q'" "strict_prefix q' d'"
    by (cases "q = d") (fastforce simp: strict_prefix_def prefix_append)+
  then show "short_read (rd_bind p f q)"
  proof cases
    case 1
    then show ?thesis using p by (auto simp: parses_def rd_bind_def short_read_def)
  next
    case 2
    then show ?thesis using p f by (auto simp: parses_def rd_bind_def)
  qed
qed

lemma parses_bind_last: "parses p d x \<Longrightarrow> parses (f x) [] y \<Longrightarrow> parses (rd_bind p f) d y"
  using parses_bind [of p d x f "[]" y] by simp

fun read_many :: "'a reader \<Rightarrow> nat \<Rightarrow> 'a list reader" where
  "read_many p 0 = rd_return []"
| "read_many p (Suc n) = rd_bind p (\<lambda>x. rd_bind (read_many p n) (\<lambda>xs. rd_return (x # xs)))"

locale codec =
  fixes enc :: "'a \<Rightarrow> byte list"
    and dec :: "'a reader"
    and norm :: "'a \<Rightarrow> 'a"
    and ok :: "'a \<Rightarrow> bool"
  assumes enc_parses: "ok x \<Longrightarrow> parses dec (enc x) (norm x)"
    and enc_nonempty: "enc x \<noteq> []"
begin

lemma round_trip: "ok x \<Longrightarrow> dec (enc x @ r) = Inr (norm x, r)"
  by (rule parses_run [OF enc_parses])

lemma truncated: "ok x \<Longrightarrow> strict_prefix q (enc x) \<Longrightarrow> short_read (dec q)"
  using enc_parses by (auto simp: parses_def)

lemma prefix_free:
  assumes "ok x" "ok y" "enc x @ r = enc y @ r'"
  shows "norm x = norm y \<and> r = r'"
  using round_trip [OF assms(1), of r] round_trip [OF assms(2), of r'] assms(3) by simp

lemma stream_round_trip:
  "list_all ok xs \<Longrightarrow> read_many dec (length xs) (concat (map enc xs) @ r) = Inr (map norm xs, r)"
  by (induction xs) (simp_all add: rd_return_def rd_bind_def round_trip)

end

locale canonical_codec = codec +
  assumes dec_sound: "dec bs = Inr (x, r) \<Longrightarrow> bs = enc x @ r"
begin

lemma dec_consumes: "dec bs = Inr (x, r) \<Longrightarrow> length r < length bs"
  using dec_sound enc_nonempty by fastforce

end

interpretation u8_codec: canonical_codec put8 read8 id "\<lambda>_. True"
  by unfold_locales (simp_all add: parses_read_word read_word_Inr)

interpretation u16_codec: canonical_codec put16 read16 id "\<lambda>_. True"
  by unfold_locales (simp_all add: parses_read_word read_word_Inr)

interpretation u32_codec: canonical_codec put32 read32 id "\<lambda>_. True"
  by unfold_locales (simp_all add: parses_read_word read_word_Inr)

interpretation u64_codec: canonical_codec put64 read64 id "\<lambda>_. True"
  by unfold_locales (simp_all add: parses_read_word read_word_Inr)

section \<open>What survives a transmission\<close>

text \<open>
  Encoding forgets whether an empty value was nil: both are sent as length 0 and decoded as
  nil.  Every other field, and every non-empty value shorter than 2^32 bytes, is preserved.
\<close>

definition wire_value :: "Value \<Rightarrow> Value" where
  "wire_value v = (if slice_len v = 0 then None else v)"

fun wire :: "Message \<Rightarrow> Message" where
  "wire (Promise b i n ab av) = Promise b i n ab (wire_value av)"
| "wire (Accept b i v) = Accept b i (wire_value v)"
| "wire (Commit b i v) = Commit b i (wire_value v)"
| "wire m = m"

definition value_fits :: "Value \<Rightarrow> bool" where
  "value_fits v \<longleftrightarrow> slice_len v < 2 ^ 32"

fun msg_fits :: "Message \<Rightarrow> bool" where
  "msg_fits (Promise b i n ab av) = value_fits av"
| "msg_fits (Accept b i v) = value_fits v"
| "msg_fits (Commit b i v) = value_fits v"
| "msg_fits _ = True"

lemma wire_value_idem [simp]: "wire_value (wire_value v) = wire_value v"
  by (simp add: wire_value_def)

lemma wire_value_None [simp]: "wire_value None = None"
  by (simp add: wire_value_def)

lemma wire_value_id: "slice_len v > 0 \<Longrightarrow> wire_value v = v"
  by (simp add: wire_value_def)

lemma wire_idem [simp]: "wire (wire m) = wire m"
  by (cases m) auto

lemma parses_value:
  assumes "value_fits v"
  shows "parses read_value (put_value v) (wire_value v)"
proof -
  let ?n = "word_of_nat (slice_len v) :: 32 word"
  have n: "unat ?n = slice_len v"
    using assms by (simp add: value_fits_def unat_of_nat)
  have pos: "?n > 0 \<longleftrightarrow> slice_len v > 0"
    by (simp add: n word_less_nat_alt)
  have tail: "parses (if ?n > 0 then rd_bind (read_full (unat ?n)) (\<lambda>d. rd_return (Some d))
      else rd_return None) (slice_bytes v) (wire_value v)"
  proof (cases "slice_len v > 0")
    case True
    then obtain bs where v: "v = Some bs" by (cases v) auto
    with n have "length bs = unat ?n" by simp
    then have "parses (rd_bind (read_full (unat ?n)) (\<lambda>d. rd_return (Some d))) bs (Some bs)"
      by (rule parses_bind_last [OF parses_read_full parses_return])
    with True pos show ?thesis by (simp add: v wire_value_def)
  next
    case False
    then have "slice_bytes v = []" by (cases v) auto
    with False pos show ?thesis by (simp add: wire_value_def parses_return)
  qed
  show ?thesis
    unfolding read_value_def put_value_def
    by (rule parses_bind [OF parses_read_word], simp, rule tail)
qed

lemma read_value_Inr:
  assumes "read_value bs = Inr (v, r)"
  shows "bs = put_value v @ r \<and> wire_value v = v \<and> value_fits v"
proof -
  from assms obtain n s where n: "read32 bs = Inr (n, s)"
    and v: "(if n > 0 then rd_bind (read_full (unat n)) (\<lambda>d. rd_return (Some d))
      else rd_return None) s = Inr (v, r)"
    by (auto simp: read_value_def rd_bind_Inr)
  from n have bs: "bs = put32 n @ s" by (rule read_word_Inr) simp
  show ?thesis
  proof (cases "n > 0")
    case True
    with v obtain d where d: "read_full (unat n) s = Inr (d, r)" "v = Some d"
      by (auto simp: rd_bind_Inr)
    from read_full_Inr [OF d(1)] have "s = d @ r" "length d = unat n" by auto
    moreover have "unat n \<noteq> 0" using True by (simp add: word_less_nat_alt)
    ultimately show ?thesis using d(2) unat_word32_less [of n]
      by (simp add: bs put_value_def wire_value_def value_fits_def)
  next
    case False
    then have "n = 0" by (simp add: word_less_nat_alt unat_eq_zero)
    with v show ?thesis by (auto simp: bs put_value_def wire_value_def value_fits_def)
  qed
qed

interpretation value_codec: codec put_value read_value wire_value value_fits
  by unfold_locales (rule parses_value, simp_all add: put_value_def)

lemmas parses_intros =
  parses_bind [OF parses_read_word] parses_bind_last [OF parses_read_word]
  parses_bind_last [OF parses_value] parses_return

lemma parses_message: "msg_fits m \<Longrightarrow> parses decodeMessage (Encode m) (wire m)"
  unfolding decodeMessage_def
  by (cases m)
     (auto simp: decode_defs encode_defs msg_type_defs intro!: parses_intros parses_bind [OF parses_read_word])

lemmas read_sound =
  u8_codec.dec_sound u16_codec.dec_sound u32_codec.dec_sound u64_codec.dec_sound

lemma decodeMessage_Inr:
  assumes "decodeMessage bs = Inr (m, r)"
  shows "bs = Encode m @ r \<and> wire m = m \<and> msg_fits m"
proof -
  from assms obtain t s where t: "read8 bs = Inr (t, s)"
    and d: "(if t = MsgPrepare then decodePrepare
     else if t = MsgPromise then decodePromise
     else if t = MsgReject then decodeReject
     else if t = MsgAccept then decodeAccept
     else if t = MsgAccepted then decodeAccepted
     else if t = MsgNack then decodeNack
     else if t = MsgCommit then decodeCommit
     else if t = MsgHeartbeat then decodeHeartbeat
     else rd_fail ErrUnknownMessageType) s = Inr (m, r)"
    by (auto simp: decodeMessage_def rd_bind_Inr)
  from u8_codec.dec_sound [OF t] have bs: "bs = put8 t @ s" .
  show ?thesis
    using d unfolding bs
    by (auto simp: decode_defs encode_defs rd_bind_Inr rd_fail_def split: if_splits
        dest!: read_sound dest: read_value_Inr)
qed

interpretation message_codec: canonical_codec Encode decodeMessage wire msg_fits
proof unfold_locales
  show "msg_fits m \<Longrightarrow> parses decodeMessage (Encode m) (wire m)" for m
    by (rule parses_message)
  show "Encode m \<noteq> []" for m
    by (cases m) (auto simp: encode_defs)
  show "decodeMessage bs = Inr (m, r) \<Longrightarrow> bs = Encode m @ r" for bs m r
    by (drule decodeMessage_Inr) simp
qed

text \<open>The field readers know two errors only, so no decoder of a known message reports an
  unknown type.\<close>

definition knows_type :: "'a reader \<Rightarrow> bool" where
  "knows_type p \<longleftrightarrow> (\<forall>bs. p bs \<noteq> Inl ErrUnknownMessageType)"

lemma knows_type_intros:
  "knows_type (rd_return x)"
  "knows_type (read_full n)"
  "knows_type (read_word n)"
  "knows_type p \<Longrightarrow> (\<And>x. knows_type (f x)) \<Longrightarrow> knows_type (rd_bind p f)"
  by (auto simp: knows_type_def rd_return_def read_full_def read_word_def rd_bind_def res_bind_def
      split: sum.splits if_splits)

lemma knows_type_value: "knows_type read_value"
  by (auto simp: read_value_def intro!: knows_type_intros)

lemma decoders_known:
  "decodePrepare bs \<noteq> Inl ErrUnknownMessageType" "decodePromise bs \<noteq> Inl ErrUnknownMessageType"
  "decodeReject bs \<noteq> Inl ErrUnknownMessageType" "decodeAccept bs \<noteq> Inl ErrUnknownMessageType"
  "decodeAccepted bs \<noteq> Inl ErrUnknownMessageType" "decodeNack bs \<noteq> Inl ErrUnknownMessageType"
  "decodeCommit bs \<noteq> Inl ErrUnknownMessageType" "decodeHeartbeat bs \<noteq> Inl ErrUnknownMessageType"
  unfolding decode_defs
  by (rule knows_type_def [THEN iffD1, rule_format],
      intro knows_type_intros knows_type_value)+

section \<open>Properties\<close>

text \<open>C23. Decoding what was encoded, followed by any further bytes, gives the message back and
  leaves the further bytes unread, for every message whose value is shorter than 2^32 bytes.
  The only thing the encoding does not keep is whether an empty value was nil.\<close>

theorem message_round_trip:
  "msg_fits m \<Longrightarrow> decodeMessage (Encode m @ r) = Inr (wire m, r)"
  by (rule message_codec.round_trip)

theorem message_round_trip_witness:
  "decodeMessage (Encode (Promise (MakeBallot 1 2) 10 3 (MakeBallot 0 1) (Some [104, 105])) @ [7])
   = Inr (Promise (MakeBallot 1 2) 10 3 (MakeBallot 0 1) (Some [104, 105]), [7])"
  using message_round_trip [of "Promise (MakeBallot 1 2) 10 3 (MakeBallot 0 1) (Some [104, 105])"]
  by (simp add: value_fits_def wire_value_def)

text \<open>C24. The decoder accepts nothing but encodings: whatever it returns, the bytes it consumed
  are exactly the encoding of the returned message, and that message is one the encoder
  transmits unchanged.\<close>

theorem message_decode_canonical:
  "decodeMessage bs = Inr (m, r) \<Longrightarrow> bs = Encode m @ r \<and> wire m = m \<and> msg_fits m"
  by (rule decodeMessage_Inr)

theorem message_decode_canonical_witness:
  "decodeMessage (Encode (Accepted 65537 4 2) @ [1]) = Inr (Accepted 65537 4 2, [1])
   \<and> wire (Accepted 65537 4 2) = Accepted 65537 4 2"
proof -
  have d: "decodeMessage (Encode (Accepted 65537 4 2) @ [1]) = Inr (Accepted 65537 4 2, [1])"
    using message_codec.round_trip [of "Accepted 65537 4 2" "[1]"] by simp
  then show ?thesis using message_decode_canonical [OF d] by simp
qed

text \<open>C25. A message cut off anywhere, from the empty stream to all but its last byte, is
  reported as an end-of-stream error and never decoded as some shorter message.\<close>

theorem message_truncated:
  "msg_fits m \<Longrightarrow> strict_prefix q (Encode m) \<Longrightarrow>
     decodeMessage q = Inl ErrEOF \<or> decodeMessage q = Inl ErrUnexpectedEOF"
  using message_codec.truncated [of m q] by (simp add: short_read_def)

theorem message_truncated_witness:
  "decodeMessage (take 10 (Encode (Prepare 65537 1))) = Inl ErrEOF
   \<or> decodeMessage (take 10 (Encode (Prepare 65537 1))) = Inl ErrUnexpectedEOF"
proof (rule message_truncated [of "Prepare 65537 1"])
  show "strict_prefix (take 10 (Encode (Prepare 65537 1))) (Encode (Prepare 65537 1))"
    by (simp add: strict_prefix_def take_is_prefix encode_defs)
qed simp

text \<open>A stream whose first byte is none of the eight known tags is refused with the
  unknown-type error; the catch-up tags 9 and 10 are among the refused ones, and no known tag
  is ever reported as unknown.\<close>

theorem message_unknown_type:
  "decodeMessage (t # bs) = Inl ErrUnknownMessageType \<longleftrightarrow> t = 0 \<or> 8 < t"
proof -
  have "read8 (t # bs) = Inr (t, bs)"
    using read_word_put [of 1 t bs] by (simp add: put_word_def)
  then have "decodeMessage (t # bs) = Inl ErrUnknownMessageType \<longleftrightarrow>
      t \<notin> {1, 2, 3, 4, 5, 6, 7, 8}"
    by (auto simp: decodeMessage_def rd_bind_def msg_type_defs rd_fail_def decoders_known)
  also have "\<dots> \<longleftrightarrow> t = 0 \<or> 8 < t"
  proof -
    have "unat t \<notin> {1, 2, 3, 4, 5, 6, 7, 8} \<longleftrightarrow> unat t = 0 \<or> 8 < unat t" by auto
    then show ?thesis by (simp add: word_unat_eq_iff word_less_nat_alt)
  qed
  finally show ?thesis .
qed

end
