(* ===== verification/Storage.thy ===== *)
theory Storage
  imports Paxos_Types
begin

text \<open>
  The \<open>Storage\<close> interface of \<^verbatim>\<open>paxos/types.go\<close> and its in-memory implementation in
  \<^verbatim>\<open>paxos/storage.go\<close>.  A Go interface value is a method table over hidden state, so the
  interface is a record of operations over a type of storage states, and components that
  use a storage take such a record.  The locale \<open>storage_contract\<close> states what the
  acceptor and the node rely on; \<open>MemoryStorage\<close> is shown to provide it.
\<close>

section \<open>The interface\<close>

text \<open>
  A method that returns \<open>(T, error)\<close> returns the pair, because the caller can see both
  parts; a method that can change the storage also returns the new state.
\<close>

record 's Storage =
  SaveAcceptorState :: "'s \<Rightarrow> AcceptorState \<Rightarrow> error option \<times> 's"
  LoadAcceptorState :: "'s \<Rightarrow> AcceptorState \<times> error option"
  AppendLog :: "'s \<Rightarrow> LogEntry \<Rightarrow> error option \<times> 's"
  GetLog :: "'s \<Rightarrow> Instance \<Rightarrow> LogEntry \<times> error option"
  GetLogRange :: "'s \<Rightarrow> Instance \<Rightarrow> Instance \<Rightarrow> LogEntry list \<times> error option"
  GetLastInstance :: "'s \<Rightarrow> Instance \<times> error option"
  SaveSnapshot :: "'s \<Rightarrow> Snapshot \<Rightarrow> error option \<times> 's"
  LoadSnapshot :: "'s \<Rightarrow> Snapshot \<times> error option"
  CloseStorage :: "'s \<Rightarrow> error option \<times> 's"

definition zero_AcceptorState :: AcceptorState where
  "zero_AcceptorState = \<lparr>PromisedBallot = None, AcceptedBallot = None, AcceptedValue = None\<rparr>"

definition zero_LogEntry :: LogEntry where
  "zero_LogEntry = \<lparr>le_Instance = 0, le_Ballot = 0, le_Value = None\<rparr>"

definition zero_Snapshot :: Snapshot where
  "zero_Snapshot = \<lparr>sn_LastInstance = 0, sn_Data = None, sn_Checksum = None\<rparr>"

section \<open>In-memory storage\<close>

record MemoryStorage =
  acceptorState :: AcceptorState
  log :: "Instance \<rightharpoonup> LogEntry"
  lastInstance :: Instance
  snapshot :: "Snapshot option"
  closed :: bool

definition NewMemoryStorage :: MemoryStorage where
  "NewMemoryStorage =
     \<lparr>acceptorState = \<lparr>PromisedBallot = Some Map.empty, AcceptedBallot = Some Map.empty,
        AcceptedValue = Some Map.empty\<rparr>,
      log = Map.empty, lastInstance = 0, snapshot = None, closed = False\<rparr>"

text \<open>Copying a map entry by entry is the identity on the model's maps; the values are copied
  byte by byte into fresh, non-nil slices.\<close>

definition copy_values :: "(Instance \<rightharpoonup> Value) \<Rightarrow> (Instance \<rightharpoonup> Value)" where
  "copy_values m = (\<lambda>k. map_option slice_copy (m k))"

definition deep_copy :: "AcceptorState \<Rightarrow> AcceptorState" where
  "deep_copy st =
     \<lparr>PromisedBallot = Some (deref_map (PromisedBallot st)),
      AcceptedBallot = Some (deref_map (AcceptedBallot st)),
      AcceptedValue = Some (copy_values (deref_map (AcceptedValue st)))\<rparr>"

definition mem_SaveAcceptorState ::
  "MemoryStorage \<Rightarrow> AcceptorState \<Rightarrow> error option \<times> MemoryStorage" where
  "mem_SaveAcceptorState s st =
     (if closed s then (Some ErrStorageClosed, s)
      else (None, s\<lparr>acceptorState := deep_copy st\<rparr>))"

definition mem_LoadAcceptorState :: "MemoryStorage \<Rightarrow> AcceptorState \<times> error option" where
  "mem_LoadAcceptorState s =
     (if closed s then (zero_AcceptorState, Some ErrStorageClosed)
      else if map_empty (deref_map (PromisedBallot (acceptorState s)))
            \<and> map_empty (deref_map (AcceptedBallot (acceptorState s)))
        then (zero_AcceptorState, Some ErrNotFound)
      else (deep_copy (acceptorState s), None))"

definition mem_AppendLog :: "MemoryStorage \<Rightarrow> LogEntry \<Rightarrow> error option \<times> MemoryStorage" where
  "mem_AppendLog s entry =
     (if closed s then (Some ErrStorageClosed, s)
      else (let entryCopy = entry\<lparr>le_Value := slice_copy (le_Value entry)\<rparr>;
                s' = s\<lparr>log := (log s)(le_Instance entry \<mapsto> entryCopy)\<rparr>
            in (None, if le_Instance entry > lastInstance s
                      then s'\<lparr>lastInstance := le_Instance entry\<rparr> else s')))"

definition mem_GetLog :: "MemoryStorage \<Rightarrow> Instance \<Rightarrow> LogEntry \<times> error option" where
  "mem_GetLog s i =
     (if closed s then (zero_LogEntry, Some ErrStorageClosed)
      else case log s i of None \<Rightarrow> (zero_LogEntry, Some ErrNotFound) | Some e \<Rightarrow> (e, None))"

definition mem_GetLogRange ::
  "MemoryStorage \<Rightarrow> Instance \<Rightarrow> Instance \<Rightarrow> LogEntry list \<times> error option" where
  "mem_GetLogRange s from to =
     (if closed s then ([], Some ErrStorageClosed)
      else (List.map_filter (log s) (range64 from to), None))"

definition mem_GetLastInstance :: "MemoryStorage \<Rightarrow> Instance \<times> error option" where
  "mem_GetLastInstance s =
     (if closed s then (0, Some ErrStorageClosed)
      else if lastInstance s = 0 then (0, Some ErrNotFound)
      else (lastInstance s, None))"

definition mem_SaveSnapshot :: "MemoryStorage \<Rightarrow> Snapshot \<Rightarrow> error option \<times> MemoryStorage" where
  "mem_SaveSnapshot s snap =
     (if closed s then (Some ErrStorageClosed, s)
      else (None, s\<lparr>snapshot := Some (snap\<lparr>sn_Data := slice_copy (sn_Data snap),
                                          sn_Checksum := slice_copy (sn_Checksum snap)\<rparr>)\<rparr>))"

definition mem_LoadSnapshot :: "MemoryStorage \<Rightarrow> Snapshot \<times> error option" where
  "mem_LoadSnapshot s =
     (if closed s then (zero_Snapshot, Some ErrStorageClosed)
      else case snapshot s of None \<Rightarrow> (zero_Snapshot, Some ErrNotFound) | Some x \<Rightarrow> (x, None))"

definition mem_Close :: "MemoryStorage \<Rightarrow> error option \<times> MemoryStorage" where
  "mem_Close s = (None, s\<lparr>closed := True\<rparr>)"

text \<open>The method table: \<^verbatim>\<open>var _ Storage = (*MemoryStorage)(nil)\<close>.\<close>

definition memory_storage :: "MemoryStorage Storage" where
  "memory_storage =
     \<lparr>SaveAcceptorState = mem_SaveAcceptorState, LoadAcceptorState = mem_LoadAcceptorState,
      AppendLog = mem_AppendLog, GetLog = mem_GetLog, GetLogRange = mem_GetLogRange,
      GetLastInstance = mem_GetLastInstance, SaveSnapshot = mem_SaveSnapshot,
      LoadSnapshot = mem_LoadSnapshot, CloseStorage = mem_Close\<rparr>"

lemma memory_storage_simps [simp]:
  "SaveAcceptorState memory_storage = mem_SaveAcceptorState"
  "LoadAcceptorState memory_storage = mem_LoadAcceptorState"
  "AppendLog memory_storage = mem_AppendLog"
  "GetLog memory_storage = mem_GetLog"
  "GetLogRange memory_storage = mem_GetLogRange"
  "GetLastInstance memory_storage = mem_GetLastInstance"
  "SaveSnapshot memory_storage = mem_SaveSnapshot"
  "LoadSnapshot memory_storage = mem_LoadSnapshot"
  "CloseStorage memory_storage = mem_Close"
  by (simp_all add: memory_storage_def)

section \<open>The contract\<close>

text \<open>
  What the acceptor and the node rely on, over two views of a storage state: the acceptor
  state last saved and the log written so far.  A save or an append either succeeds and
  changes exactly its own view, or fails and changes neither; loading returns what was
  saved; the recovery reads cover the log.  An implementation may fail at any time.
\<close>

locale storage_contract =
  fixes S :: "'s Storage"
    and saved :: "'s \<Rightarrow> AcceptorState"
    and logged :: "'s \<Rightarrow> Instance \<rightharpoonup> LogEntry"
    and inv :: "'s \<Rightarrow> bool"
  assumes save_ok: "inv s \<Longrightarrow> SaveAcceptorState S s st = (None, s') \<Longrightarrow>
      inv s' \<and> saved s' = deep_copy st \<and> logged s' = logged s"
    and save_err: "inv s \<Longrightarrow> SaveAcceptorState S s st = (Some e, s') \<Longrightarrow>
      inv s' \<and> saved s' = saved s \<and> logged s' = logged s"
    and append_ok: "inv s \<Longrightarrow> AppendLog S s en = (None, s') \<Longrightarrow>
      inv s' \<and> saved s' = saved s
      \<and> logged s' = (logged s)(le_Instance en \<mapsto> en\<lparr>le_Value := slice_copy (le_Value en)\<rparr>)"
    and append_err: "inv s \<Longrightarrow> AppendLog S s en = (Some e, s') \<Longrightarrow>
      inv s' \<and> saved s' = saved s \<and> logged s' = logged s"
    and load_ok: "inv s \<Longrightarrow> LoadAcceptorState S s = (st, None) \<Longrightarrow> st = saved s"
    and load_none: "inv s \<Longrightarrow> LoadAcceptorState S s = (st, Some ErrNotFound) \<Longrightarrow>
      st = zero_AcceptorState \<and> map_empty (deref_map (PromisedBallot (saved s)))
      \<and> map_empty (deref_map (AcceptedBallot (saved s)))"
    and last_ok: "inv s \<Longrightarrow> GetLastInstance S s = (n, None) \<Longrightarrow> i \<in> dom (logged s) \<Longrightarrow> i \<le> n"
    and last_none: "inv s \<Longrightarrow> GetLastInstance S s = (n, Some ErrNotFound) \<Longrightarrow>
      n = 0 \<and> dom (logged s) \<subseteq> {0}"
    and range_ok: "inv s \<Longrightarrow> GetLogRange S s f t = (es, None) \<Longrightarrow>
      es = List.map_filter (logged s) (range64 f t)"
    and logged_key: "inv s \<Longrightarrow> logged s i = Some en \<Longrightarrow> le_Instance en = i"
begin

lemma save_inv: "inv s \<Longrightarrow> inv (snd (SaveAcceptorState S s st))"
  by (cases "SaveAcceptorState S s st"; cases "fst (SaveAcceptorState S s st)")
     (auto dest: save_ok save_err)

lemma append_inv: "inv s \<Longrightarrow> inv (snd (AppendLog S s e))"
  by (cases "AppendLog S s e"; cases "fst (AppendLog S s e)") (auto dest: append_ok append_err)

lemma append_saved: "inv s \<Longrightarrow> saved (snd (AppendLog S s e)) = saved s"
  by (cases "AppendLog S s e"; cases "fst (AppendLog S s e)") (auto dest: append_ok append_err)

lemma save_logged: "inv s \<Longrightarrow> logged (snd (SaveAcceptorState S s st)) = logged s"
  by (cases "SaveAcceptorState S s st"; cases "fst (SaveAcceptorState S s st)")
     (auto dest: save_ok save_err)

text \<open>The entries of a range come in instance order, one for each logged instance in it.\<close>

lemma range_sorted:
  assumes "inv s" "GetLogRange S s f t = (es, None)"
  shows "sorted_wrt (\<lambda>x y. le_Instance x < le_Instance y) es"
proof -
  have "sorted_wrt (\<lambda>x y. le_Instance x < le_Instance y) (List.map_filter (logged s) xs)"
    if "sorted_wrt (<) xs" for xs
    using that assms(1)
    by (induction xs) (auto simp: List.map_filter_simps set_map_filter logged_key split: option.splits)
  then show ?thesis using range_ok [OF assms] sorted_range64 by simp
qed

lemma range_set:
  assumes "inv s" "GetLogRange S s f t = (es, None)"
  shows "set es = {e. \<exists>i. f \<le> i \<and> i < t \<and> logged s i = Some e}"
  using range_ok [OF assms] by (auto simp: set_map_filter set_range64)

end

lemma deep_copy_idem [simp]: "deep_copy (deep_copy st) = deep_copy st"
  by (simp add: deep_copy_def copy_values_def option.map_comp comp_def)

definition mem_inv :: "MemoryStorage \<Rightarrow> bool" where
  "mem_inv s \<longleftrightarrow> deep_copy (acceptorState s) = acceptorState s
     \<and> (\<forall>i e. log s i = Some e \<longrightarrow>
          le_Instance e = i \<and> slice_copy (le_Value e) = le_Value e \<and> i \<le> lastInstance s)
     \<and> (lastInstance s \<noteq> 0 \<longrightarrow> log s (lastInstance s) \<noteq> None)"

lemma mem_inv_new: "mem_inv NewMemoryStorage"
  by (simp add: mem_inv_def NewMemoryStorage_def deep_copy_def copy_values_def)

lemma mem_inv_save: "mem_inv s \<Longrightarrow> mem_inv (snd (mem_SaveAcceptorState s st))"
  by (simp add: mem_inv_def mem_SaveAcceptorState_def)

lemma mem_inv_append: "mem_inv s \<Longrightarrow> mem_inv (snd (mem_AppendLog s e))"
  by (auto simp: mem_inv_def mem_AppendLog_def Let_def not_less)
     (metis less_imp_le order_trans)+

lemma mem_inv_snapshot: "mem_inv s \<Longrightarrow> mem_inv (snd (mem_SaveSnapshot s x))"
  by (simp add: mem_inv_def mem_SaveSnapshot_def)

lemma mem_inv_close: "mem_inv s \<Longrightarrow> mem_inv (snd (mem_Close s))"
  by (simp add: mem_inv_def mem_Close_def)

lemmas mem_defs =
  mem_SaveAcceptorState_def mem_LoadAcceptorState_def mem_AppendLog_def mem_GetLog_def
  mem_GetLogRange_def mem_GetLastInstance_def mem_SaveSnapshot_def mem_LoadSnapshot_def
  mem_Close_def

interpretation mem: storage_contract memory_storage acceptorState log mem_inv
proof unfold_locales
  fix s st s' e
  show "mem_inv s \<Longrightarrow> SaveAcceptorState memory_storage s st = (None, s') \<Longrightarrow>
      mem_inv s' \<and> acceptorState s' = deep_copy st \<and> log s' = log s"
    using mem_inv_save [of s st] by (auto simp: mem_SaveAcceptorState_def split: if_splits)
  show "mem_inv s \<Longrightarrow> AppendLog memory_storage s e = (None, s') \<Longrightarrow>
      mem_inv s' \<and> acceptorState s' = acceptorState s
      \<and> log s' = (log s)(le_Instance e \<mapsto> e\<lparr>le_Value := slice_copy (le_Value e)\<rparr>)"
    using mem_inv_append [of s e] by (auto simp: mem_AppendLog_def Let_def split: if_splits)
qed (auto simp: mem_defs mem_inv_def Let_def split: if_splits)

section \<open>Operation sequences\<close>

text \<open>The calls that can change a \<open>MemoryStorage\<close>, and the effect of a sequence of them.\<close>

datatype mem_op =
    OpSave AcceptorState | OpAppend LogEntry | OpSnapshot Snapshot | OpClose

fun mem_exec :: "mem_op \<Rightarrow> MemoryStorage \<Rightarrow> MemoryStorage" where
  "mem_exec (OpSave st) s = snd (mem_SaveAcceptorState s st)"
| "mem_exec (OpAppend e) s = snd (mem_AppendLog s e)"
| "mem_exec (OpSnapshot x) s = snd (mem_SaveSnapshot s x)"
| "mem_exec OpClose s = snd (mem_Close s)"

definition mem_run :: "mem_op list \<Rightarrow> MemoryStorage" where
  "mem_run ops = fold mem_exec ops NewMemoryStorage"

lemma mem_inv_exec: "mem_inv s \<Longrightarrow> mem_inv (mem_exec x s)"
  by (cases x) (simp_all add: mem_inv_save mem_inv_append mem_inv_snapshot mem_inv_close)

lemma mem_inv_run: "mem_inv (mem_run ops)"
proof -
  have "mem_inv s \<Longrightarrow> mem_inv (fold mem_exec ops s)" for s
    by (induction ops arbitrary: s) (simp_all add: mem_inv_exec)
  then show ?thesis by (simp add: mem_run_def mem_inv_new)
qed

lemma closed_exec: "closed s \<Longrightarrow> mem_exec x s = s"
  by (cases x) (auto simp: mem_defs)

section \<open>Properties\<close>

text \<open>Loading after a save returns the saved promises, accepted ballots and accepted values
  (copied, with nil maps read as empty and nil values as empty slices), unless both ballot maps
  are empty, which is reported as not found, or the storage is closed.\<close>

theorem storage_save_load:
  "mem_LoadAcceptorState (snd (mem_SaveAcceptorState s st)) =
     (if closed s then (zero_AcceptorState, Some ErrStorageClosed)
      else if map_empty (deref_map (PromisedBallot st)) \<and> map_empty (deref_map (AcceptedBallot st))
        then (zero_AcceptorState, Some ErrNotFound)
      else (\<lparr>PromisedBallot = Some (deref_map (PromisedBallot st)),
             AcceptedBallot = Some (deref_map (AcceptedBallot st)),
             AcceptedValue = Some (copy_values (deref_map (AcceptedValue st)))\<rparr>, None))"
  by (simp add: mem_defs deep_copy_def copy_values_def option.map_comp comp_def)

text \<open>Whatever calls have been made on a fresh storage, the recovery read
  \<open>GetLogRange(1, GetLastInstance()+1)\<close> of an open storage returns every logged entry with a
  non-zero instance exactly once and in instance order.\<close>

theorem storage_recovery_read_complete:
  assumes "s = mem_run ops" and "mem_GetLastInstance s = (n, None)" and "n + 1 \<noteq> 0"
    and "mem_GetLogRange s 1 (n + 1) = (es, None)"
  shows "set es = {e. \<exists>i. i \<noteq> 0 \<and> log s i = Some e}
    \<and> sorted_wrt (\<lambda>x y. le_Instance x < le_Instance y) es"
proof -
  have inv: "mem_inv s" using assms(1) mem_inv_run by simp
  have range: "GetLogRange memory_storage s 1 (n + 1) = (es, None)" using assms(4) by simp
  have bound: "i \<le> n" if "log s i = Some e" for i e
    using mem.last_ok [OF inv, of n i] assms(2) that by auto
  have "i < n + 1" if "i \<le> n" for i
    using that less_Suc64 [OF assms(3)] by simp
  moreover have "1 \<le> i \<longleftrightarrow> i \<noteq> 0" for i :: Instance
    by (auto simp: word_le_nat_alt word_unat_eq_iff)
  ultimately show ?thesis
    using mem.range_set [OF inv range] mem.range_sorted [OF inv range] bound by blast
qed

theorem storage_recovery_read_complete_witness:
  "let e1 = \<lparr>le_Instance = 1, le_Ballot = 65537, le_Value = Some [1]\<rparr>;
       e3 = \<lparr>le_Instance = 3, le_Ballot = 65538, le_Value = Some [2]\<rparr>;
       s = mem_run [OpAppend e3, OpAppend e1]
   in mem_GetLastInstance s = (3, None) \<and> mem_GetLogRange s 1 (3 + 1) = ([e1, e3], None)
      \<and> set [e1, e3] = {e. \<exists>i. i \<noteq> 0 \<and> log s i = Some e}"
proof -
  define e1 :: LogEntry where "e1 = \<lparr>le_Instance = 1, le_Ballot = 65537, le_Value = Some [1]\<rparr>"
  define e3 :: LogEntry where "e3 = \<lparr>le_Instance = 3, le_Ballot = 65538, le_Value = Some [2]\<rparr>"
  define s where "s = mem_run [OpAppend e3, OpAppend e1]"
  have l: "mem_GetLastInstance s = (3, None)" and r: "mem_GetLogRange s 1 (3 + 1) = ([e1, e3], None)"
    by (simp_all add: s_def e1_def e3_def mem_run_def mem_defs NewMemoryStorage_def range64.simps
        slice_copy_def List.map_filter_simps)
  from storage_recovery_read_complete [OF s_def l _ r] l r show ?thesis
    by (simp add: s_def e1_def e3_def Let_def)
qed

text \<open>After \<open>Close\<close> every operation reports that the storage is closed and nothing changes
  the stored data any more.\<close>

theorem storage_closed_rejects:
  assumes "s = snd (mem_Close s0)"
  shows "fst (mem_SaveAcceptorState s st) = Some ErrStorageClosed
    \<and> snd (mem_LoadAcceptorState s) = Some ErrStorageClosed
    \<and> fst (mem_AppendLog s e) = Some ErrStorageClosed
    \<and> snd (mem_GetLog s i) = Some ErrStorageClosed
    \<and> snd (mem_GetLogRange s f t) = Some ErrStorageClosed
    \<and> snd (mem_GetLastInstance s) = Some ErrStorageClosed
    \<and> fst (mem_SaveSnapshot s x) = Some ErrStorageClosed
    \<and> snd (mem_LoadSnapshot s) = Some ErrStorageClosed
    \<and> fold mem_exec ops s = s"
proof -
  have c: "closed s" using assms by (simp add: mem_Close_def)
  then have "fold mem_exec ops s = s" by (induction ops) (simp_all add: closed_exec)
  with c show ?thesis by (simp add: mem_defs)
qed

theorem storage_closed_rejects_witness:
  "fst (mem_AppendLog (snd (mem_Close NewMemoryStorage))
      \<lparr>le_Instance = 1, le_Ballot = 1, le_Value = None\<rparr>) = Some ErrStorageClosed"
  using storage_closed_rejects [OF refl, of NewMemoryStorage] by simp

end
