(* ===== verification/Acceptor_Role.thy ===== *)
theory Acceptor_Role
  imports Messages Storage
begin

text \<open>
  \<^verbatim>\<open>paxos/acceptor.go\<close>: the acceptor keeps, per instance, the highest ballot it promised
  and the ballot and value it last accepted, and saves all three maps before it answers.
  The theorems are about sequences of requests: promises only grow, nothing is accepted
  below a promise, a promise reports the last accepted proposal, a failed save leaves no
  trace, and a restart from the same storage finds everything that was answered.
\<close>

section \<open>State and operations\<close>

record Acceptor =
  acc_nodeID :: NodeID
  promised :: "Instance \<rightharpoonup> Ballot"
  acceptedBallot :: "Instance \<rightharpoonup> Ballot"
  acceptedValue :: "Instance \<rightharpoonup> Value"

text \<open>The storage interface can be nil (\<^term>\<open>None\<close>); its state \<open>st\<close> is passed along.\<close>

definition NewAcceptor :: "NodeID \<Rightarrow> 's Storage option \<Rightarrow> 's \<Rightarrow> Acceptor result" where
  "NewAcceptor nodeID S st =
     (let a = \<lparr>acc_nodeID = nodeID, promised = Map.empty, acceptedBallot = Map.empty,
               acceptedValue = Map.empty\<rparr>
      in case S of
           None \<Rightarrow> Inr a
         | Some ops \<Rightarrow>
             (case LoadAcceptorState ops st of (state, err) \<Rightarrow>
                if err \<noteq> None \<and> err \<noteq> Some ErrNotFound then Inl (the err)
                else
                  let a = (case PromisedBallot state of None \<Rightarrow> a | Some m \<Rightarrow> a\<lparr>promised := m\<rparr>);
                      a = (case AcceptedBallot state of None \<Rightarrow> a | Some m \<Rightarrow> a\<lparr>acceptedBallot := m\<rparr>);
                      a = (case AcceptedValue state of None \<Rightarrow> a | Some m \<Rightarrow> a\<lparr>acceptedValue := m\<rparr>)
                  in Inr a))"

definition acceptor_snapshot :: "Acceptor \<Rightarrow> AcceptorState" where
  "acceptor_snapshot a =
     \<lparr>PromisedBallot = Some (promised a), AcceptedBallot = Some (acceptedBallot a),
      AcceptedValue = Some (acceptedValue a)\<rparr>"

definition persist :: "'s Storage option \<Rightarrow> Acceptor \<Rightarrow> 's \<Rightarrow> error option \<times> 's" where
  "persist S a st =
     (case S of None \<Rightarrow> (None, st)
      | Some ops \<Rightarrow> SaveAcceptorState ops st (acceptor_snapshot a))"

definition HandlePrepare ::
  "'s Storage option \<Rightarrow> Ballot \<Rightarrow> Instance \<Rightarrow> Acceptor \<Rightarrow> 's \<Rightarrow> Message \<times> Acceptor \<times> 's" where
  "HandlePrepare S ballot inst a st =
     (let promisedBallot = go_get 0 (promised a) inst in
      if ballot < promisedBallot
      then (Reject ballot inst (acc_nodeID a) promisedBallot, a, st)
      else
        let prevPromised = promised a inst;
            a1 = a\<lparr>promised := (promised a)(inst \<mapsto> ballot)\<rparr>
        in case persist S a1 st of
             (Some e, st') \<Rightarrow>
               (Reject ballot inst (acc_nodeID a) ballot,
                a1\<lparr>promised := go_restore inst prevPromised (promised a1)\<rparr>, st')
           | (None, st') \<Rightarrow>
               (Promise ballot inst (acc_nodeID a)
                  (go_get 0 (acceptedBallot a1) inst) (go_get None (acceptedValue a1) inst),
                a1, st'))"

definition HandleAccept ::
  "'s Storage option \<Rightarrow> Ballot \<Rightarrow> Instance \<Rightarrow> Value \<Rightarrow> Acceptor \<Rightarrow> 's \<Rightarrow> Message \<times> Acceptor \<times> 's" where
  "HandleAccept S ballot inst value a st =
     (let promisedBallot = go_get 0 (promised a) inst in
      if ballot < promisedBallot
      then (Nack ballot inst (acc_nodeID a) promisedBallot, a, st)
      else
        let prevPromised = promised a inst;
            prevAcceptedBallot = acceptedBallot a inst;
            prevAcceptedValue = acceptedValue a inst;
            a1 = a\<lparr>promised := (promised a)(inst \<mapsto> ballot),
                   acceptedBallot := (acceptedBallot a)(inst \<mapsto> ballot),
                   acceptedValue := (acceptedValue a)(inst \<mapsto> value)\<rparr>
        in case persist S a1 st of
             (Some e, st') \<Rightarrow>
               (Nack ballot inst (acc_nodeID a) ballot,
                a1\<lparr>promised := go_restore inst prevPromised (promised a1),
                   acceptedBallot := go_restore inst prevAcceptedBallot (acceptedBallot a1),
                   acceptedValue := go_restore inst prevAcceptedValue (acceptedValue a1)\<rparr>, st')
           | (None, st') \<Rightarrow> (Accepted ballot inst (acc_nodeID a), a1, st'))"

definition GetAccepted :: "Acceptor \<Rightarrow> Instance \<Rightarrow> Ballot \<times> Value \<times> bool" where
  "GetAccepted a inst =
     (go_get 0 (acceptedBallot a) inst, go_get None (acceptedValue a) inst,
      acceptedBallot a inst \<noteq> None)"

definition GetPromised :: "Acceptor \<Rightarrow> Instance \<Rightarrow> Ballot" where
  "GetPromised a inst = go_get 0 (promised a) inst"

definition ForgetInstance :: "Instance \<Rightarrow> Acceptor \<Rightarrow> Acceptor" where
  "ForgetInstance inst a =
     a\<lparr>promised := go_delete inst (promised a),
       acceptedBallot := go_delete inst (acceptedBallot a),
       acceptedValue := go_delete inst (acceptedValue a)\<rparr>"

section \<open>One request\<close>

text \<open>
  The three ways a request can end: refused because of a higher promise, refused because the
  save failed, or granted.  In the first two the acceptor is as it was: the roll-back of
  every map restores exactly what the request overwrote.
\<close>

lemma HandlePrepare_cases:
  assumes "HandlePrepare S b i a st = (r, a', st')"
  obtains
    (low) "b < GetPromised a i" "r = Reject b i (acc_nodeID a) (GetPromised a i)" "a' = a" "st' = st"
  | (unsaved) e where "GetPromised a i \<le> b" "r = Reject b i (acc_nodeID a) b" "a' = a"
      "persist S (a\<lparr>promised := (promised a)(i \<mapsto> b)\<rparr>) st = (Some e, st')"
  | (granted) "GetPromised a i \<le> b" "a' = a\<lparr>promised := (promised a)(i \<mapsto> b)\<rparr>"
      "r = Promise b i (acc_nodeID a) (fst (GetAccepted a i)) (fst (snd (GetAccepted a i)))"
      "persist S a' st = (None, st')"
proof (cases "b < GetPromised a i")
  case True
  with assms show ?thesis by (intro low) (auto simp: HandlePrepare_def GetPromised_def)
next
  case False
  let ?a1 = "a\<lparr>promised := (promised a)(i \<mapsto> b)\<rparr>"
  obtain err s1 where p: "persist S ?a1 st = (err, s1)" by fastforce
  show ?thesis
  proof (cases err)
    case None
    with False assms p show ?thesis
      by (intro granted) (simp_all add: HandlePrepare_def GetPromised_def GetAccepted_def Let_def)
  next
    case (Some e)
    with False assms p show ?thesis
      by (intro unsaved [of e]) (auto simp: HandlePrepare_def GetPromised_def Let_def)
  qed
qed

lemma HandleAccept_cases:
  assumes "HandleAccept S b i v a st = (r, a', st')"
  obtains
    (low) "b < GetPromised a i" "r = Nack b i (acc_nodeID a) (GetPromised a i)" "a' = a" "st' = st"
  | (unsaved) e where "GetPromised a i \<le> b" "r = Nack b i (acc_nodeID a) b" "a' = a"
      "persist S (a\<lparr>promised := (promised a)(i \<mapsto> b), acceptedBallot := (acceptedBallot a)(i \<mapsto> b),
         acceptedValue := (acceptedValue a)(i \<mapsto> v)\<rparr>) st = (Some e, st')"
  | (granted) "GetPromised a i \<le> b" "r = Accepted b i (acc_nodeID a)"
      "a' = a\<lparr>promised := (promised a)(i \<mapsto> b), acceptedBallot := (acceptedBallot a)(i \<mapsto> b),
         acceptedValue := (acceptedValue a)(i \<mapsto> v)\<rparr>"
      "persist S a' st = (None, st')"
proof (cases "b < GetPromised a i")
  case True
  with assms show ?thesis by (intro low) (auto simp: HandleAccept_def GetPromised_def)
next
  case False
  let ?a1 = "a\<lparr>promised := (promised a)(i \<mapsto> b), acceptedBallot := (acceptedBallot a)(i \<mapsto> b),
         acceptedValue := (acceptedValue a)(i \<mapsto> v)\<rparr>"
  obtain err s1 where p: "persist S ?a1 st = (err, s1)" by fastforce
  show ?thesis
  proof (cases err)
    case None
    with False assms p show ?thesis
      by (intro granted) (simp_all add: HandleAccept_def GetPromised_def Let_def)
  next
    case (Some e)
    with False assms p show ?thesis
      by (intro unsaved [of e]) (auto simp: HandleAccept_def GetPromised_def Let_def)
  qed
qed

lemma HandlePrepare_grant:
  assumes "GetPromised a i \<le> b" "persist S (a\<lparr>promised := (promised a)(i \<mapsto> b)\<rparr>) st = (None, st')"
  shows "HandlePrepare S b i a st =
    (Promise b i (acc_nodeID a) (fst (GetAccepted a i)) (fst (snd (GetAccepted a i))),
     a\<lparr>promised := (promised a)(i \<mapsto> b)\<rparr>, st')"
  using assms by (simp add: HandlePrepare_def GetPromised_def GetAccepted_def Let_def not_less)

lemma HandleAccept_grant:
  assumes "GetPromised a i \<le> b"
    "persist S (a\<lparr>promised := (promised a)(i \<mapsto> b), acceptedBallot := (acceptedBallot a)(i \<mapsto> b),
       acceptedValue := (acceptedValue a)(i \<mapsto> v)\<rparr>) st = (None, st')"
  shows "HandleAccept S b i v a st =
    (Accepted b i (acc_nodeID a),
     a\<lparr>promised := (promised a)(i \<mapsto> b), acceptedBallot := (acceptedBallot a)(i \<mapsto> b),
       acceptedValue := (acceptedValue a)(i \<mapsto> v)\<rparr>, st')"
  using assms by (simp add: HandleAccept_def GetPromised_def Let_def not_less)

lemma HandlePrepare_nodeID: "HandlePrepare S b i a st = (r, a', st') \<Longrightarrow> acc_nodeID a' = acc_nodeID a"
  by (erule HandlePrepare_cases) auto

lemma HandleAccept_nodeID: "HandleAccept S b i v a st = (r, a', st') \<Longrightarrow> acc_nodeID a' = acc_nodeID a"
  by (erule HandleAccept_cases) auto

lemma GetPromised_simps [simp]:
  "GetPromised (a\<lparr>promised := (promised a)(i \<mapsto> b)\<rparr>) j = (if j = i then b else GetPromised a j)"
  "GetPromised (a\<lparr>acceptedBallot := x\<rparr>) j = GetPromised a j"
  "GetPromised (a\<lparr>acceptedValue := y\<rparr>) j = GetPromised a j"
  by (simp_all add: GetPromised_def)

lemma GetPromised_Forget [simp]:
  "GetPromised (ForgetInstance j a) i = (if i = j then 0 else GetPromised a i)"
  by (simp add: GetPromised_def ForgetInstance_def go_delete_apply go_get_def)

text \<open>
  Between requests the maps fit together: an instance with an accepted ballot has an
  accepted value and a promise at least as high.
\<close>

definition acc_inv :: "Acceptor \<Rightarrow> bool" where
  "acc_inv a \<longleftrightarrow> dom (acceptedValue a) = dom (acceptedBallot a)
     \<and> (\<forall>i b. acceptedBallot a i = Some b \<longrightarrow> b \<le> GetPromised a i)"

lemma HandlePrepare_inv: "HandlePrepare S b i a st = (r, a', st') \<Longrightarrow> acc_inv a \<Longrightarrow> acc_inv a'"
  by (erule HandlePrepare_cases) (auto simp: acc_inv_def intro: order.trans)

lemma HandleAccept_inv: "HandleAccept S b i v a st = (r, a', st') \<Longrightarrow> acc_inv a \<Longrightarrow> acc_inv a'"
  by (erule HandleAccept_cases) (auto simp: acc_inv_def)

lemma ForgetInstance_inv: "acc_inv a \<Longrightarrow> acc_inv (ForgetInstance i a)"
  by (auto simp: acc_inv_def ForgetInstance_def GetPromised_def go_delete_apply go_get_def
      split: if_splits)

section \<open>Sequences of requests\<close>

datatype acc_op =
    ReqPrepare Ballot Instance | ReqAccept Ballot Instance Value | ReqForget Instance

fun acc_exec :: "'s Storage option \<Rightarrow> acc_op \<Rightarrow> Acceptor \<Rightarrow> 's \<Rightarrow> Message option \<times> Acceptor \<times> 's" where
  "acc_exec S (ReqPrepare b i) a st = (case HandlePrepare S b i a st of (r, x) \<Rightarrow> (Some r, x))"
| "acc_exec S (ReqAccept b i v) a st = (case HandleAccept S b i v a st of (r, x) \<Rightarrow> (Some r, x))"
| "acc_exec S (ReqForget i) a st = (None, ForgetInstance i a, st)"

fun acc_run :: "'s Storage option \<Rightarrow> acc_op list \<Rightarrow> Acceptor \<Rightarrow> 's
    \<Rightarrow> (acc_op \<times> Message option) list \<times> Acceptor \<times> 's" where
  "acc_run S [] a st = ([], a, st)"
| "acc_run S (x # xs) a st =
     (case acc_exec S x a st of (r, a1, st1) \<Rightarrow>
        case acc_run S xs a1 st1 of (tr, y) \<Rightarrow> ((x, r) # tr, y))"

text \<open>The proposals of an instance that were answered with \<open>Accepted\<close>, oldest first.\<close>

fun accepted_votes :: "Instance \<Rightarrow> (acc_op \<times> Message option) list \<Rightarrow> (Ballot \<times> Value) list" where
  "accepted_votes i [] = []"
| "accepted_votes i ((ReqAccept b j v, Some (Accepted b' j' n)) # tr) =
     (if j = i then (b, v) # accepted_votes i tr else accepted_votes i tr)"
| "accepted_votes i (_ # tr) = accepted_votes i tr"

lemma acc_exec_inv: "acc_exec S x a st = (r, a', st') \<Longrightarrow> acc_inv a \<Longrightarrow> acc_inv a'"
  by (cases x) (auto split: prod.splits intro: HandlePrepare_inv HandleAccept_inv ForgetInstance_inv)

lemma acc_run_inv: "acc_run S xs a st = (tr, a', st') \<Longrightarrow> acc_inv a \<Longrightarrow> acc_inv a'"
  by (induction xs arbitrary: a st tr) (auto split: prod.splits dest: acc_exec_inv)

lemma acc_exec_nodeID: "acc_exec S x a st = (r, a', st') \<Longrightarrow> acc_nodeID a' = acc_nodeID a"
  by (cases x) (auto split: prod.splits simp: ForgetInstance_def
      dest: HandlePrepare_nodeID HandleAccept_nodeID)

lemma acc_run_nodeID: "acc_run S xs a st = (tr, a', st') \<Longrightarrow> acc_nodeID a' = acc_nodeID a"
  by (induction xs arbitrary: a st tr) (auto split: prod.splits dest: acc_exec_nodeID)

lemma acc_exec_mono:
  "acc_exec S x a st = (r, a', st') \<Longrightarrow> x \<noteq> ReqForget i \<Longrightarrow> GetPromised a i \<le> GetPromised a' i"
  by (cases x)
     (auto split: prod.splits elim!: HandlePrepare_cases HandleAccept_cases)

lemma acc_run_mono:
  "acc_run S xs a st = (tr, a', st') \<Longrightarrow> ReqForget i \<notin> set xs \<Longrightarrow> GetPromised a i \<le> GetPromised a' i"
proof (induction xs arbitrary: a st tr)
  case (Cons x xs)
  then obtain r a1 st1 tr1 where "acc_exec S x a st = (r, a1, st1)" "acc_run S xs a1 st1 = (tr1, a', st')"
    by (auto split: prod.splits)
  with Cons show ?case by (auto dest!: acc_exec_mono [where i = i] intro: order.trans)
qed simp

text \<open>
  The accepted ballot and value of an instance are the last of its accepted proposals, and
  no accepted proposal has a higher ballot, as long as the instance is not forgotten.
\<close>

definition reports :: "Acceptor \<Rightarrow> Instance \<Rightarrow> (Ballot \<times> Value) list \<Rightarrow> bool" where
  "reports a i vs \<longleftrightarrow>
     (if vs = [] then acceptedBallot a i = None \<and> acceptedValue a i = None
      else acceptedBallot a i = Some (fst (last vs)) \<and> acceptedValue a i = Some (snd (last vs)))
     \<and> (\<forall>(b, v) \<in> set vs. b \<le> GetPromised a i \<and> b \<le> fst (last vs))"

lemma reports_prepare:
  "HandlePrepare S b j a st = (r, a', st') \<Longrightarrow> reports a i vs \<Longrightarrow> reports a' i vs"
  by (erule HandlePrepare_cases) (auto simp: reports_def split: if_splits)

lemma reports_accept:
  assumes "HandleAccept S b j v a st = (r, a', st')" "reports a i vs"
  shows "reports a' i (vs @ accepted_votes i [(ReqAccept b j v, Some r)])"
  using assms(1)
proof (cases rule: HandleAccept_cases)
  case granted
  then show ?thesis using assms(2) by (auto simp: reports_def split: if_splits)
qed (use assms(2) in auto)

lemma reports_forget: "j \<noteq> i \<Longrightarrow> reports a i vs \<Longrightarrow> reports (ForgetInstance j a) i vs"
  by (auto simp: reports_def ForgetInstance_def GetPromised_def go_delete_apply go_get_def)

lemma accepted_votes_append:
  "accepted_votes i (tr @ tr') = accepted_votes i tr @ accepted_votes i tr'"
  by (induction i tr rule: accepted_votes.induct) auto

lemma reports_run:
  assumes "acc_run S xs a st = (tr, a', st')" "ReqForget i \<notin> set xs" "reports a i vs"
  shows "reports a' i (vs @ accepted_votes i tr)"
  using assms
proof (induction xs arbitrary: a st tr vs)
  case (Cons x xs)
  from Cons.prems(1) obtain r a1 st1 tr1 where x: "acc_exec S x a st = (r, a1, st1)"
    and xs: "acc_run S xs a1 st1 = (tr1, a', st')" and tr: "tr = (x, r) # tr1"
    by (auto split: prod.splits)
  have "reports a1 i (vs @ accepted_votes i [(x, r)])"
    using x Cons.prems(2,3)
    by (cases x) (auto split: prod.splits dest: reports_prepare reports_accept
        intro: reports_forget)
  from Cons.IH [OF xs _ this] Cons.prems(2) show ?case
    using accepted_votes_append [of i "[(x, r)]" tr1] by (simp add: tr)
qed simp

section \<open>Durability\<close>

text \<open>
  Relying on the storage contract alone: after any request the saved state agrees with the
  acceptor's state (values copied) on every instance it agreed on before, whether the save
  succeeded or the request was rolled back, so a restart that can read the storage finds it.
  An instance is forgotten in memory only, so the agreement is stated for one instance.
\<close>

lemma NewAcceptor_Some:
  "NewAcceptor n (Some ops) st =
     (case LoadAcceptorState ops st of (state, err) \<Rightarrow>
        if err \<noteq> None \<and> err \<noteq> Some ErrNotFound then Inl (the err)
        else Inr \<lparr>acc_nodeID = n, promised = deref_map (PromisedBallot state),
                  acceptedBallot = deref_map (AcceptedBallot state),
                  acceptedValue = deref_map (AcceptedValue state)\<rparr>)"
  by (auto simp: NewAcceptor_def Let_def split: prod.splits option.splits)

definition lockstep_at :: "Instance \<Rightarrow> Acceptor \<Rightarrow> AcceptorState \<Rightarrow> bool" where
  "lockstep_at i a sv \<longleftrightarrow> deref_map (PromisedBallot sv) i = promised a i
     \<and> deref_map (AcceptedBallot sv) i = acceptedBallot a i
     \<and> deref_map (AcceptedValue sv) i = map_option slice_copy (acceptedValue a i)"

lemma lockstep_at_snapshot: "lockstep_at i a (deep_copy (acceptor_snapshot a))"
  by (simp add: lockstep_at_def deep_copy_def acceptor_snapshot_def copy_values_def)

lemma lockstep_at_forget: "i \<noteq> j \<Longrightarrow> lockstep_at i (ForgetInstance j a) sv = lockstep_at i a sv"
  by (simp add: lockstep_at_def ForgetInstance_def)

context storage_contract
begin

lemma prepare_lockstep_at:
  assumes "HandlePrepare (Some S) b i a st = (r, a', st')" "inv st"
  shows "inv st' \<and> logged st' = logged st \<and> (lockstep_at j a (saved st) \<longrightarrow> lockstep_at j a' (saved st'))"
  using assms(1)
proof (cases rule: HandlePrepare_cases)
  case granted
  then show ?thesis
    using assms(2) save_ok [of st "acceptor_snapshot a'" st'] lockstep_at_snapshot [of j a']
    by (simp add: persist_def)
qed (use assms save_err in \<open>auto simp: persist_def\<close>)

lemma accept_lockstep_at:
  assumes "HandleAccept (Some S) b i v a st = (r, a', st')" "inv st"
  shows "inv st' \<and> logged st' = logged st \<and> (lockstep_at j a (saved st) \<longrightarrow> lockstep_at j a' (saved st'))"
  using assms(1)
proof (cases rule: HandleAccept_cases)
  case granted
  then show ?thesis
    using assms(2) save_ok [of st "acceptor_snapshot a'" st'] lockstep_at_snapshot [of j a']
    by (simp add: persist_def)
qed (use assms save_err in \<open>auto simp: persist_def\<close>)

lemma recover_at:
  assumes "inv st" "lockstep_at i a (saved st)" "acc_inv a" "NewAcceptor n (Some S) st = Inr a'"
  shows "promised a' i = promised a i \<and> acceptedBallot a' i = acceptedBallot a i
    \<and> acceptedValue a' i = map_option slice_copy (acceptedValue a i)"
proof -
  obtain state err where l: "LoadAcceptorState S st = (state, err)" by fastforce
  with assms(4) consider "err = None" | "err = Some ErrNotFound"
    by (auto simp: NewAcceptor_Some split: if_splits)
  then show ?thesis
  proof cases
    case 1
    with l load_ok [OF assms(1)] assms(2,4) show ?thesis
      by (auto simp: NewAcceptor_Some lockstep_at_def)
  next
    case 2
    with l load_none [OF assms(1)] assms(2)
    have "state = zero_AcceptorState" "promised a i = None" "acceptedBallot a i = None"
      by (auto simp: lockstep_at_def map_empty_iff)
    moreover from this assms(3) have "acceptedValue a i = None" by (auto simp: acc_inv_def)
    ultimately show ?thesis using l 2 assms(4)
      by (auto simp: NewAcceptor_Some zero_AcceptorState_def)
  qed
qed

lemma run_lockstep_at:
  assumes "acc_run (Some S) xs a st = (tr, a', st')" "inv st"
  shows "inv st' \<and> (ReqForget i \<notin> set xs \<longrightarrow> lockstep_at i a (saved st) \<longrightarrow> lockstep_at i a' (saved st'))"
  using assms
proof (induction xs arbitrary: a st tr)
  case (Cons x xs)
  from Cons.prems(1) obtain r a1 st1 tr1 where x: "acc_exec (Some S) x a st = (r, a1, st1)"
    and xs: "acc_run (Some S) xs a1 st1 = (tr1, a', st')"
    by (auto split: prod.splits)
  have "inv st1 \<and> (x \<noteq> ReqForget i \<longrightarrow> lockstep_at i a (saved st) \<longrightarrow> lockstep_at i a1 (saved st1))"
    using x Cons.prems(2)
    by (cases x) (auto split: prod.splits simp: lockstep_at_forget dest: prepare_lockstep_at accept_lockstep_at)
  with Cons.IH [OF xs] show ?case by auto
qed simp

end

text \<open>
  The storage of \<^verbatim>\<open>acceptor_test.go\<close> whose saves can be made to fail also meets the
  contract, so everything above covers failing saves.
\<close>

definition failing_SaveAcceptorState ::
  "bool \<times> MemoryStorage \<Rightarrow> AcceptorState \<Rightarrow> error option \<times> bool \<times> MemoryStorage" where
  "failing_SaveAcceptorState s st =
     (if fst s then (Some (ErrOther ''simulated persist failure''), s)
      else case mem_SaveAcceptorState (snd s) st of (e, m) \<Rightarrow> (e, fst s, m))"

definition failing_storage :: "(bool \<times> MemoryStorage) Storage" where
  "failing_storage =
     \<lparr>SaveAcceptorState = failing_SaveAcceptorState,
      LoadAcceptorState = (\<lambda>s. mem_LoadAcceptorState (snd s)),
      AppendLog = (\<lambda>s e. case mem_AppendLog (snd s) e of (er, m) \<Rightarrow> (er, fst s, m)),
      GetLog = (\<lambda>s. mem_GetLog (snd s)), GetLogRange = (\<lambda>s. mem_GetLogRange (snd s)),
      GetLastInstance = (\<lambda>s. mem_GetLastInstance (snd s)),
      SaveSnapshot = (\<lambda>s x. case mem_SaveSnapshot (snd s) x of (er, m) \<Rightarrow> (er, fst s, m)),
      LoadSnapshot = (\<lambda>s. mem_LoadSnapshot (snd s)),
      CloseStorage = (\<lambda>s. case mem_Close (snd s) of (er, m) \<Rightarrow> (er, fst s, m))\<rparr>"

interpretation failing: storage_contract failing_storage
  "\<lambda>s. acceptorState (snd s)" "\<lambda>s. log (snd s)" "\<lambda>s. mem_inv (snd s)"
  by unfold_locales
     (auto simp: failing_storage_def failing_SaveAcceptorState_def split: prod.splits if_splits
       dest: mem.save_ok [simplified] mem.save_err [simplified] mem.append_ok [simplified]
         mem.append_err [simplified] mem.load_ok [simplified] mem.load_none [simplified]
         mem.last_ok [simplified] mem.last_none [simplified] mem.range_ok [simplified]
         mem.logged_key)

text \<open>No request closes the storage.\<close>

lemma acc_run_open:
  "acc_run (Some memory_storage) xs a st = (tr, a', st') \<Longrightarrow> \<not> closed st \<Longrightarrow> \<not> closed st'"
proof (induction xs arbitrary: a st tr)
  case (Cons x xs)
  then obtain r a1 st1 tr1 where x: "acc_exec (Some memory_storage) x a st = (r, a1, st1)"
    and xs: "acc_run (Some memory_storage) xs a1 st1 = (tr1, a', st')"
    by (auto split: prod.splits)
  have "\<not> closed st1"
    using x Cons.prems(2)
    by (cases x) (auto split: prod.splits simp: persist_def mem_SaveAcceptorState_def
        elim!: HandlePrepare_cases HandleAccept_cases)
  then show ?case by (rule Cons.IH [OF xs])
qed simp

section \<open>Properties\<close>

text \<open>C21. A refused request, whether refused for a higher promise or because the state could
  not be saved, leaves the acceptor exactly as it was, on both message kinds.\<close>

theorem acceptor_refusal_no_trace:
  assumes "acc_exec S x a st = (Some r, a', st')" and "\<not> is_Promise r" and "\<not> is_Accepted r"
  shows "a' = a"
  using assms
  by (cases x) (auto split: prod.splits elim: HandlePrepare_cases HandleAccept_cases)

theorem acceptor_refusal_no_trace_witness:
  "let a = \<lparr>acc_nodeID = 1, promised = [1 \<mapsto> 65537], acceptedBallot = Map.empty,
            acceptedValue = Map.empty\<rparr>;
       (r, a', st') = acc_exec (Some failing_storage) (ReqAccept 131073 1 (Some [7])) a
                        (True, NewMemoryStorage)
   in r = Some (Nack 131073 1 1 131073) \<and> a' = a"
proof -
  define a :: Acceptor where "a = \<lparr>acc_nodeID = 1, promised = [1 \<mapsto> 65537],
    acceptedBallot = Map.empty, acceptedValue = Map.empty\<rparr>"
  obtain r a' st' where e: "acc_exec (Some failing_storage) (ReqAccept 131073 1 (Some [7])) a
      (True, NewMemoryStorage) = (Some r, a', st')" and r: "r = Nack 131073 1 1 131073"
    by (simp add: a_def HandleAccept_def persist_def failing_storage_def failing_SaveAcceptorState_def)
  from acceptor_refusal_no_trace [OF e] r have "a' = a" by simp
  with e r show ?thesis by (simp add: a_def Let_def)
qed

text \<open>C19. A promise is kept: after answering \<open>Promise\<close> for a ballot, and after any further
  requests that do not make the acceptor forget the instance, a proposal with a lower ballot is
  refused with a \<open>Nack\<close> that names a ballot at least as high as the promised one.\<close>

theorem acceptor_promise_kept:
  assumes "HandlePrepare S b i a st = (Promise b i n ab av, a1, st1)"
    and "acc_run S ops a1 st1 = (tr, a2, st2)" and "ReqForget i \<notin> set ops" and "b' < b"
  shows "\<exists>h \<ge> b. HandleAccept S b' i v a2 st2 = (Nack b' i n h, a2, st2)"
proof -
  have a1: "GetPromised a1 i = b" "acc_nodeID a1 = n"
    using assms(1) by (auto elim: HandlePrepare_cases)
  then have "b \<le> GetPromised a2 i" "acc_nodeID a2 = n"
    using acc_run_mono [OF assms(2,3)] acc_run_nodeID [OF assms(2)] by simp_all
  with assms(4) show ?thesis
    by (auto simp: HandleAccept_def GetPromised_def Let_def)
qed

theorem acceptor_promise_kept_witness:
  "let a = \<lparr>acc_nodeID = 1, promised = Map.empty, acceptedBallot = Map.empty,
            acceptedValue = Map.empty\<rparr>;
       (p, a1, st1) = HandlePrepare (Some memory_storage) 131074 1 a NewMemoryStorage;
       (tr, a2, st2) = acc_run (Some memory_storage) [ReqPrepare 65537 1, ReqForget 2] a1 st1
   in \<exists>h \<ge> 131074. HandleAccept (Some memory_storage) 65537 1 (Some [9]) a2 st2
        = (Nack 65537 1 1 h, a2, st2)"
proof -
  define a :: Acceptor where "a = \<lparr>acc_nodeID = 1, promised = Map.empty,
    acceptedBallot = Map.empty, acceptedValue = Map.empty\<rparr>"
  obtain a1 st1 where p: "HandlePrepare (Some memory_storage) 131074 1 a NewMemoryStorage
      = (Promise 131074 1 1 0 None, a1, st1)"
    by (simp add: a_def HandlePrepare_def persist_def mem_SaveAcceptorState_def
        NewMemoryStorage_def Let_def)
  obtain tr a2 st2 where run:
    "acc_run (Some memory_storage) [ReqPrepare 65537 1, ReqForget 2] a1 st1 = (tr, a2, st2)"
    by (metis prod_cases3)
  from acceptor_promise_kept [OF p run, of 65537 "Some [9]"] p run show ?thesis
    by (simp add: a_def [symmetric] Let_def)
qed

text \<open>C20. A promise reports the truth: starting from an acceptor with no state, after any
  requests that do not forget the instance, a granted prepare reports ballot 0 and no value if
  no proposal of the instance was accepted, and otherwise the ballot and value of the last
  accepted one, which has the highest ballot of all that were accepted.\<close>

theorem acceptor_promise_reports_last:
  assumes "NewAcceptor n (None :: 's Storage option) st0 = Inr a0"
    and "acc_run S ops a0 st = (tr, a, st1)" and "ReqForget i \<notin> set ops"
    and "HandlePrepare S b i a st1 = (Promise b i n ab av, a2, st2)"
  shows "(ab, av) = (if accepted_votes i tr = [] then (0, None) else last (accepted_votes i tr))
    \<and> (\<forall>(c, v) \<in> set (accepted_votes i tr). c \<le> ab)"
proof -
  have "reports a0 i []"
    using assms(1) by (auto simp: NewAcceptor_def reports_def)
  from reports_run [OF assms(2,3) this] have r: "reports a i (accepted_votes i tr)" by simp
  have "ab = go_get 0 (acceptedBallot a) i" "av = go_get None (acceptedValue a) i"
    using assms(4) by (auto simp: GetAccepted_def elim: HandlePrepare_cases)
  with r show ?thesis by (auto simp: reports_def split: if_splits)
qed

theorem acceptor_promise_reports_last_witness:
  "let a0 = \<lparr>acc_nodeID = 1, promised = Map.empty, acceptedBallot = Map.empty,
            acceptedValue = Map.empty\<rparr>;
       (tr, a, st1) = acc_run (None :: unit Storage option)
          [ReqAccept 65537 1 (Some [7]), ReqAccept 65537 2 (Some [8])] a0 ();
       (p, a2, st2) = HandlePrepare None 131074 1 a st1
   in p = Promise 131074 1 1 65537 (Some [7]) \<and> accepted_votes 1 tr = [(65537, Some [7])]
      \<and> (\<forall>(c, v) \<in> set (accepted_votes 1 tr). c \<le> 65537)"
proof -
  define a0 :: Acceptor where "a0 = \<lparr>acc_nodeID = 1, promised = Map.empty,
    acceptedBallot = Map.empty, acceptedValue = Map.empty\<rparr>"
  have n: "NewAcceptor 1 (None :: unit Storage option) () = Inr a0"
    by (simp add: NewAcceptor_def a0_def)
  obtain tr a st1 where run: "acc_run (None :: unit Storage option)
      [ReqAccept 65537 1 (Some [7]), ReqAccept 65537 2 (Some [8])] a0 () = (tr, a, st1)"
    by (metis prod_cases3)
  obtain a2 st2 where p: "HandlePrepare None 131074 1 a st1
      = (Promise 131074 1 1 65537 (Some [7]), a2, st2)"
    using run by (auto simp: a0_def HandleAccept_def HandlePrepare_def persist_def)
  have "accepted_votes 1 tr = [(65537, Some [7])]"
    using run by (auto simp: a0_def HandleAccept_def persist_def)
  with acceptor_promise_reports_last [OF n run _ p] run p show ?thesis
    by (simp add: a0_def [symmetric] Let_def)
qed

text \<open>C22. Crash safety: take a fresh acceptor on a fresh storage, answer any sequence of
  requests, and let the process die.  Creating the acceptor again from that storage succeeds,
  and for every instance that was not forgotten on the way it gives the same promise, accepted
  ballot and accepted value (a nil value becomes an empty slice).  Nothing is said of a
  forgotten instance, whose answered promises and votes the next save drops.\<close>

theorem acceptor_crash_recovery:
  assumes "NewAcceptor n (Some memory_storage) NewMemoryStorage = Inr a0"
    and "acc_run (Some memory_storage) ops a0 NewMemoryStorage = (tr, a, st)"
  shows "\<exists>a'. NewAcceptor n (Some memory_storage) st = Inr a' \<and> acc_nodeID a' = n
    \<and> (\<forall>i. ReqForget i \<notin> set ops \<longrightarrow> promised a' i = promised a i \<and> acceptedBallot a' i = acceptedBallot a i
         \<and> acceptedValue a' i = map_option slice_copy (acceptedValue a i))"
proof -
  have a0: "acc_inv a0" "lockstep_at i a0 (acceptorState NewMemoryStorage)" for i
    using assms(1)
    by (auto simp: NewAcceptor_Some mem_LoadAcceptorState_def NewMemoryStorage_def
        zero_AcceptorState_def acc_inv_def lockstep_at_def)
  have "\<not> closed st"
    by (rule acc_run_open [OF assms(2)]) (simp add: NewMemoryStorage_def)
  then have "\<exists>a'. NewAcceptor n (Some memory_storage) st = Inr a' \<and> acc_nodeID a' = n"
    by (simp add: NewAcceptor_Some mem_LoadAcceptorState_def)
  then obtain a' where a': "NewAcceptor n (Some memory_storage) st = Inr a'" "acc_nodeID a' = n" by blast
  have "mem_inv st" "ReqForget i \<notin> set ops \<Longrightarrow> lockstep_at i a (acceptorState st)" for i
    using mem.run_lockstep_at [OF assms(2) mem_inv_new, of i] a0(2) by simp_all
  with a' mem.recover_at [OF _ _ acc_run_inv [OF assms(2) a0(1)] a'(1)] show ?thesis by blast
qed

theorem acceptor_crash_recovery_witness:
  "\<exists>a0 tr a st a'. NewAcceptor 1 (Some memory_storage) NewMemoryStorage = Inr a0
     \<and> acc_run (Some memory_storage) [ReqPrepare 65537 1, ReqAccept 65537 1 (Some [7]), ReqForget 2] a0 NewMemoryStorage = (tr, a, st)
     \<and> NewAcceptor 1 (Some memory_storage) st = Inr a' \<and> acceptedBallot a' 1 = Some 65537 \<and> acceptedValue a' 1 = Some (Some [7])"
proof -
  define a0 :: Acceptor where "a0 = \<lparr>acc_nodeID = 1, promised = Map.empty,
    acceptedBallot = Map.empty, acceptedValue = Map.empty\<rparr>"
  have n: "NewAcceptor 1 (Some memory_storage) NewMemoryStorage = Inr a0"
    by (simp add: NewAcceptor_Some a0_def mem_LoadAcceptorState_def NewMemoryStorage_def
        zero_AcceptorState_def)
  obtain tr a st where run: "acc_run (Some memory_storage)
      [ReqPrepare 65537 1, ReqAccept 65537 1 (Some [7]), ReqForget 2] a0 NewMemoryStorage = (tr, a, st)"
    by (metis prod_cases3)
  have "acceptedBallot a 1 = Some 65537" "acceptedValue a 1 = Some (Some [7])"
    using run by (auto simp: a0_def HandleAccept_def HandlePrepare_def persist_def ForgetInstance_def
        mem_SaveAcceptorState_def NewMemoryStorage_def Let_def)
  with acceptor_crash_recovery [OF n run] n run show ?thesis by (fastforce simp: slice_copy_def)
qed

end
