(* ===== verification/Proposer_Role.thy ===== *)
theory Proposer_Role
  imports Acceptor_Role
begin

text \<open>
  \<^verbatim>\<open>paxos/proposer.go\<close>: allocating instances and ballots, the two phases of a proposal
  with the proposer's own vote counted first, the choice of the value to propose, the routing
  of responses to pending proposals, and leader election.

  A blocking receive loop is a recursion over the messages that arrive on the proposal's
  channel before the phase's deadline; the end of that list is the deadline
  (\<^verbatim>\<open>ctx.Done()\<close>).  Each iteration is one application of \<open>phase1_recv\<close> or
  \<open>phase2_recv\<close>, which the cluster model also uses, one message at a time.  What the
  transport's \<open>Broadcast\<close> returns is a parameter; what is sent, and the call of the
  \<open>onCommit\<close> hook, are recorded as effects in program order.
\<close>

section \<open>State\<close>

record proposalState =
  ps_instance :: Instance
  ps_ballot :: Ballot
  ps_value :: Value
  responses :: "Message list"

record Proposer =
  prop_nodeID :: NodeID
  quorumSize :: nat
  peerCount :: nat
  prepareTimeout :: Duration
  acceptTimeout :: Duration
  currentRound :: "32 word"
  isLeader :: bool
  leaderBallot :: Ballot
  nextInstance :: Instance
  pending :: "Instance \<rightharpoonup> proposalState"

definition NewProposer :: "NodeID \<Rightarrow> nat \<Rightarrow> nat \<Rightarrow> Proposer" where
  "NewProposer nodeID quorum peers =
     \<lparr>prop_nodeID = nodeID, quorumSize = quorum, peerCount = peers,
      prepareTimeout = 1 * Second, acceptTimeout = 1 * Second, currentRound = 0,
      isLeader = False, leaderBallot = 0, nextInstance = 1, pending = Map.empty\<rparr>"

definition SetTimeouts :: "Duration \<Rightarrow> Duration \<Rightarrow> Proposer \<Rightarrow> Proposer" where
  "SetTimeouts prepare accept p = p\<lparr>prepareTimeout := prepare, acceptTimeout := accept\<rparr>"

definition responseBufferSize :: "Proposer \<Rightarrow> nat" where
  "responseBufferSize p = (let n = 2 * peerCount p + 1 in if n < 4 then 4 else n)"

section \<open>Choosing a value\<close>

definition findHighestAccepted :: "Message list \<Rightarrow> Value" where
  "findHighestAccepted promises =
     snd (foldl (\<lambda>(highestBallot, highestValue) promise.
            if m_AcceptedBallot promise > highestBallot
            then (m_AcceptedBallot promise, m_AcceptedValue promise)
            else (highestBallot, highestValue)) (0, None) promises)"

section \<open>The two phases\<close>

text \<open>A phase either returns or goes on waiting with the votes counted so far.\<close>

datatype 'r progress = Return "'r result" | Waiting "Message list"

text \<open>The proposer's own vote in phase 1, and one received message.\<close>

definition phase1_local ::
  "'s Storage option \<Rightarrow> nat \<Rightarrow> Ballot \<Rightarrow> Instance \<Rightarrow> Acceptor \<Rightarrow> 's \<Rightarrow> Value progress \<times> Acceptor \<times> 's" where
  "phase1_local S quorum ballot inst a st =
     (case HandlePrepare S ballot inst a st of (m, a', st') \<Rightarrow>
        ((case m of
            Promise _ _ _ _ _ \<Rightarrow>
              let promises = [m] in
              if length promises \<ge> quorum then Return (Inr (findHighestAccepted promises))
              else Waiting promises
          | Reject _ _ _ _ \<Rightarrow> Return (Inl ErrPreempted)
          | _ \<Rightarrow> Waiting []), a', st'))"

definition phase1_recv :: "nat \<Rightarrow> Message list \<Rightarrow> Message \<Rightarrow> Value progress" where
  "phase1_recv quorum promises msg =
     (case msg of
        Promise _ _ _ _ _ \<Rightarrow>
          let promises = promises @ [msg] in
          if length promises \<ge> quorum then Return (Inr (findHighestAccepted promises))
          else Waiting promises
      | Reject _ _ _ _ \<Rightarrow> Return (Inl ErrPreempted)
      | _ \<Rightarrow> Waiting promises)"

fun phase1_loop :: "nat \<Rightarrow> Message list \<Rightarrow> Message list \<Rightarrow> Value result \<times> Message list" where
  "phase1_loop quorum promises [] = (Inl ErrTimeout, [])"
| "phase1_loop quorum promises (msg # msgs) =
     (case phase1_recv quorum promises msg of
        Return r \<Rightarrow> (r, msgs)
      | Waiting promises' \<Rightarrow> phase1_loop quorum promises' msgs)"

definition phase2_local ::
  "'s Storage option \<Rightarrow> nat \<Rightarrow> Ballot \<Rightarrow> Instance \<Rightarrow> Value \<Rightarrow> Acceptor \<Rightarrow> 's
     \<Rightarrow> unit progress \<times> Acceptor \<times> 's" where
  "phase2_local S quorum ballot inst value a st =
     (case HandleAccept S ballot inst value a st of (m, a', st') \<Rightarrow>
        ((case m of
            Accepted _ _ _ \<Rightarrow>
              let accepteds = [m] in
              if length accepteds \<ge> quorum then Return (Inr ()) else Waiting accepteds
          | Nack _ _ _ _ \<Rightarrow> Return (Inl ErrPreempted)
          | _ \<Rightarrow> Waiting []), a', st'))"

definition phase2_recv :: "nat \<Rightarrow> Message list \<Rightarrow> Message \<Rightarrow> unit progress" where
  "phase2_recv quorum accepteds msg =
     (case msg of
        Accepted _ _ _ \<Rightarrow>
          let accepteds = accepteds @ [msg] in
          if length accepteds \<ge> quorum then Return (Inr ()) else Waiting accepteds
      | Nack _ _ _ _ \<Rightarrow> Return (Inl ErrPreempted)
      | _ \<Rightarrow> Waiting accepteds)"

fun phase2_loop :: "nat \<Rightarrow> Message list \<Rightarrow> Message list \<Rightarrow> unit result \<times> Message list" where
  "phase2_loop quorum accepteds [] = (Inl ErrTimeout, [])"
| "phase2_loop quorum accepteds (msg # msgs) =
     (case phase2_recv quorum accepteds msg of
        Return r \<Rightarrow> (r, msgs)
      | Waiting accepteds' \<Rightarrow> phase2_loop quorum accepteds' msgs)"

datatype effect = is_SentBroadcast: SentBroadcast Message | is_CalledOnCommit: CalledOnCommit Message

text \<open>
  \<open>runPhase1\<close> and \<open>runPhase2\<close> as the code composes them: own vote, broadcast, wait.  The
  result holds what is returned, the acceptor and storage, the messages left on the channel
  and the effects.  The acceptor can be nil (\<^term>\<open>None\<close>), as in the unit tests.
\<close>

definition runPhase1 ::
  "'s Storage option \<Rightarrow> (Message \<Rightarrow> error option) \<Rightarrow> nat \<Rightarrow> Ballot \<Rightarrow> Instance \<Rightarrow> Message list
     \<Rightarrow> Acceptor option \<Rightarrow> 's \<Rightarrow> Value result \<times> Message list \<times> effect list \<times> Acceptor option \<times> 's" where
  "runPhase1 S bcast quorum ballot inst msgs ao st =
     (let prepareMsg = Prepare ballot inst;
          (own, ao', st') = (case ao of None \<Rightarrow> (Waiting [], None, st)
            | Some a \<Rightarrow> (case phase1_local S quorum ballot inst a st of (r, a', st') \<Rightarrow> (r, Some a', st')))
      in case own of
           Return r \<Rightarrow> (r, msgs, [], ao', st')
         | Waiting promises \<Rightarrow>
             (case bcast prepareMsg of
                Some e \<Rightarrow> (Inl e, msgs, [SentBroadcast prepareMsg], ao', st')
              | None \<Rightarrow> (case phase1_loop quorum promises msgs of (r, rest) \<Rightarrow>
                  (r, rest, [SentBroadcast prepareMsg], ao', st'))))"

definition broadcastCommit ::
  "(Message \<Rightarrow> error option) \<Rightarrow> bool \<Rightarrow> Ballot \<Rightarrow> Instance \<Rightarrow> Value \<Rightarrow> unit result \<times> effect list" where
  "broadcastCommit bcast hook ballot inst value =
     (let commitMsg = Commit ballot inst value
      in ((case bcast commitMsg of None \<Rightarrow> Inr () | Some e \<Rightarrow> Inl e),
          (if hook then [CalledOnCommit commitMsg] else []) @ [SentBroadcast commitMsg]))"

definition runPhase2 ::
  "'s Storage option \<Rightarrow> (Message \<Rightarrow> error option) \<Rightarrow> bool \<Rightarrow> nat \<Rightarrow> Ballot \<Rightarrow> Instance \<Rightarrow> Value
     \<Rightarrow> Message list \<Rightarrow> Acceptor option \<Rightarrow> 's \<Rightarrow> unit result \<times> effect list \<times> Acceptor option \<times> 's" where
  "runPhase2 S bcast hook quorum ballot inst value msgs ao st =
     (let acceptMsg = Accept ballot inst value;
          (own, ao', st') = (case ao of None \<Rightarrow> (Waiting [], None, st)
            | Some a \<Rightarrow> (case phase2_local S quorum ballot inst value a st of
                (r, a', st') \<Rightarrow> (r, Some a', st')));
          (commitRes, commitEff) = broadcastCommit bcast hook ballot inst value
      in case own of
           Return (Inl e) \<Rightarrow> (Inl e, [], ao', st')
         | Return (Inr _) \<Rightarrow> (commitRes, commitEff, ao', st')
         | Waiting accepteds \<Rightarrow>
             (case bcast acceptMsg of
                Some e \<Rightarrow> (Inl e, [SentBroadcast acceptMsg], ao', st')
              | None \<Rightarrow> (case fst (phase2_loop quorum accepteds msgs) of
                  Inl e \<Rightarrow> (Inl e, [SentBroadcast acceptMsg], ao', st')
                | Inr _ \<Rightarrow> (commitRes, SentBroadcast acceptMsg # commitEff, ao', st'))))"

section \<open>Proposals and elections\<close>

text \<open>The locked section that opens a proposal, and the deferred one that closes it.\<close>

definition begin_proposal :: "Value \<Rightarrow> Proposer \<Rightarrow> proposalState \<times> Proposer" where
  "begin_proposal value p =
     (let inst = nextInstance p;
          p = p\<lparr>nextInstance := nextInstance p + 1\<rparr>;
          p = p\<lparr>currentRound := currentRound p + 1\<rparr>;
          ballot = MakeBallot (currentRound p) (prop_nodeID p);
          state = \<lparr>ps_instance = inst, ps_ballot = ballot, ps_value = value, responses = []\<rparr>
      in (state, p\<lparr>pending := (pending p)(inst \<mapsto> state)\<rparr>))"

definition end_proposal :: "Instance \<Rightarrow> Proposer \<Rightarrow> Proposer" where
  "end_proposal inst p = p\<lparr>pending := go_delete inst (pending p)\<rparr>"

text \<open>A value learned in phase 1 replaces the caller's value.\<close>

definition value_to_propose :: "Value \<Rightarrow> Value \<Rightarrow> Value" where
  "value_to_propose acceptedVal value = (if acceptedVal \<noteq> None then acceptedVal else value)"

text \<open>\<open>msgs1\<close> arrives before the deadline of phase 1, \<open>msgs2\<close> after phase 1 returned and
  before the deadline of phase 2; what phase 1 left unread is still on the channel.\<close>

definition Propose ::
  "'s Storage option \<Rightarrow> (Message \<Rightarrow> error option) \<Rightarrow> bool \<Rightarrow> Value \<Rightarrow> Message list \<Rightarrow> Message list
     \<Rightarrow> Proposer \<Rightarrow> Acceptor option \<Rightarrow> 's
     \<Rightarrow> Instance result \<times> effect list \<times> Proposer \<times> Acceptor option \<times> 's" where
  "Propose S bcast hook value msgs1 msgs2 p ao st =
     (let (state, p1) = begin_proposal value p;
          inst = ps_instance state; ballot = ps_ballot state
      in case runPhase1 S bcast (quorumSize p) ballot inst msgs1 ao st of
           (Inl e, rest, eff, ao1, st1) \<Rightarrow> (Inl e, eff, end_proposal inst p1, ao1, st1)
         | (Inr acceptedVal, rest, eff, ao1, st1) \<Rightarrow>
             let value' = value_to_propose acceptedVal (ps_value state)
             in case runPhase2 S bcast hook (quorumSize p) ballot inst value' (rest @ msgs2) ao1 st1 of
                  (Inl e, eff2, ao2, st2) \<Rightarrow> (Inl e, eff @ eff2, end_proposal inst p1, ao2, st2)
                | (Inr _, eff2, ao2, st2) \<Rightarrow> (Inr inst, eff @ eff2, end_proposal inst p1, ao2, st2))"

definition begin_election :: "Proposer \<Rightarrow> proposalState \<times> Proposer" where
  "begin_election p =
     (let p = p\<lparr>currentRound := currentRound p + 1\<rparr>;
          ballot = MakeBallot (currentRound p) (prop_nodeID p);
          state = \<lparr>ps_instance = 0, ps_ballot = ballot, ps_value = None, responses = []\<rparr>
      in (state, p\<lparr>pending := (pending p)(0 \<mapsto> state)\<rparr>))"

definition win_election :: "Ballot \<Rightarrow> Proposer \<Rightarrow> Proposer" where
  "win_election ballot p = p\<lparr>isLeader := True, leaderBallot := ballot\<rparr>"

text \<open>The parameter \<open>fromInstance\<close> of \<open>BecomeLeader\<close> is only logged.\<close>

definition BecomeLeader ::
  "'s Storage option \<Rightarrow> (Message \<Rightarrow> error option) \<Rightarrow> Message list \<Rightarrow> Proposer \<Rightarrow> Acceptor option \<Rightarrow> 's
     \<Rightarrow> error option \<times> effect list \<times> Proposer \<times> Acceptor option \<times> 's" where
  "BecomeLeader S bcast msgs p ao st =
     (let (state, p1) = begin_election p; ballot = ps_ballot state
      in case runPhase1 S bcast (quorumSize p) ballot 0 msgs ao st of
           (Inl e, rest, eff, ao1, st1) \<Rightarrow> (Some e, eff, end_proposal 0 p1, ao1, st1)
         | (Inr _, rest, eff, ao1, st1) \<Rightarrow>
             (None, eff, end_proposal 0 (win_election ballot p1), ao1, st1))"

definition IsLeader :: "Proposer \<Rightarrow> bool" where
  "IsLeader p = isLeader p"

definition LeaderBallot :: "Proposer \<Rightarrow> Ballot" where
  "LeaderBallot p = leaderBallot p"

definition StepDown :: "Proposer \<Rightarrow> Proposer" where
  "StepDown p = p\<lparr>isLeader := False\<rparr>"

section \<open>Routing responses\<close>

fun response_key :: "Message \<Rightarrow> (Instance \<times> Ballot) option" where
  "response_key (Promise b i _ _ _) = Some (i, b)"
| "response_key (Reject b i _ _) = Some (i, b)"
| "response_key (Accepted b i _) = Some (i, b)"
| "response_key (Nack b i _ _) = Some (i, b)"
| "response_key _ = None"

definition HandleResponse :: "Message \<Rightarrow> Proposer \<Rightarrow> Proposer" where
  "HandleResponse msg p =
     (case response_key msg of
        None \<Rightarrow> p
      | Some (inst, ballot) \<Rightarrow>
          (case pending p inst of
             None \<Rightarrow> p
           | Some state \<Rightarrow>
               if ps_ballot state \<noteq> ballot then p
               else if length (responses state) < responseBufferSize p
               then p\<lparr>pending := (pending p)(inst \<mapsto> state\<lparr>responses := responses state @ [msg]\<rparr>)\<rparr>
               else p))"

section \<open>The choice of the value\<close>

lemma prefix_mset: "prefix xs ys \<Longrightarrow> mset xs \<subseteq># mset ys"
  by (auto simp: prefix_def)

text \<open>The running maximum of the loop in \<open>findHighestAccepted\<close>.\<close>

abbreviation pick_promise :: "Ballot \<times> Value \<Rightarrow> Message \<Rightarrow> Ballot \<times> Value" where
  "pick_promise acc m \<equiv> (case acc of (hb, hv) \<Rightarrow>
     if m_AcceptedBallot m > hb then (m_AcceptedBallot m, m_AcceptedValue m) else (hb, hv))"

lemma pick_promise_foldl:
  assumes "foldl pick_promise (b0, v0) ps = (b, v)"
  shows "b0 \<le> b \<and> (\<forall>m \<in> set ps. m_AcceptedBallot m \<le> b)
    \<and> (b = b0 \<and> v = v0 \<or> b0 < b \<and> (\<exists>m \<in> set ps. m_AcceptedBallot m = b \<and> m_AcceptedValue m = v))"
  using assms
proof (induction ps arbitrary: b0 v0)
  case (Cons m ps)
  then show ?case
    by (auto split: if_splits dest!: Cons.IH)
qed simp

lemma findHighestAccepted_cases:
  obtains (none) "\<forall>m \<in> set ps. m_AcceptedBallot m = 0" "findHighestAccepted ps = None"
  | (some) m where "m \<in> set ps" "m_AcceptedBallot m > 0"
      "\<forall>m' \<in> set ps. m_AcceptedBallot m' \<le> m_AcceptedBallot m"
      "findHighestAccepted ps = m_AcceptedValue m"
proof -
  obtain b v where bv: "foldl pick_promise (0, None) ps = (b, v)" by fastforce
  then have v: "findHighestAccepted ps = v"
    by (simp add: findHighestAccepted_def case_prod_unfold)
  from pick_promise_foldl [OF bv] show thesis
    using v none some by (fastforce simp: word_le_nat_alt word_less_nat_alt word_unat_eq_iff)
qed

section \<open>The receive loops\<close>

lemma phase1_loop_Inr:
  assumes "phase1_loop q ps msgs = (Inr v, rest)"
  shows "\<exists>pre. msgs = pre @ rest \<and> q \<le> length (ps @ filter is_Promise pre)
    \<and> v = findHighestAccepted (ps @ filter is_Promise pre) \<and> (\<forall>m \<in> set pre. \<not> is_Reject m)"
  using assms
proof (induction q ps msgs rule: phase1_loop.induct)
  case (2 q ps m msgs)
  show ?case
  proof (cases "phase1_recv q ps m")
    case (Return r)
    with "2.prems" have "q \<le> length (ps @ filter is_Promise [m])"
      "v = findHighestAccepted (ps @ filter is_Promise [m])" "\<not> is_Reject m" "msgs = rest"
      by (auto simp: phase1_recv_def Let_def split: Message.splits if_splits)
    then show ?thesis by (intro exI [of _ "[m]"]) simp
  next
    case (Waiting ps')
    then have w: "ps' = ps @ filter is_Promise [m]" "\<not> is_Reject m"
      by (auto simp: phase1_recv_def Let_def split: Message.splits if_splits)
    from "2.IH" [OF Waiting] "2.prems" Waiting obtain pre where
      "msgs = pre @ rest" "q \<le> length (ps' @ filter is_Promise pre)"
      "v = findHighestAccepted (ps' @ filter is_Promise pre)" "\<forall>m \<in> set pre. \<not> is_Reject m"
      by auto
    with w show ?thesis by (intro exI [of _ "m # pre"]) (auto split: if_splits)
  qed
qed simp

lemma phase2_loop_Inr:
  assumes "phase2_loop q ps msgs = (Inr u, rest)"
  shows "\<exists>pre. msgs = pre @ rest \<and> q \<le> length (ps @ filter is_Accepted pre)
    \<and> (\<forall>m \<in> set pre. \<not> is_Nack m)"
  using assms
proof (induction q ps msgs rule: phase2_loop.induct)
  case (2 q ps m msgs)
  show ?case
  proof (cases "phase2_recv q ps m")
    case (Return r)
    with "2.prems" have "q \<le> length (ps @ filter is_Accepted [m])" "\<not> is_Nack m" "msgs = rest"
      by (auto simp: phase2_recv_def Let_def split: Message.splits if_splits)
    then show ?thesis by (intro exI [of _ "[m]"]) simp
  next
    case (Waiting ps')
    then have w: "ps' = ps @ filter is_Accepted [m]" "\<not> is_Nack m"
      by (auto simp: phase2_recv_def Let_def split: Message.splits if_splits)
    from "2.IH" [OF Waiting] "2.prems" Waiting obtain pre where
      "msgs = pre @ rest" "q \<le> length (ps' @ filter is_Accepted pre)" "\<forall>m \<in> set pre. \<not> is_Nack m"
      by auto
    with w show ?thesis by (intro exI [of _ "m # pre"]) (auto split: if_splits)
  qed
qed simp

lemma phase2_loop_fst:
  assumes "fst (phase2_loop q ps msgs) = Inr u"
  shows "\<exists>pre. prefix pre msgs \<and> q \<le> length (ps @ filter is_Accepted pre)"
proof -
  obtain rest where "phase2_loop q ps msgs = (Inr u, rest)"
    using assms by (metis prod.collapse)
  from phase2_loop_Inr [OF this] show ?thesis by (auto simp: prefix_def)
qed

text \<open>Progress: with enough positive answers and no negative one, the loops return.\<close>

lemma phase1_loop_progress:
  assumes "length ps < q" "q \<le> length ps + length (filter is_Promise msgs)"
    "\<forall>m \<in> set msgs. \<not> is_Reject m"
  shows "\<exists>v rest. phase1_loop q ps msgs = (Inr v, rest)"
  using assms
proof (induction msgs arbitrary: ps)
  case (Cons m msgs)
  show ?case
  proof (cases "is_Promise m \<and> q \<le> Suc (length ps)")
    case True
    then show ?thesis by (cases m) (auto simp: phase1_recv_def)
  next
    case False
    let ?ps = "ps @ filter is_Promise [m]"
    have "phase1_recv q ps m = Waiting ?ps"
      using False Cons.prems(3) by (cases m) (auto simp: phase1_recv_def Let_def)
    moreover have "\<exists>v rest. phase1_loop q ?ps msgs = (Inr v, rest)"
      using Cons.prems False by (intro Cons.IH) auto
    ultimately show ?thesis by simp
  qed
qed simp

lemma phase2_loop_progress:
  assumes "length ps < q" "q \<le> length ps + length (filter is_Accepted msgs)"
    "\<forall>m \<in> set msgs. \<not> is_Nack m"
  shows "\<exists>u rest. phase2_loop q ps msgs = (Inr u, rest)"
  using assms
proof (induction msgs arbitrary: ps)
  case (Cons m msgs)
  show ?case
  proof (cases "is_Accepted m \<and> q \<le> Suc (length ps)")
    case True
    then show ?thesis by (cases m) (auto simp: phase2_recv_def)
  next
    case False
    let ?ps = "ps @ filter is_Accepted [m]"
    have "phase2_recv q ps m = Waiting ?ps"
      using False Cons.prems(3) by (cases m) (auto simp: phase2_recv_def Let_def)
    moreover have "\<exists>v rest. phase2_loop q ?ps msgs = (Inr v, rest)"
      using Cons.prems False by (intro Cons.IH) auto
    ultimately show ?thesis by simp
  qed
qed simp

section \<open>Whole phases\<close>

text \<open>The vote of the proposer's own acceptor, if it has one.\<close>

definition own_promise ::
  "'s Storage option \<Rightarrow> Ballot \<Rightarrow> Instance \<Rightarrow> Acceptor option \<Rightarrow> 's \<Rightarrow> Message list" where
  "own_promise S b i ao st =
     (case ao of None \<Rightarrow> [] | Some a \<Rightarrow> [fst (HandlePrepare S b i a st)])"

definition own_accepted ::
  "'s Storage option \<Rightarrow> Ballot \<Rightarrow> Instance \<Rightarrow> Value \<Rightarrow> Acceptor option \<Rightarrow> 's \<Rightarrow> Message list" where
  "own_accepted S b i v ao st =
     (case ao of None \<Rightarrow> [] | Some a \<Rightarrow> [fst (HandleAccept S b i v a st)])"

lemma phase1_local_cases:
  assumes "phase1_local S q b i a st = (own, a', st')"
  obtains
    (refused) "own = Return (Inl ErrPreempted)" "is_Reject (fst (HandlePrepare S b i a st))"
  | (quorum) m where "HandlePrepare S b i a st = (m, a', st')" "is_Promise m" "q \<le> 1"
      "own = Return (Inr (findHighestAccepted [m]))"
  | (wait) m where "HandlePrepare S b i a st = (m, a', st')" "is_Promise m" "1 < q" "own = Waiting [m]"
proof -
  obtain m a1 st1 where h: "HandlePrepare S b i a st = (m, a1, st1)" by (metis prod_cases3)
  then have "is_Promise m \<or> is_Reject m" by (auto elim: HandlePrepare_cases)
  with assms h show thesis
    by (cases m; cases "q \<le> 1")
       (auto simp: phase1_local_def Let_def intro: refused quorum wait)
qed

lemma phase2_local_cases:
  assumes "phase2_local S q b i v a st = (own, a', st')"
  obtains
    (refused) "own = Return (Inl ErrPreempted)" "is_Nack (fst (HandleAccept S b i v a st))"
  | (quorum) m where "HandleAccept S b i v a st = (m, a', st')" "is_Accepted m" "q \<le> 1"
      "own = Return (Inr ())"
  | (wait) m where "HandleAccept S b i v a st = (m, a', st')" "is_Accepted m" "1 < q" "own = Waiting [m]"
proof -
  obtain m a1 st1 where h: "HandleAccept S b i v a st = (m, a1, st1)" by (metis prod_cases3)
  then have "is_Accepted m \<or> is_Nack m" by (auto elim: HandleAccept_cases)
  with assms h show thesis
    by (cases m; cases "q \<le> 1")
       (auto simp: phase2_local_def Let_def intro: refused quorum wait)
qed

lemma runPhase1_effects:
  assumes "runPhase1 S bcast q b i msgs ao st = (r, rest, eff, ao', st')"
  shows "list_all is_SentBroadcast eff"
proof -
  obtain own a1 s1 where o: "(case ao of None \<Rightarrow> (Waiting [], None, st)
      | Some a \<Rightarrow> (case phase1_local S q b i a st of (r, a', st') \<Rightarrow> (r, Some a', st'))) = (own, a1, s1)"
    by (metis prod_cases3)
  with assms show ?thesis
    by (cases own) (auto simp: runPhase1_def Let_def case_prod_beta split: option.splits)
qed

lemma runPhase1_Inr:
  assumes "runPhase1 S bcast q b i msgs ao st = (Inr v, rest, eff, ao', st')"
  shows "\<exists>pre. msgs = pre @ rest
    \<and> q \<le> length (own_promise S b i ao st @ filter is_Promise pre)
    \<and> (\<forall>m \<in> set (own_promise S b i ao st). is_Promise m)
    \<and> v = findHighestAccepted (own_promise S b i ao st @ filter is_Promise pre)"
proof (cases ao)
  case None
  then show ?thesis using assms
    by (auto simp: runPhase1_def own_promise_def Let_def split: option.splits prod.splits
        dest!: phase1_loop_Inr)
next
  case (Some a)
  obtain own a1 st1 where l: "phase1_local S q b i a st = (own, a1, st1)" by (metis prod_cases3)
  then show ?thesis
  proof (cases rule: phase1_local_cases)
    case (wait m)
    with assms Some l show ?thesis
      by (auto simp: runPhase1_def own_promise_def Let_def split: option.splits prod.splits
          dest!: phase1_loop_Inr)
  qed (use assms Some l in \<open>auto simp: runPhase1_def own_promise_def Let_def\<close>)
qed

lemma runPhase2_Inr:
  assumes "runPhase2 S bcast hook q b i v msgs ao st = (Inr u, eff, ao', st')"
  shows "\<exists>pre eff0. prefix pre msgs
    \<and> q \<le> length (own_accepted S b i v ao st @ filter is_Accepted pre)
    \<and> (\<forall>m \<in> set (own_accepted S b i v ao st). is_Accepted m)
    \<and> list_all is_SentBroadcast eff0
    \<and> eff = eff0 @ (if hook then [CalledOnCommit (Commit b i v)] else [])
              @ [SentBroadcast (Commit b i v)]"
proof (cases ao)
  case None
  then show ?thesis using assms
    by (auto simp: runPhase2_def own_accepted_def broadcastCommit_def Let_def prefix_def
        split: option.splits sum.splits if_splits dest!: phase2_loop_fst)
next
  case (Some a)
  obtain own a1 st1 where l: "phase2_local S q b i v a st = (own, a1, st1)" by (metis prod_cases3)
  then show ?thesis
  proof (cases rule: phase2_local_cases)
    case (wait m)
    with assms Some l show ?thesis
      by (auto simp: runPhase2_def own_accepted_def broadcastCommit_def Let_def prefix_def
          split: option.splits sum.splits if_splits dest!: phase2_loop_fst)
  next
    case (quorum m)
    with assms Some l show ?thesis
      by (intro exI [of _ "[]"]) (auto simp: runPhase2_def own_accepted_def broadcastCommit_def
        Let_def split: if_splits option.splits)
  qed (use assms Some l in \<open>auto simp: runPhase2_def broadcastCommit_def Let_def\<close>)
qed

lemma runPhase1_progress:
  assumes "GetPromised a i \<le> b" "\<forall>x. fst (persist S x st) = None" "\<forall>m. bcast m = None"
    "1 \<le> q" "q \<le> 1 + length (filter is_Promise msgs)" "\<forall>m \<in> set msgs. \<not> is_Reject m"
  shows "\<exists>v rest eff. runPhase1 S bcast q b i msgs (Some a) st
    = (Inr v, rest, eff, Some (a\<lparr>promised := (promised a)(i \<mapsto> b)\<rparr>),
       snd (persist S (a\<lparr>promised := (promised a)(i \<mapsto> b)\<rparr>) st))"
proof -
  let ?a = "a\<lparr>promised := (promised a)(i \<mapsto> b)\<rparr>"
  obtain st' where p: "persist S ?a st = (None, st')" using assms(2) by (metis prod.collapse)
  obtain ab av where h: "HandlePrepare S b i a st = (Promise b i (acc_nodeID a) ab av, ?a, st')"
    using HandlePrepare_grant [OF assms(1) p] by blast
  show ?thesis
  proof (cases "q \<le> 1")
    case True
    then show ?thesis using h p by (simp add: runPhase1_def phase1_local_def)
  next
    case False
    then obtain v rest where
      "phase1_loop q [Promise b i (acc_nodeID a) ab av] msgs = (Inr v, rest)"
      using phase1_loop_progress [of "[Promise b i (acc_nodeID a) ab av]" q msgs] assms(5,6) by auto
    then show ?thesis using False h p assms(3) by (simp add: runPhase1_def phase1_local_def Let_def)
  qed
qed

lemma runPhase2_progress:
  assumes "GetPromised a i \<le> b" "\<forall>x. fst (persist S x st) = None" "\<forall>m. bcast m = None"
    "1 \<le> q" "q \<le> 1 + length (filter is_Accepted msgs)" "\<forall>m \<in> set msgs. \<not> is_Nack m"
  shows "\<exists>eff ao' st'. runPhase2 S bcast hook q b i v msgs (Some a) st = (Inr (), eff, ao', st')"
proof -
  let ?a = "a\<lparr>promised := (promised a)(i \<mapsto> b), acceptedBallot := (acceptedBallot a)(i \<mapsto> b),
         acceptedValue := (acceptedValue a)(i \<mapsto> v)\<rparr>"
  obtain st' where p: "persist S ?a st = (None, st')" using assms(2) by (metis prod.collapse)
  have h: "HandleAccept S b i v a st = (Accepted b i (acc_nodeID a), ?a, st')"
    by (rule HandleAccept_grant [OF assms(1) p])
  show ?thesis
  proof (cases "q \<le> 1")
    case True
    then show ?thesis using h assms(3) by (simp add: runPhase2_def phase2_local_def broadcastCommit_def Let_def)
  next
    case False
    then obtain u rest where "phase2_loop q [Accepted b i (acc_nodeID a)] msgs = (Inr u, rest)"
      using phase2_loop_progress [of "[Accepted b i (acc_nodeID a)]" q msgs] assms(5,6) by auto
    then show ?thesis using False h assms(3)
      by (simp add: runPhase2_def phase2_local_def broadcastCommit_def Let_def)
  qed
qed

text \<open>What a phase, a proposal and an election do to the node's own acceptor and storage.\<close>

lemma runPhase1_acceptor:
  assumes "runPhase1 S bcast q b i msgs (Some a) st = (r, rest, eff, ao', st')"
  shows "\<exists>m a'. HandlePrepare S b i a st = (m, a', st') \<and> ao' = Some a'"
proof -
  obtain m a' s where h: "HandlePrepare S b i a st = (m, a', s)" by (metis prod_cases3)
  obtain own where l: "phase1_local S q b i a st = (own, a', s)"
    using h by (simp add: phase1_local_def)
  show ?thesis
  proof (cases own)
    case (Return x)
    with assms l h show ?thesis by (simp add: runPhase1_def Let_def)
  next
    case (Waiting ps)
    with assms l h show ?thesis
      by (auto simp: runPhase1_def Let_def case_prod_beta split: option.splits)
  qed
qed

lemma runPhase2_acceptor:
  assumes "runPhase2 S bcast hook q b i v msgs (Some a) st = (r, eff, ao', st')"
  shows "\<exists>m a'. HandleAccept S b i v a st = (m, a', st') \<and> ao' = Some a'"
proof -
  obtain m a' s where h: "HandleAccept S b i v a st = (m, a', s)" by (metis prod_cases3)
  obtain own where l: "phase2_local S q b i v a st = (own, a', s)"
    using h by (simp add: phase2_local_def)
  show ?thesis
  proof (cases own)
    case (Return x)
    with assms l h show ?thesis
      by (cases x) (simp_all add: runPhase2_def Let_def case_prod_beta)
  next
    case (Waiting ps)
    with assms l h show ?thesis
      by (auto simp: runPhase2_def Let_def case_prod_beta split: option.splits sum.splits)
  qed
qed

lemma own_promise_key: "m \<in> set (own_promise S b i ao st) \<Longrightarrow> is_Promise m \<Longrightarrow> response_key m = Some (i, b)"
proof (cases ao)
  case (Some a)
  assume "m \<in> set (own_promise S b i ao st)" "is_Promise m"
  moreover obtain m' a' st' where h: "HandlePrepare S b i a st = (m', a', st')" by (metis prod_cases3)
  ultimately show ?thesis using Some by (cases rule: HandlePrepare_cases [OF h]) (auto simp: own_promise_def h)
qed (simp add: own_promise_def)

lemma runPhase1_nodeID:
  assumes "runPhase1 S bcast q b i msgs ao st = (r, rest, eff, ao', st')"
  shows "map_option acc_nodeID ao' = map_option acc_nodeID ao"
proof (cases ao)
  case None
  then show ?thesis using assms by (simp add: runPhase1_def Let_def case_prod_beta split: option.splits)
next
  case (Some a)
  from runPhase1_acceptor [OF assms [unfolded Some]] HandlePrepare_nodeID Some show ?thesis by fastforce
qed

text \<open>A phase 2 that succeeds has the vote of the proposer's own acceptor, if there is one.\<close>

lemma runPhase2_own:
  assumes "runPhase2 S bcast hook q b i v msgs ao st = (Inr u, eff, ao', st')"
  shows "own_accepted S b i v ao st = (case ao of None \<Rightarrow> [] | Some a \<Rightarrow> [Accepted b i (acc_nodeID a)])
    \<and> (case ao' of None \<Rightarrow> ao = None | Some a' \<Rightarrow> acceptedBallot a' i = Some b \<and> acceptedValue a' i = Some v)"
proof (cases ao)
  case None
  then show ?thesis using assms
    by (auto simp: runPhase2_def own_accepted_def broadcastCommit_def Let_def split: option.splits sum.splits)
next
  case (Some a)
  from runPhase2_acceptor [OF assms [unfolded Some]] obtain m a' where
    h: "HandleAccept S b i v a st = (m, a', st')" and ao': "ao' = Some a'" by blast
  from runPhase2_Inr [OF assms] Some h have "is_Accepted m" by (auto simp: own_accepted_def)
  with h Some ao' show ?thesis by (cases rule: HandleAccept_cases [OF h]) (auto simp: own_accepted_def)
qed

lemma Propose_Inr:
  assumes "Propose S bcast hook value msgs1 msgs2 p ao st = (Inr inst, eff, p', ao', st')"
    and "b = MakeBallot (currentRound p + 1) (prop_nodeID p)"
  shows "inst = nextInstance p \<and> (\<exists>promises accepteds v eff0.
      quorumSize p \<le> length promises \<and> (\<forall>m \<in> set promises. is_Promise m)
    \<and> mset promises \<subseteq># mset (own_promise S b inst ao st @ msgs1)
    \<and> v = value_to_propose (findHighestAccepted promises) value
    \<and> quorumSize p \<le> length accepteds \<and> (\<forall>m \<in> set accepteds. is_Accepted m)
    \<and> mset accepteds \<subseteq># mset ((case ao of None \<Rightarrow> [] | Some a \<Rightarrow> [Accepted b inst (acc_nodeID a)]) @ msgs1 @ msgs2)
    \<and> (case ao' of None \<Rightarrow> ao = None | Some a' \<Rightarrow> acceptedBallot a' inst = Some b \<and> acceptedValue a' inst = Some v)
    \<and> list_all is_SentBroadcast eff0 \<and> eff = eff0 @ (if hook then [CalledOnCommit (Commit b inst v)] else [])
              @ [SentBroadcast (Commit b inst v)])"
proof -
  obtain state p1 where bp: "begin_proposal value p = (state, p1)" by fastforce
  then have state: "ps_instance state = nextInstance p" "ps_ballot state = b" "ps_value state = value"
    using assms(2) by (auto simp: begin_proposal_def Let_def)
  let ?i = "nextInstance p"
  obtain x1 rest eff1 ao1 st1 where r1':
    "runPhase1 S bcast (quorumSize p) b ?i msgs1 ao st = (x1, rest, eff1, ao1, st1)"
    by (metis prod_cases5)
  with assms(1) bp state obtain av where x1: "x1 = Inr av"
    by (cases x1) (simp_all add: Propose_def Let_def)
  note r1 = r1' [unfolded x1]
  let ?v = "value_to_propose av value"
  obtain x2 eff2 ao2 st2 where r2':
    "runPhase2 S bcast hook (quorumSize p) b ?i ?v (rest @ msgs2) ao1 st1 = (x2, eff2, ao2, st2)"
    by (metis prod_cases4)
  with assms(1) bp state r1 obtain u where x2: "x2 = Inr u"
    by (cases x2) (simp_all add: Propose_def Let_def)
  note r2 = r2' [unfolded x2]
  have inst: "inst = ?i" and eff: "eff = eff1 @ eff2"
    using assms(1) bp state r1 r2 by (simp_all add: Propose_def Let_def)
  from runPhase1_Inr [OF r1] obtain pre where pre: "msgs1 = pre @ rest"
    "quorumSize p \<le> length (own_promise S b ?i ao st @ filter is_Promise pre)"
    "\<forall>m \<in> set (own_promise S b ?i ao st). is_Promise m"
    "av = findHighestAccepted (own_promise S b ?i ao st @ filter is_Promise pre)"
    by blast
  from runPhase2_Inr [OF r2] obtain pre2 eff0 where pre2: "prefix pre2 (rest @ msgs2)"
    "quorumSize p \<le> length (own_accepted S b ?i ?v ao1 st1 @ filter is_Accepted pre2)"
    "\<forall>m \<in> set (own_accepted S b ?i ?v ao1 st1). is_Accepted m" "list_all is_SentBroadcast eff0"
    "eff2 = eff0 @ (if hook then [CalledOnCommit (Commit b ?i ?v)] else [])
              @ [SentBroadcast (Commit b ?i ?v)]"
    by blast
  have "mset (filter is_Promise pre) \<subseteq># mset msgs1"
    by (simp add: pre(1) multiset_filter_subset subset_mset.add_increasing2)
  moreover have "mset (filter is_Accepted pre2) \<subseteq># mset (msgs1 @ msgs2)"
  proof -
    have "mset pre2 \<subseteq># mset (rest @ msgs2)" using pre2(1) by (rule prefix_mset)
    moreover have "mset (filter is_Accepted pre2) \<subseteq># mset pre2"
      by (simp add: multiset_filter_subset)
    ultimately show ?thesis
      by (metis (no_types, lifting) append.assoc mset_append mset_subset_eq_add_right
          pre(1) subset_mset.order_trans)
  qed
  moreover have "list_all is_SentBroadcast eff1" by (rule runPhase1_effects [OF r1])
  moreover have "own_accepted S b ?i ?v ao1 st1 = (case ao of None \<Rightarrow> [] | Some a \<Rightarrow> [Accepted b ?i (acc_nodeID a)])"
    "case ao' of None \<Rightarrow> ao = None | Some a' \<Rightarrow> acceptedBallot a' ?i = Some b \<and> acceptedValue a' ?i = Some ?v"
  proof -
    have "ao2 = ao'" using assms(1) bp state r1 r2 by (simp add: Propose_def Let_def)
    moreover have "map_option acc_nodeID ao1 = map_option acc_nodeID ao" by (rule runPhase1_nodeID [OF r1])
    ultimately show "own_accepted S b ?i ?v ao1 st1 = (case ao of None \<Rightarrow> [] | Some a \<Rightarrow> [Accepted b ?i (acc_nodeID a)])"
      "case ao' of None \<Rightarrow> ao = None | Some a' \<Rightarrow> acceptedBallot a' ?i = Some b \<and> acceptedValue a' ?i = Some ?v"
      using runPhase2_own [OF r2] by (cases ao; cases ao1; auto split: option.splits)+
  qed
  ultimately show ?thesis
    using pre pre2 inst eff
    by (intro conjI exI [of _ "own_promise S b ?i ao st @ filter is_Promise pre"]
        exI [of _ "own_accepted S b ?i ?v ao1 st1 @ filter is_Accepted pre2"]
        exI [of _ ?v] exI [of _ "eff1 @ eff0"])
       auto
qed

section \<open>Properties\<close>

text \<open>C30. The value chosen from a set of promises: either no promise reports an accepted
  proposal and there is no value, or the value is that of a promise whose accepted ballot is
  non-zero and the highest of all.\<close>

theorem findHighestAccepted_highest:
  "(\<forall>m \<in> set ps. m_AcceptedBallot m = 0) \<and> findHighestAccepted ps = None
   \<or> (\<exists>m \<in> set ps. 0 < m_AcceptedBallot m \<and> findHighestAccepted ps = m_AcceptedValue m
        \<and> (\<forall>m' \<in> set ps. m_AcceptedBallot m' \<le> m_AcceptedBallot m))"
  by (rule findHighestAccepted_cases [of ps]) blast+

theorem findHighestAccepted_highest_witness:
  "let ps = [Promise 196609 1 1 65537 (Some [1]), Promise 196609 1 2 131074 (Some [2]),
             Promise 196609 1 3 0 None]
   in findHighestAccepted ps = Some [2]
      \<and> ((\<forall>m \<in> set ps. m_AcceptedBallot m = 0) \<and> findHighestAccepted ps = None
       \<or> (\<exists>m \<in> set ps. 0 < m_AcceptedBallot m \<and> findHighestAccepted ps = m_AcceptedValue m
        \<and> (\<forall>m' \<in> set ps. m_AcceptedBallot m' \<le> m_AcceptedBallot m)))"
  using findHighestAccepted_highest [of "[Promise 196609 1 1 65537 (Some [1]),
    Promise 196609 1 2 131074 (Some [2]), Promise 196609 1 3 0 None]"]
  by (simp add: findHighestAccepted_def)

lemma HandleResponse_key:
  assumes "pending q i = Some s" "pending (HandleResponse m q) i = Some (s\<lparr>responses := responses s @ [m]\<rparr>)"
  shows "response_key m = Some (i, ps_ballot s)"
proof -
  have "pending (HandleResponse m q) i \<noteq> pending q i"
    using assms by (auto dest: arg_cong [where f = responses])
  with assms(1) show ?thesis by (auto simp: HandleResponse_def split: option.splits if_splits)
qed

text \<open>C31. What a successful \<open>Propose\<close> has done, whatever messages \<open>HandleResponse\<close> put on its
  channel: it used the next free instance; it counted at least a quorum of promises, each for
  its new ballot and instance, from the channel and at most once from its own acceptor; it
  proposed the value of the highest accepted ballot among them, or its caller's value if there
  was none; it counted at least a quorum of acceptances of that ballot and instance, from the
  channel and at most once from its own acceptor, which has accepted the ballot and the value;
  and its last effects are the commit of exactly that value to its own learner and then to the
  peers.\<close>

theorem propose_success_quorums:
  assumes "Propose S bcast hook value msgs1 msgs2 p ao st = (Inr inst, eff, p', ao', st')"
    and "b = MakeBallot (currentRound p + 1) (prop_nodeID p)"
    and "\<forall>m \<in> set (msgs1 @ msgs2). \<exists>q s. pending q (nextInstance p) = Some s \<and> ps_ballot s = b
      \<and> pending (HandleResponse m q) (nextInstance p) = Some (s\<lparr>responses := responses s @ [m]\<rparr>)"
  shows "inst = nextInstance p \<and> (\<exists>promises accepteds v eff0.
      quorumSize p \<le> length promises \<and> (\<forall>m \<in> set promises. is_Promise m \<and> response_key m = Some (inst, b))
    \<and> mset promises \<subseteq># mset (own_promise S b inst ao st @ msgs1)
    \<and> v = value_to_propose (findHighestAccepted promises) value
    \<and> quorumSize p \<le> length accepteds \<and> (\<forall>m \<in> set accepteds. is_Accepted m \<and> response_key m = Some (inst, b))
    \<and> mset accepteds \<subseteq># mset ((case ao of None \<Rightarrow> [] | Some a \<Rightarrow> [Accepted b inst (acc_nodeID a)]) @ msgs1 @ msgs2)
    \<and> (case ao' of None \<Rightarrow> ao = None | Some a' \<Rightarrow> acceptedBallot a' inst = Some b \<and> acceptedValue a' inst = Some v)
    \<and> list_all is_SentBroadcast eff0 \<and> eff = eff0 @ (if hook then [CalledOnCommit (Commit b inst v)] else [])
              @ [SentBroadcast (Commit b inst v)])"
proof -
  have k: "response_key m = Some (inst, b)" if "m \<in> set (msgs1 @ msgs2)" for m
    using assms(3) that HandleResponse_key Propose_Inr [OF assms(1,2)] by blast
  obtain promises accepteds v eff0 where q: "inst = nextInstance p" "quorumSize p \<le> length promises"
    "\<forall>m \<in> set promises. is_Promise m" "mset promises \<subseteq># mset (own_promise S b inst ao st @ msgs1)"
    "v = value_to_propose (findHighestAccepted promises) value" "quorumSize p \<le> length accepteds" "\<forall>m \<in> set accepteds. is_Accepted m"
    "mset accepteds \<subseteq># mset ((case ao of None \<Rightarrow> [] | Some a \<Rightarrow> [Accepted b inst (acc_nodeID a)]) @ msgs1 @ msgs2)"
    "case ao' of None \<Rightarrow> ao = None | Some a' \<Rightarrow> acceptedBallot a' inst = Some b \<and> acceptedValue a' inst = Some v"
    "list_all is_SentBroadcast eff0" "eff = eff0 @ (if hook then [CalledOnCommit (Commit b inst v)] else []) @ [SentBroadcast (Commit b inst v)]"
    using Propose_Inr [OF assms(1,2)] by blast
  have "\<forall>m \<in> set promises. is_Promise m \<and> response_key m = Some (inst, b)"
  proof
    fix m assume m: "m \<in> set promises"
    then have "m \<in> set (own_promise S b inst ao st @ msgs1)" using mset_subset_eqD [OF q(4), of m] by simp
    with q(3) m k own_promise_key [of m S b inst ao st] show "is_Promise m \<and> response_key m = Some (inst, b)" by auto
  qed
  moreover have "\<forall>m \<in> set accepteds. is_Accepted m \<and> response_key m = Some (inst, b)"
  proof
    fix m assume m: "m \<in> set accepteds"
    then have "m \<in> set ((case ao of None \<Rightarrow> [] | Some a \<Rightarrow> [Accepted b inst (acc_nodeID a)]) @ msgs1 @ msgs2)"
      using mset_subset_eqD [OF q(8), of m] by simp
    with q(7) m k show "is_Accepted m \<and> response_key m = Some (inst, b)" by (auto split: option.splits)
  qed
  ultimately show ?thesis using q by (intro conjI exI [of _ promises] exI [of _ accepteds] exI [of _ v] exI [of _ eff0])
qed

theorem propose_success_quorums_witness:
  "\<exists>eff p' a'. Propose (None :: unit Storage option) (\<lambda>_. None) True (Some [7])
      [Promise 65537 1 2 0 None] [Accepted 65537 1 2] (NewProposer 1 2 2)
      (Some \<lparr>acc_nodeID = 1, promised = Map.empty, acceptedBallot = Map.empty, acceptedValue = Map.empty\<rparr>) ()
      = (Inr 1, eff, p', Some a', ()) \<and> last eff = SentBroadcast (Commit 65537 1 (Some [7])) \<and> acceptedBallot a' 1 = Some 65537"
proof -
  define a :: Acceptor where "a = \<lparr>acc_nodeID = 1, promised = Map.empty,
    acceptedBallot = Map.empty, acceptedValue = Map.empty\<rparr>"
  have mb: "MakeBallot 1 1 = 65537" by (simp add: MakeBallot_def)
  obtain eff p' a' where e: "Propose (None :: unit Storage option) (\<lambda>_. None) True (Some [7])
      [Promise 65537 1 2 0 None] [Accepted 65537 1 2] (NewProposer 1 2 2) (Some a) ()
      = (Inr 1, eff, p', Some a', ())" and eff: "last eff = SentBroadcast (Commit 65537 1 (Some [7]))"
    by (simp add: a_def Propose_def NewProposer_def begin_proposal_def runPhase1_def runPhase2_def
        phase1_local_def phase2_local_def HandlePrepare_def HandleAccept_def persist_def mb
        phase1_recv_def phase2_recv_def findHighestAccepted_def broadcastCommit_def
        value_to_propose_def Let_def)
  define q where "q = snd (begin_proposal (Some [7]) (NewProposer 1 2 2))"
  define s where "s = fst (begin_proposal (Some [7]) (NewProposer 1 2 2))"
  have "pending q 1 = Some s" "ps_ballot s = 65537"
    "m \<in> {Promise 65537 1 2 0 None, Accepted 65537 1 2} \<Longrightarrow> pending (HandleResponse m q) 1 = Some (s\<lparr>responses := responses s @ [m]\<rparr>)" for m
    by (auto simp: q_def s_def begin_proposal_def NewProposer_def Let_def mb HandleResponse_def responseBufferSize_def)
  then have "\<forall>m \<in> set ([Promise 65537 1 2 0 None] @ [Accepted 65537 1 2]). \<exists>q s. pending q (nextInstance (NewProposer 1 2 2)) = Some s
      \<and> ps_ballot s = MakeBallot (currentRound (NewProposer 1 2 2) + 1) (prop_nodeID (NewProposer 1 2 2))
      \<and> pending (HandleResponse m q) (nextInstance (NewProposer 1 2 2)) = Some (s\<lparr>responses := responses s @ [m]\<rparr>)"
    by (intro ballI exI [of _ q] exI [of _ s]) (auto simp: NewProposer_def mb)
  from propose_success_quorums [OF e refl this] have "acceptedBallot a' 1 = Some 65537"
    by (auto simp: NewProposer_def mb)
  with e eff show ?thesis unfolding a_def by blast
qed

text \<open>Progress of a proposal: if the proposer's own acceptor has not promised a higher
  ballot and can save, no broadcast fails, and before the deadlines enough peers answer
  positively and none negatively, where enough means a quorum together with the proposer
  itself, then \<open>Propose\<close> returns the instance and no error.\<close>

theorem propose_progress:
  assumes "b = MakeBallot (currentRound p + 1) (prop_nodeID p)"
    and "GetPromised a (nextInstance p) \<le> b"
    and "\<forall>x. fst (persist S x st) = None \<and> (\<forall>y. fst (persist S y (snd (persist S x st))) = None)"
    and "\<forall>m. bcast m = None" and "1 \<le> quorumSize p"
    and "quorumSize p \<le> 1 + length (filter is_Promise msgs1)"
    and "quorumSize p \<le> 1 + length (filter is_Accepted msgs2)"
    and "\<forall>m \<in> set msgs1. \<not> is_Reject m" and "\<forall>m \<in> set (msgs1 @ msgs2). \<not> is_Nack m"
  shows "\<exists>eff p' ao' st'. Propose S bcast hook value msgs1 msgs2 p (Some a) st
    = (Inr (nextInstance p), eff, p', ao', st')"
proof -
  let ?i = "nextInstance p" and ?q = "quorumSize p"
  let ?a = "a\<lparr>promised := (promised a)(?i \<mapsto> b)\<rparr>"
  obtain v rest eff where r1: "runPhase1 S bcast ?q b ?i msgs1 (Some a) st
      = (Inr v, rest, eff, Some ?a, snd (persist S ?a st))"
    using runPhase1_progress [of a ?i b S st bcast ?q msgs1] assms by auto
  from runPhase1_Inr [OF r1] obtain pre where pre: "msgs1 = pre @ rest" by blast
  obtain eff2 ao2 st2 where r2: "runPhase2 S bcast hook ?q b ?i (value_to_propose v value)
      (rest @ msgs2) (Some ?a) (snd (persist S ?a st)) = (Inr (), eff2, ao2, st2)"
    using runPhase2_progress [of ?a ?i b S "snd (persist S ?a st)" bcast ?q "rest @ msgs2" hook
        "value_to_propose v value"] assms(3,4,5,7,9) pre
    by auto
  obtain state p1 where bp: "begin_proposal value p = (state, p1)" by fastforce
  then have "ps_instance state = ?i" "ps_ballot state = b" "ps_value state = value"
    using assms(1) by (auto simp: begin_proposal_def Let_def)
  with bp r1 r2 show ?thesis by (simp add: Propose_def Let_def)
qed

theorem propose_progress_witness:
  "\<exists>eff p' ao' st'. Propose (Some memory_storage) (\<lambda>_. None) True (Some [7])
      [Promise 65537 1 2 0 None] [Accepted 65537 1 2] (NewProposer 1 2 2)
      (Some \<lparr>acc_nodeID = 1, promised = Map.empty, acceptedBallot = Map.empty,
             acceptedValue = Map.empty\<rparr>) NewMemoryStorage
    = (Inr (nextInstance (NewProposer 1 2 2)), eff, p', ao', st')"
  by (rule propose_progress [OF refl])
     (simp_all add: NewProposer_def GetPromised_def persist_def mem_SaveAcceptorState_def
       NewMemoryStorage_def)

text \<open>A proposer through any sequence of its operations: calls of \<open>Propose\<close> and \<open>BecomeLeader\<close>,
  which make a ballot, their ends, won elections, routed responses and \<open>StepDown\<close>.  Calls may
  overlap.\<close>

datatype prop_op =
  OpPropose Value | OpElect | OpEnd Instance | OpWin Ballot | OpResponse Message | OpStepDown

fun prop_exec :: "prop_op \<Rightarrow> Proposer \<Rightarrow> Ballot list \<times> Proposer" where
  "prop_exec (OpPropose v) p = (case begin_proposal v p of (s, p') \<Rightarrow> ([ps_ballot s], p'))"
| "prop_exec OpElect p = (case begin_election p of (s, p') \<Rightarrow> ([ps_ballot s], p'))"
| "prop_exec (OpEnd i) p = ([], end_proposal i p)"
| "prop_exec (OpWin b) p = ([], win_election b p)"
| "prop_exec (OpResponse m) p = ([], HandleResponse m p)"
| "prop_exec OpStepDown p = ([], StepDown p)"

fun ballots_made :: "prop_op list \<Rightarrow> Proposer \<Rightarrow> Ballot list" where
  "ballots_made [] p = []"
| "ballots_made (x # xs) p = (case prop_exec x p of (bs, p') \<Rightarrow> bs @ ballots_made xs p')"

lemma prop_exec_round:
  assumes "prop_exec x p = (bs, p')" "unat (currentRound p) + 1 < 2 ^ 32"
  shows "prop_nodeID p' = prop_nodeID p"
    "bs = [] \<and> currentRound p' = currentRound p \<or> bs = [MakeBallot (currentRound p') (prop_nodeID p)]
       \<and> unat (currentRound p') = unat (currentRound p) + 1"
proof -
  have r: "unat (currentRound p + 1) = unat (currentRound p) + 1" using assms(2) by (simp add: unat_word_ariths)
  have h: "currentRound (HandleResponse m p) = currentRound p" "prop_nodeID (HandleResponse m p) = prop_nodeID p" for m
    by (simp_all add: HandleResponse_def split: option.splits)
  from assms(1) show "prop_nodeID p' = prop_nodeID p"
    by (cases x) (auto simp: begin_proposal_def begin_election_def end_proposal_def win_election_def StepDown_def Let_def h)
  from assms(1) r show "bs = [] \<and> currentRound p' = currentRound p \<or> bs = [MakeBallot (currentRound p') (prop_nodeID p)]
       \<and> unat (currentRound p') = unat (currentRound p) + 1"
    by (cases x) (auto simp: begin_proposal_def begin_election_def end_proposal_def win_election_def StepDown_def Let_def h)
qed

lemma ballots_made_grow:
  assumes "unat (currentRound p) + length xs < 2 ^ 32"
  shows "sorted_wrt (<) (ballots_made xs p) \<and> (\<forall>b \<in> set (ballots_made xs p). \<exists>r. currentRound p < r \<and> b = MakeBallot r (prop_nodeID p))"
  using assms
proof (induction xs arbitrary: p)
  case (Cons x xs)
  obtain bs p' where x: "prop_exec x p = (bs, p')" by fastforce
  note rd = prop_exec_round [OF x]
  have n: "prop_nodeID p' = prop_nodeID p" using rd(1) Cons.prems by simp
  from rd(2) Cons.prems consider "bs = []" "currentRound p' = currentRound p"
    | "bs = [MakeBallot (currentRound p') (prop_nodeID p)]" "unat (currentRound p') = unat (currentRound p) + 1" by auto
  then show ?case
  proof cases
    case 1
    then show ?thesis using Cons.IH [of p'] Cons.prems n x by simp
  next
    case 2
    then have lt: "currentRound p < currentRound p'" by (simp add: word_less_nat_alt)
    from 2 Cons.IH [of p'] Cons.prems n have ih: "sorted_wrt (<) (ballots_made xs p')"
      "\<And>b. b \<in> set (ballots_made xs p') \<Longrightarrow> \<exists>r. currentRound p' < r \<and> b = MakeBallot r (prop_nodeID p)" by simp_all
    have "MakeBallot (currentRound p') (prop_nodeID p) < b" if "b \<in> set (ballots_made xs p')" for b
      using ih(2) [OF that] by (auto simp: MakeBallot_less)
    with ih(1) have "sorted_wrt (<) (ballots_made (x # xs) p)" using x 2(1) by simp
    moreover have "\<exists>r. currentRound p < r \<and> b = MakeBallot r (prop_nodeID p)" if "b \<in> set (ballots_made (x # xs) p)" for b
      using that x 2(1) ih(2) [of b] lt by (auto intro: less_trans)
    ultimately show ?thesis by blast
  qed
qed simp

text \<open>C32. Ballots of one proposer grow: through any sequence of its operations, as long as the
  32-bit round does not wrap around, every ballot it makes for a proposal or an election is
  above all the ballots it made before, in this sequence or in its current or an earlier round,
  and carries its identifier.\<close>

theorem new_ballot_above_earlier:
  assumes "unat (currentRound p) + length xs < 2 ^ 32"
  shows "sorted_wrt (<) (ballots_made xs p)
    \<and> (\<forall>b \<in> set (ballots_made xs p). BallotNodeID b = prop_nodeID p
         \<and> (\<forall>r. r \<le> currentRound p \<longrightarrow> MakeBallot r (prop_nodeID p) < b))"
  using ballots_made_grow [OF assms] by (auto simp: MakeBallot_less)

theorem new_ballot_above_earlier_witness:
  "ballots_made [OpPropose (Some [7]), OpElect, OpEnd 1, OpStepDown, OpPropose None] (NewProposer 1 2 2) = [65537, 131073, 196609]
   \<and> sorted_wrt (<) [65537 :: Ballot, 131073, 196609]"
proof -
  let ?xs = "[OpPropose (Some [7]), OpElect, OpEnd 1, OpStepDown, OpPropose None]"
  have "ballots_made ?xs (NewProposer 1 2 2) = [65537, 131073, 196609]"
    by (simp add: NewProposer_def begin_proposal_def begin_election_def end_proposal_def StepDown_def Let_def MakeBallot_def)
  with new_ballot_above_earlier [of "NewProposer 1 2 2" ?xs] show ?thesis by (simp add: NewProposer_def)
qed

text \<open>The response buffer is large enough: if the messages routed to a fresh proposal are
  at most two per peer and all carry its instance and ballot, none is dropped and they are
  queued in order of arrival, while the other pending proposals are left alone.\<close>

theorem responses_not_dropped:
  assumes "pending p i = Some s" and "responses s = []"
    and "\<forall>m \<in> set ms. response_key m = Some (i, ps_ballot s)" and "length ms \<le> 2 * peerCount p"
  shows "pending (fold HandleResponse ms p) i = Some (s\<lparr>responses := ms\<rparr>)
    \<and> (\<forall>j. j \<noteq> i \<longrightarrow> pending (fold HandleResponse ms p) j = pending p j)"
proof -
  have "pending (fold HandleResponse ms p) i = Some (s\<lparr>responses := responses s @ ms\<rparr>)
      \<and> (\<forall>j. j \<noteq> i \<longrightarrow> pending (fold HandleResponse ms p) j = pending p j)"
    if "pending p i = Some s" "length (responses s @ ms) \<le> 2 * peerCount p"
      "\<forall>m \<in> set ms. response_key m = Some (i, ps_ballot s)" for p s
    using that
  proof (induction ms arbitrary: p s)
    case (Cons m ms)
    let ?s = "s\<lparr>responses := responses s @ [m]\<rparr>"
    have h: "HandleResponse m p = p\<lparr>pending := (pending p)(i \<mapsto> ?s)\<rparr>"
      using Cons.prems by (auto simp: HandleResponse_def responseBufferSize_def Let_def)
    show ?case using Cons.IH [of "HandleResponse m p" ?s] Cons.prems by (simp add: h)
  qed simp
  from this [OF assms(1) _ assms(3)] assms(2,4) show ?thesis by simp
qed

theorem responses_not_dropped_witness:
  "let p = snd (begin_proposal (Some [7]) (NewProposer 1 2 1));
       ms = [Promise 65537 1 2 0 None, Accepted 65537 1 2]
   in map_option responses (pending (fold HandleResponse ms p) 1) = Some ms"
proof -
  define p where "p = snd (begin_proposal (Some [7]) (NewProposer 1 2 1))"
  define s where "s = fst (begin_proposal (Some [7]) (NewProposer 1 2 1))"
  have mb: "MakeBallot 1 1 = 65537" by (simp add: MakeBallot_def)
  have "pending p 1 = Some s" "responses s = []" "ps_ballot s = 65537" "peerCount p = 1"
    by (simp_all add: p_def s_def begin_proposal_def NewProposer_def Let_def mb)
  with responses_not_dropped [of p 1 s "[Promise 65537 1 2 0 None, Accepted 65537 1 2]"]
  show ?thesis by (simp add: p_def Let_def)
qed

end
