(* ===== verification/Paxos_Node.thy ===== *)
theory Paxos_Node
  imports Proposer_Role
begin

text \<open>
  \<^verbatim>\<open>paxos/node.go\<close>: a node combines an acceptor, a proposer and a learner over one
  storage.  The state of the learner and of the leader election is guarded by one mutex, so
  each handler is one state transformation.  The clock and the random source are arguments
  (\<open>now\<close>, \<open>rnd\<close>); a handler that can panic returns an option, \<^term>\<open>None\<close> being the panic
  of \<^verbatim>\<open>rand.Int63n\<close> on a non-positive bound.  What a handler sends is part of its result.
\<close>

section \<open>State\<close>

type_synonym Time = int

record 's Node =
  config :: Config
  nodeID :: NodeID
  storage :: 's
  acceptor :: Acceptor
  proposer :: Proposer
  committed :: "Instance \<rightharpoonup> CommittedValue"
  lastCommitted :: Instance
  commitCh :: "CommittedValue list"
  currentLeader :: NodeID
  nd_leaderBallot :: Ballot
  electionDeadline :: Time
  electing :: bool
  started :: bool

definition commitCh_capacity :: nat where "commitCh_capacity = 100"

text \<open>A quorum is a majority of all nodes, the node itself included.\<close>

definition quorum_of_peers :: "nat \<Rightarrow> nat" where
  "quorum_of_peers peers = (let totalNodes = peers + 1 in totalNodes div 2 + 1)"

section \<open>Learner\<close>

definition handleCommit ::
  "'s Storage \<Rightarrow> Ballot \<Rightarrow> Instance \<Rightarrow> Value \<Rightarrow> 's Node \<Rightarrow> 's Node" where
  "handleCommit S ballot inst value n =
     (if committed n inst \<noteq> None then n
      else
        let cv = \<lparr>cv_Instance = inst, cv_Value = value, cv_Ballot = ballot\<rparr>;
            n = n\<lparr>committed := (committed n)(inst \<mapsto> cv)\<rparr>;
            n = (if inst > lastCommitted n then n\<lparr>lastCommitted := inst\<rparr> else n);
            entry = \<lparr>le_Instance = inst, le_Ballot = ballot, le_Value = value\<rparr>;
            n = n\<lparr>storage := snd (AppendLog S (storage n) entry)\<rparr>;
            n = n\<lparr>acceptor := ForgetInstance inst (acceptor n)\<rparr>
        in if length (commitCh n) < commitCh_capacity then n\<lparr>commitCh := commitCh n @ [cv]\<rparr> else n)"

definition GetCommitted :: "'s Node \<Rightarrow> Instance \<Rightarrow> CommittedValue \<times> bool" where
  "GetCommitted n inst =
     (go_get \<lparr>cv_Instance = 0, cv_Value = None, cv_Ballot = 0\<rparr> (committed n) inst,
      committed n inst \<noteq> None)"

definition LastCommitted :: "'s Node \<Rightarrow> Instance" where
  "LastCommitted n = lastCommitted n"

text \<open>The subscriber's receive: the oldest notification, if any.\<close>

definition Subscribe_recv :: "'s Node \<Rightarrow> (CommittedValue \<times> 's Node) option" where
  "Subscribe_recv n =
     (case commitCh n of [] \<Rightarrow> None | cv # cvs \<Rightarrow> Some (cv, n\<lparr>commitCh := cvs\<rparr>))"

section \<open>Construction and recovery\<close>

definition recover_entry :: "'s Node \<Rightarrow> LogEntry \<Rightarrow> 's Node" where
  "recover_entry n entry =
     (let n = n\<lparr>committed := (committed n)(le_Instance entry \<mapsto>
                 \<lparr>cv_Instance = le_Instance entry, cv_Value = le_Value entry,
                  cv_Ballot = le_Ballot entry\<rparr>)\<rparr>
      in if le_Instance entry > lastCommitted n then n\<lparr>lastCommitted := le_Instance entry\<rparr> else n)"

definition recoverLog :: "'s Storage \<Rightarrow> 's Node \<Rightarrow> 's Node result" where
  "recoverLog S n =
     (case GetLastInstance S (storage n) of (last_inst, err) \<Rightarrow>
        if err \<noteq> None \<and> err \<noteq> Some ErrNotFound then Inl (the err)
        else if last_inst = 0 then Inr n
        else (case GetLogRange S (storage n) 1 (last_inst + 1) of
                (entries, Some e) \<Rightarrow> Inl e
              | (entries, None) \<Rightarrow> Inr (foldl recover_entry n entries)))"

text \<open>The storage \<open>st\<close> is the configured one (or a fresh in-memory storage).\<close>

definition NewNode :: "'s Storage \<Rightarrow> 's \<Rightarrow> Config \<Rightarrow> 's Node result" where
  "NewNode S st cfg0 =
     (let cfg = WithDefaults cfg0 in
      case Validate cfg of
        Some e \<Rightarrow> Inl e
      | None \<Rightarrow>
          let quorum = quorum_of_peers (length (cfg_Peers cfg)) in
          res_bind (NewAcceptor (cfg_NodeID cfg) (Some S) st) (\<lambda>a.
            let p = NewProposer (cfg_NodeID cfg) quorum (length (cfg_Peers cfg));
                p = SetTimeouts (PrepareTimeout cfg) (AcceptTimeout cfg) p;
                n = \<lparr>config = cfg, nodeID = cfg_NodeID cfg, storage = st, acceptor = a, proposer = p,
                     committed = Map.empty, lastCommitted = 0, commitCh = [], currentLeader = 0,
                     nd_leaderBallot = 0, electionDeadline = 0, electing = False, started = False\<rparr>
            in recoverLog S n))"

section \<open>Leader election\<close>

definition randomElectionTimeout :: "Config \<Rightarrow> Duration \<Rightarrow> Duration option" where
  "randomElectionTimeout cfg rnd =
     (let base = ElectionTimeout cfg in if sint base \<le> 0 then None else Some (base + rnd))"

definition resetElectionDeadline :: "Time \<Rightarrow> Duration \<Rightarrow> 's Node \<Rightarrow> 's Node option" where
  "resetElectionDeadline now rnd n =
     map_option (\<lambda>d. n\<lparr>electionDeadline := now + sint d\<rparr>) (randomElectionTimeout (config n) rnd)"

definition handleHeartbeat ::
  "Ballot \<Rightarrow> NodeID \<Rightarrow> Time \<Rightarrow> Duration \<Rightarrow> 's Node \<Rightarrow> 's Node option" where
  "handleHeartbeat ballot leaderID now rnd n =
     (if ballot \<ge> nd_leaderBallot n
      then
        (case resetElectionDeadline now rnd (n\<lparr>currentLeader := leaderID, nd_leaderBallot := ballot\<rparr>) of
           None \<Rightarrow> None
         | Some n \<Rightarrow>
             Some (if IsLeader (proposer n) \<and> leaderID \<noteq> nodeID n
                   then n\<lparr>proposer := StepDown (proposer n)\<rparr> else n))
      else Some n)"

definition sendHeartbeat :: "Instance \<Rightarrow> 's Node \<Rightarrow> Message" where
  "sendHeartbeat last_committed n =
     Heartbeat (LeaderBallot (proposer n)) (nodeID n) last_committed"

text \<open>One tick of the election loop: the new state, the messages broadcast, and whether an
  election is started.\<close>

definition checkLeaderAndHeartbeat ::
  "Time \<Rightarrow> Duration \<Rightarrow> 's Node \<Rightarrow> ('s Node \<times> Message list \<times> bool) option" where
  "checkLeaderAndHeartbeat now rnd n =
     (if IsLeader (proposer n)
      then Some (n, [sendHeartbeat (lastCommitted n) n], False)
      else if \<not> electing n \<and> now > electionDeadline n
      then map_option (\<lambda>n. (n, [], True)) (resetElectionDeadline now rnd (n\<lparr>electing := True\<rparr>))
      else Some (n, [], False))"

text \<open>
  A whole election.  \<open>now\<close> and \<open>rnd\<close> are the clock and the random draw when it ends.  The
  deferred function clears \<open>electing\<close> on every way out.
\<close>

definition startElection ::
  "'s Storage \<Rightarrow> (Message \<Rightarrow> error option) \<Rightarrow> Message list \<Rightarrow> Time \<Rightarrow> Duration \<Rightarrow> 's Node
     \<Rightarrow> ('s Node \<times> Message list) option" where
  "startElection S bcast msgs now rnd n =
     (case BecomeLeader (Some S) bcast msgs (proposer n) (Some (acceptor n)) (storage n) of
        (err, eff, p, ao, st) \<Rightarrow>
          let n = n\<lparr>proposer := p, acceptor := the ao, storage := st\<rparr>;
              sent = [m. SentBroadcast m \<leftarrow> eff]
          in case err of
               Some e \<Rightarrow>
                 map_option (\<lambda>n. (n\<lparr>electing := False\<rparr>, sent)) (resetElectionDeadline now rnd n)
             | None \<Rightarrow>
                 map_option (\<lambda>n. (n\<lparr>electing := False\<rparr>, sent @ [sendHeartbeat (lastCommitted n) n]))
                   (resetElectionDeadline now rnd
                     (n\<lparr>currentLeader := nodeID n, nd_leaderBallot := LeaderBallot (proposer n)\<rparr>)))"

section \<open>Messages\<close>

text \<open>\<open>MessageEnvelope\<close>: the sender as learned from the connection, and the message.  The
  result lists what is sent back; a failed send is only logged.\<close>

definition handleMessage ::
  "'s Storage \<Rightarrow> Time \<Rightarrow> Duration \<Rightarrow> NodeID \<Rightarrow> Message \<Rightarrow> 's Node
     \<Rightarrow> ('s Node \<times> (NodeID \<times> Message) list) option" where
  "handleMessage S now rnd from msg n =
     (case msg of
        Prepare b i \<Rightarrow>
          (case HandlePrepare (Some S) b i (acceptor n) (storage n) of (response, a, st) \<Rightarrow>
             Some (n\<lparr>acceptor := a, storage := st\<rparr>, [(from, response)]))
      | Accept b i v \<Rightarrow>
          (case HandleAccept (Some S) b i v (acceptor n) (storage n) of (response, a, st) \<Rightarrow>
             Some (n\<lparr>acceptor := a, storage := st\<rparr>, [(from, response)]))
      | Commit b i v \<Rightarrow> Some (handleCommit S b i v n, [])
      | Heartbeat b l i \<Rightarrow> map_option (\<lambda>n. (n, [])) (handleHeartbeat b l now rnd n)
      | _ \<Rightarrow> Some (n\<lparr>proposer := HandleResponse msg (proposer n)\<rparr>, []))"

section \<open>Client interface and life cycle\<close>

text \<open>\<open>Start\<close>: \<open>listenErr\<close> is what the transport's \<open>Listen\<close> returns; failed connects are
  only logged.\<close>

definition Start :: "error option \<Rightarrow> Time \<Rightarrow> Duration \<Rightarrow> 's Node \<Rightarrow> (error option \<times> 's Node) option" where
  "Start listenErr now rnd n =
     (if started n then Some (None, n)
      else let n = n\<lparr>started := True\<rparr> in
        case listenErr of
          Some e \<Rightarrow> Some (Some e, n)
        | None \<Rightarrow> map_option (\<lambda>n. (None, n)) (resetElectionDeadline now rnd n))"

text \<open>The effects of a proposal on its own node: \<open>onCommit\<close> is \<open>handleCommit\<close>.\<close>

fun apply_effect :: "'s Storage \<Rightarrow> effect \<Rightarrow> 's Node \<Rightarrow> 's Node" where
  "apply_effect S (CalledOnCommit (Commit b i v)) n = handleCommit S b i v n"
| "apply_effect S _ n = n"

definition node_Propose ::
  "'s Storage \<Rightarrow> (Message \<Rightarrow> error option) \<Rightarrow> Value \<Rightarrow> Message list \<Rightarrow> Message list \<Rightarrow> 's Node
     \<Rightarrow> Instance result \<times> Message list \<times> 's Node" where
  "node_Propose S bcast value msgs1 msgs2 n =
     (if \<not> started n then (Inl ErrShutdown, [], n)
      else case Propose (Some S) bcast True value msgs1 msgs2 (proposer n) (Some (acceptor n)) (storage n) of
        (r, eff, p, ao, st) \<Rightarrow>
          (r, [m. SentBroadcast m \<leftarrow> eff],
           fold (apply_effect S) eff (n\<lparr>proposer := p, acceptor := the ao, storage := st\<rparr>)))"

definition node_IsLeader :: "'s Node \<Rightarrow> bool" where
  "node_IsLeader n = IsLeader (proposer n)"

text \<open>\<open>Close\<close>: the transport is closed first, then the storage; the first error is returned.\<close>

definition node_Close :: "'s Storage \<Rightarrow> error option \<Rightarrow> 's Node \<Rightarrow> error option \<times> 's Node" where
  "node_Close S transportErr n =
     (case transportErr of
        Some e \<Rightarrow> (Some e, n)
      | None \<Rightarrow> (case CloseStorage S (storage n) of (err, st) \<Rightarrow> (err, n\<lparr>storage := st\<rparr>)))"

section \<open>Majorities\<close>

lemma majorities_meet:
  assumes "finite M" "card M = peers + 1" "A \<subseteq> M" "B \<subseteq> M"
    "quorum_of_peers peers \<le> card A" "quorum_of_peers peers \<le> card B"
  shows "A \<inter> B \<noteq> {}"
proof
  assume "A \<inter> B = {}"
  moreover have "finite A" "finite B" using assms(1,3,4) by (auto intro: finite_subset)
  ultimately have "card A + card B = card (A \<union> B)" by (simp add: card_Un_disjoint)
  also have "\<dots> \<le> card M" using assms(1,3,4) by (intro card_mono) auto
  finally show False using assms(2,5,6) by (simp add: quorum_of_peers_def Let_def)
qed

section \<open>What the handlers change\<close>

lemma handleCommit_known [simp]: "committed n i \<noteq> None \<Longrightarrow> handleCommit S b i v n = n"
  by (simp add: handleCommit_def)

lemma handleCommit_new:
  assumes "committed n i = None"
  shows "committed (handleCommit S b i v n) =
      (committed n)(i \<mapsto> \<lparr>cv_Instance = i, cv_Value = v, cv_Ballot = b\<rparr>)"
    and "lastCommitted (handleCommit S b i v n) = max i (lastCommitted n)"
    and "acceptor (handleCommit S b i v n) = ForgetInstance i (acceptor n)"
    and "storage (handleCommit S b i v n) =
      snd (AppendLog S (storage n) \<lparr>le_Instance = i, le_Ballot = b, le_Value = v\<rparr>)"
    and "commitCh (handleCommit S b i v n) = (if length (commitCh n) < commitCh_capacity
      then commitCh n @ [\<lparr>cv_Instance = i, cv_Value = v, cv_Ballot = b\<rparr>] else commitCh n)"
  using assms by (simp_all add: handleCommit_def Let_def max_def) auto

lemma handleCommit_frame [simp]:
  "config (handleCommit S b i v n) = config n"
  "nodeID (handleCommit S b i v n) = nodeID n"
  "proposer (handleCommit S b i v n) = proposer n"
  "currentLeader (handleCommit S b i v n) = currentLeader n"
  "nd_leaderBallot (handleCommit S b i v n) = nd_leaderBallot n"
  "electionDeadline (handleCommit S b i v n) = electionDeadline n"
  "electing (handleCommit S b i v n) = electing n"
  "started (handleCommit S b i v n) = started n"
  by (simp_all add: handleCommit_def Let_def)

lemma handleCommit_committed: "committed (handleCommit S b i v n) i \<noteq> None"
  by (cases "committed n i = None") (simp_all add: handleCommit_new)

lemma resetElectionDeadline_Some:
  "resetElectionDeadline now rnd n = Some n' \<Longrightarrow> \<exists>d. n' = n\<lparr>electionDeadline := d\<rparr>"
  by (auto simp: resetElectionDeadline_def)

lemma handleHeartbeat_cases:
  assumes "handleHeartbeat b l now rnd n = Some n'"
  obtains (stale) "b < nd_leaderBallot n" "n' = n"
  | (heard) d where "nd_leaderBallot n \<le> b"
      "n' = n\<lparr>currentLeader := l, nd_leaderBallot := b, electionDeadline := d,
              proposer := (if IsLeader (proposer n) \<and> l \<noteq> nodeID n then StepDown (proposer n) else proposer n)\<rparr>"
proof (cases "nd_leaderBallot n \<le> b")
  case False
  with assms show ?thesis by (intro stale) (auto simp: handleHeartbeat_def)
next
  case True
  then obtain n1 where n1: "resetElectionDeadline now rnd (n\<lparr>currentLeader := l, nd_leaderBallot := b\<rparr>) = Some n1"
    using assms by (auto simp: handleHeartbeat_def split: option.splits)
  from resetElectionDeadline_Some [OF this] obtain d where
    "n1 = n\<lparr>currentLeader := l, nd_leaderBallot := b, electionDeadline := d\<rparr>" by auto
  with True assms n1 show ?thesis
    by (intro heard [of d]; cases "IsLeader (proposer n) \<and> l \<noteq> nodeID n") (auto simp: handleHeartbeat_def)
qed

text \<open>
  What a step does to the acceptor, the storage and the learner is a sequence of acceptor
  requests and commits; everything else a handler writes (proposer, election state, flags,
  the subscription) is outside this view.
\<close>

datatype act = ActPrepare Ballot Instance | ActAccept Ballot Instance Value | ActCommit Ballot Instance Value

fun do_act :: "'s Storage \<Rightarrow> act \<Rightarrow> 's Node \<Rightarrow> 's Node" where
  "do_act S (ActPrepare b i) n =
     (case HandlePrepare (Some S) b i (acceptor n) (storage n) of (_, a, st) \<Rightarrow> n\<lparr>acceptor := a, storage := st\<rparr>)"
| "do_act S (ActAccept b i v) n =
     (case HandleAccept (Some S) b i v (acceptor n) (storage n) of (_, a, st) \<Rightarrow> n\<lparr>acceptor := a, storage := st\<rparr>)"
| "do_act S (ActCommit b i v) n = handleCommit S b i v n"

definition same_data :: "'s Node \<Rightarrow> 's Node \<Rightarrow> bool" where
  "same_data n n' \<longleftrightarrow> config n' = config n \<and> nodeID n' = nodeID n \<and> storage n' = storage n \<and>
     acceptor n' = acceptor n \<and> committed n' = committed n \<and> lastCommitted n' = lastCommitted n"

lemma same_data_refl [simp]: "same_data n n"
  by (simp add: same_data_def)

lemma same_data_handleCommit:
  "same_data n n' \<Longrightarrow> same_data (handleCommit S b i v n) (handleCommit S b i v n')"
  by (simp add: same_data_def handleCommit_def Let_def)

lemma same_data_acts:
  "same_data n n' \<Longrightarrow> same_data (fold (do_act S) acts n) (fold (do_act S) acts n')"
proof (induction acts arbitrary: n n')
  case (Cons x acts)
  have "same_data (do_act S x n) (do_act S x n')"
  proof (cases x)
    case (ActCommit b i v)
    then show ?thesis using Cons.prems by (simp add: same_data_handleCommit)
  qed (use Cons.prems in \<open>auto simp: same_data_def split: prod.splits\<close>)
  then show ?case by (simp add: Cons.IH)
qed simp

lemma apply_effects_acts:
  "\<exists>acts. fold (apply_effect S) eff n = fold (do_act S) acts n"
proof (induction eff arbitrary: n)
  case (Cons e eff)
  have "\<exists>as. apply_effect S e n = fold (do_act S) as n"
  proof (cases e)
    case (CalledOnCommit m)
    show ?thesis
    proof (cases m)
      case (Commit b i v)
      with CalledOnCommit show ?thesis by (intro exI [of _ "[ActCommit b i v]"]) simp
    qed (use CalledOnCommit in \<open>auto intro: exI [of _ "[]"]\<close>)
  qed (auto intro: exI [of _ "[]"])
  then obtain as where "apply_effect S e n = fold (do_act S) as n" ..
  moreover obtain bs where "fold (apply_effect S) eff (apply_effect S e n) = fold (do_act S) bs (apply_effect S e n)"
    using Cons.IH by blast
  ultimately show ?case by (intro exI [of _ "as @ bs"]) simp
qed (auto intro: exI [of _ "[]"])

section \<open>Runs of one node\<close>

text \<open>One node under any inputs: messages from the network, ticks of the election loop,
  whole elections and proposals with any answers, the subscriber, and \<open>Start\<close>.\<close>

inductive node_step :: "'s Storage \<Rightarrow> 's Node \<Rightarrow> 's Node \<Rightarrow> bool" for S where
  message: "handleMessage S now rnd from msg n = Some (n', out) \<Longrightarrow> node_step S n n'"
| tick: "checkLeaderAndHeartbeat now rnd n = Some (n', out, elect) \<Longrightarrow> node_step S n n'"
| election: "startElection S bcast msgs now rnd n = Some (n', out) \<Longrightarrow> node_step S n n'"
| propose: "node_Propose S bcast value msgs1 msgs2 n = (r, out, n') \<Longrightarrow> node_step S n n'"
| receive: "Subscribe_recv n = Some (cv, n') \<Longrightarrow> node_step S n n'"
| start: "Start listenErr now rnd n = Some (err, n') \<Longrightarrow> node_step S n n'"

inductive node_reachable :: "'s Storage \<Rightarrow> 's \<Rightarrow> Config \<Rightarrow> 's Node \<Rightarrow> bool" for S st cfg where
  init: "NewNode S st cfg = Inr n \<Longrightarrow> node_reachable S st cfg n"
| step: "node_reachable S st cfg n \<Longrightarrow> node_step S n n' \<Longrightarrow> node_reachable S st cfg n'"

lemma propose_acts:
  assumes "node_Propose S bcast value msgs1 msgs2 n = (r, out, n')"
  shows "\<exists>acts. same_data (fold (do_act S) acts n) n'"
proof (cases "started n")
  case False
  with assms show ?thesis by (intro exI [of _ "[]"]) (simp add: node_Propose_def)
next
  case True
  obtain state p1 where bp: "begin_proposal value (proposer n) = (state, p1)" by fastforce
  let ?b = "ps_ballot state" and ?i = "ps_instance state" and ?q = "quorumSize (proposer n)"
  obtain x rest eff1 ao1 st1 where r1:
    "runPhase1 (Some S) bcast ?q ?b ?i msgs1 (Some (acceptor n)) (storage n) = (x, rest, eff1, ao1, st1)"
    by (metis prod_cases5)
  from runPhase1_acceptor [OF r1] obtain m a1 where
    h1: "HandlePrepare (Some S) ?b ?i (acceptor n) (storage n) = (m, a1, st1)" and ao1: "ao1 = Some a1"
    by blast
  have "\<exists>acts a2 st2 p2 eff. fold (do_act S) acts n = n\<lparr>acceptor := a2, storage := st2\<rparr>
      \<and> n' = fold (apply_effect S) eff (n\<lparr>proposer := p2, acceptor := a2, storage := st2\<rparr>)"
  proof (cases x)
    case (Inl e)
    with assms True bp r1 ao1 show ?thesis
      by (intro exI [of _ "[ActPrepare ?b ?i]"] exI [of _ a1] exI [of _ st1]
          exI [of _ "end_proposal ?i p1"] exI [of _ eff1])
         (simp add: node_Propose_def Propose_def Let_def h1)
  next
    case (Inr av)
    let ?v = "value_to_propose av (ps_value state)"
    obtain y eff2 ao2 st2 where r2:
      "runPhase2 (Some S) bcast True ?q ?b ?i ?v (rest @ msgs2) (Some a1) st1 = (y, eff2, ao2, st2)"
      by (metis prod_cases4)
    from runPhase2_acceptor [OF r2] obtain m2 a2 where
      h2: "HandleAccept (Some S) ?b ?i ?v a1 st1 = (m2, a2, st2)" and ao2: "ao2 = Some a2" by blast
    from Inr assms True bp r1 ao1 r2 ao2 show ?thesis
      by (intro exI [of _ "[ActPrepare ?b ?i, ActAccept ?b ?i ?v]"] exI [of _ a2] exI [of _ st2]
          exI [of _ "end_proposal ?i p1"] exI [of _ "eff1 @ eff2"])
         (cases y; simp add: node_Propose_def Propose_def Let_def h1 h2)
  qed
  then obtain acts a2 st2 p2 eff where 1: "fold (do_act S) acts n = n\<lparr>acceptor := a2, storage := st2\<rparr>"
    and 2: "n' = fold (apply_effect S) eff (n\<lparr>proposer := p2, acceptor := a2, storage := st2\<rparr>)" by blast
  from apply_effects_acts obtain acts2 where 3: "fold (apply_effect S) eff
      (n\<lparr>proposer := p2, acceptor := a2, storage := st2\<rparr>)
    = fold (do_act S) acts2 (n\<lparr>proposer := p2, acceptor := a2, storage := st2\<rparr>)" by blast
  have "same_data (fold (do_act S) acts2 (n\<lparr>acceptor := a2, storage := st2\<rparr>))
    (fold (do_act S) acts2 (n\<lparr>proposer := p2, acceptor := a2, storage := st2\<rparr>))"
    by (rule same_data_acts) (simp add: same_data_def)
  with 1 2 3 show ?thesis by (intro exI [of _ "acts @ acts2"]) simp
qed

lemma startElection_acts:
  assumes "startElection S bcast msgs now rnd n = Some (n', out)"
  shows "\<exists>acts. same_data (fold (do_act S) acts n) n'"
proof -
  obtain state p1 where bp: "begin_election (proposer n) = (state, p1)" by fastforce
  let ?b = "ps_ballot state"
  obtain x rest eff ao1 st1 where r1: "runPhase1 (Some S) bcast (quorumSize (proposer n)) ?b 0 msgs
      (Some (acceptor n)) (storage n) = (x, rest, eff, ao1, st1)" by (metis prod_cases5)
  from runPhase1_acceptor [OF r1] obtain m a1 where
    h1: "HandlePrepare (Some S) ?b 0 (acceptor n) (storage n) = (m, a1, st1)" and ao1: "ao1 = Some a1"
    by blast
  have "same_data (n\<lparr>acceptor := a1, storage := st1\<rparr>) n'"
    using assms bp r1 ao1
    by (cases x) (auto simp: startElection_def BecomeLeader_def Let_def same_data_def
      dest!: resetElectionDeadline_Some)
  then show ?thesis by (intro exI [of _ "[ActPrepare ?b 0]"]) (simp add: h1)
qed

lemma handleMessage_acts:
  assumes "handleMessage S now rnd from msg n = Some (n', out)"
  shows "\<exists>acts. same_data (fold (do_act S) acts n) n'"
proof (cases msg)
  case (Prepare b i)
  with assms show ?thesis
    by (intro exI [of _ "[ActPrepare b i]"]) (auto simp: handleMessage_def split: prod.splits)
next
  case (Accept b i v)
  with assms show ?thesis
    by (intro exI [of _ "[ActAccept b i v]"]) (auto simp: handleMessage_def split: prod.splits)
next
  case (Commit b i v)
  with assms show ?thesis
    by (intro exI [of _ "[ActCommit b i v]"]) (simp add: handleMessage_def)
next
  case (Heartbeat b l i)
  with assms show ?thesis
    by (intro exI [of _ "[]"]) (auto simp: handleMessage_def same_data_def elim!: handleHeartbeat_cases)
qed (use assms in \<open>intro exI [of _ "[]"]; auto simp: handleMessage_def same_data_def\<close>)+

lemma node_step_acts: "node_step S n n' \<Longrightarrow> \<exists>acts. same_data (fold (do_act S) acts n) n'"
proof (induction rule: node_step.induct)
  case (tick now rnd n n' out elect)
  then show ?case
    by (intro exI [of _ "[]"]) (auto simp: checkLeaderAndHeartbeat_def same_data_def
      dest!: resetElectionDeadline_Some split: if_splits)
next
  case (receive n cv n')
  then show ?case
    by (intro exI [of _ "[]"]) (auto simp: Subscribe_recv_def same_data_def split: list.splits)
next
  case (start listenErr now rnd n err n')
  then show ?case
    by (intro exI [of _ "[]"]) (auto simp: Start_def Let_def same_data_def
      dest!: resetElectionDeadline_Some split: if_splits option.splits)
qed (fact handleMessage_acts propose_acts startElection_acts)+

section \<open>Invariants of a node\<close>

text \<open>The learner: a value is stored under its own instance, and \<open>lastCommitted\<close> is the
  highest committed instance.\<close>

definition learner_inv :: "'s Node \<Rightarrow> bool" where
  "learner_inv n \<longleftrightarrow> (\<forall>i cv. committed n i = Some cv \<longrightarrow> cv_Instance cv = i \<and> i \<le> lastCommitted n)
     \<and> (lastCommitted n \<noteq> 0 \<longrightarrow> committed n (lastCommitted n) \<noteq> None)"

lemma learner_inv_upd:
  assumes "learner_inv n" "committed n' = (committed n)(i \<mapsto> cv)" "cv_Instance cv = i"
    "lastCommitted n' = max i (lastCommitted n)"
  shows "learner_inv n'"
  unfolding learner_inv_def
proof (intro conjI allI impI)
  fix j x assume "committed n' j = Some x"
  then show "cv_Instance x = j" "j \<le> lastCommitted n'"
    using assms by (auto simp: learner_inv_def le_max_iff_disj split: if_splits)
next
  assume "lastCommitted n' \<noteq> 0"
  then show "committed n' (lastCommitted n') \<noteq> None"
    using assms by (cases "lastCommitted n \<le> i") (auto simp: learner_inv_def max_def)
qed

lemma learner_inv_commit: "learner_inv n \<Longrightarrow> learner_inv (handleCommit S b i v n)"
proof (cases "committed n i = None")
  case True
  show "learner_inv n \<Longrightarrow> ?thesis"
    by (rule learner_inv_upd [OF _ handleCommit_new(1) [OF True] _ handleCommit_new(2) [OF True]]) simp_all
qed simp

lemma do_act_commits:
  assumes "committed n i = Some cv"
  shows "committed (do_act S x n) i = Some cv"
proof (cases x)
  case (ActCommit b j v)
  then show ?thesis using assms
    by (cases "committed n j = None") (auto simp: handleCommit_new)
qed (use assms in \<open>auto split: prod.splits\<close>)

lemma do_act_learner: "learner_inv n \<Longrightarrow> learner_inv (do_act S x n)"
proof (cases x)
  case (ActCommit b j v)
  then show "learner_inv n \<Longrightarrow> ?thesis" by (simp add: learner_inv_commit)
qed (auto simp: learner_inv_def split: prod.splits)

lemma node_step_committed:
  assumes "node_step S n n'" "committed n i = Some cv"
  shows "committed n' i = Some cv"
proof -
  have "committed (fold (do_act S) acts n) i = Some cv" for acts
    using assms(2) by (induction acts arbitrary: n) (simp_all add: do_act_commits)
  with node_step_acts [OF assms(1)] show ?thesis by (auto simp: same_data_def)
qed

lemma node_step_learner:
  assumes "node_step S n n'" "learner_inv n"
  shows "learner_inv n'"
proof -
  have "learner_inv (fold (do_act S) acts n)" for acts
    using assms(2) by (induction acts arbitrary: n) (simp_all add: do_act_learner)
  with node_step_acts [OF assms(1)] show ?thesis by (auto simp: same_data_def learner_inv_def)
qed

definition cv_of :: "LogEntry \<Rightarrow> CommittedValue" where
  "cv_of e = \<lparr>cv_Instance = le_Instance e, cv_Value = le_Value e, cv_Ballot = le_Ballot e\<rparr>"

lemma recover_entry_simps [simp]:
  "committed (recover_entry n e) = (committed n)(le_Instance e \<mapsto> cv_of e)"
  "lastCommitted (recover_entry n e) = max (le_Instance e) (lastCommitted n)"
  "commitCh (recover_entry n e) = commitCh n"
  "acceptor (recover_entry n e) = acceptor n" "storage (recover_entry n e) = storage n"
  "proposer (recover_entry n e) = proposer n" "nodeID (recover_entry n e) = nodeID n"
  "config (recover_entry n e) = config n" "started (recover_entry n e) = started n"
  by (simp_all add: recover_entry_def Let_def cv_of_def max_def) auto

lemma recover_entries_frame [simp]:
  "commitCh (foldl recover_entry n es) = commitCh n"
  "acceptor (foldl recover_entry n es) = acceptor n" "storage (foldl recover_entry n es) = storage n"
  "proposer (foldl recover_entry n es) = proposer n" "nodeID (foldl recover_entry n es) = nodeID n"
  "config (foldl recover_entry n es) = config n" "started (foldl recover_entry n es) = started n"
  by (induction es rule: rev_induct) simp_all

lemma recover_entries_learner: "learner_inv n \<Longrightarrow> learner_inv (foldl recover_entry n es)"
proof (induction es rule: rev_induct)
  case (snoc e es)
  have "learner_inv (recover_entry (foldl recover_entry n es) e)"
    by (rule learner_inv_upd [OF snoc.IH [OF snoc.prems] recover_entry_simps(1) _ recover_entry_simps(2)])
       (simp add: cv_of_def)
  then show ?case by simp
qed simp

lemma recover_entries_committed:
  assumes "distinct (map le_Instance es)"
  shows "committed (foldl recover_entry n es) i =
    (case find (\<lambda>e. le_Instance e = i) es of Some e \<Rightarrow> Some (cv_of e) | None \<Rightarrow> committed n i)"
  using assms
proof (induction es rule: rev_induct)
  case (snoc e es)
  have "find (\<lambda>e. le_Instance e = i) (es @ [e]) =
      (if le_Instance e = i then Some e else find (\<lambda>e. le_Instance e = i) es)"
    using snoc.prems by (induction es) auto
  with snoc show ?case by simp
qed simp

lemma NewNode_cases:
  assumes "NewNode S st cfg = Inr n"
  obtains a es where "Validate (WithDefaults cfg) = None"
    "NewAcceptor (cfg_NodeID (WithDefaults cfg)) (Some S) st = Inr a"
    "acceptor n = a" "storage n = st" "commitCh n = []" "config n = WithDefaults cfg"
    "nodeID n = cfg_NodeID (WithDefaults cfg)" "learner_inv n"
    "proposer n = SetTimeouts (PrepareTimeout (WithDefaults cfg)) (AcceptTimeout (WithDefaults cfg))
       (NewProposer (nodeID n) (quorum_of_peers (length (cfg_Peers (WithDefaults cfg))))
         (length (cfg_Peers (WithDefaults cfg))))" "\<not> started n"
proof -
  let ?cfg = "WithDefaults cfg"
  from assms have v: "Validate ?cfg = None"
    by (simp add: NewNode_def Let_def split: option.splits)
  with assms obtain a where a: "NewAcceptor (cfg_NodeID ?cfg) (Some S) st = Inr a"
    by (cases "NewAcceptor (cfg_NodeID ?cfg) (Some S) st") (simp_all add: NewNode_def Let_def)
  define p where "p = SetTimeouts (PrepareTimeout ?cfg) (AcceptTimeout ?cfg)
    (NewProposer (cfg_NodeID ?cfg) (quorum_of_peers (length (cfg_Peers ?cfg))) (length (cfg_Peers ?cfg)))"
  define n0 where "n0 = \<lparr>config = ?cfg, nodeID = cfg_NodeID ?cfg, storage = st, acceptor = a, proposer = p,
    committed = Map.empty, lastCommitted = 0, commitCh = [], currentLeader = 0,
    nd_leaderBallot = 0, electionDeadline = 0, electing = False, started = False\<rparr>"
  from assms v a have r: "recoverLog S n0 = Inr n" by (simp add: NewNode_def Let_def n0_def p_def)
  have "learner_inv n0" by (simp add: learner_inv_def n0_def)
  then have "n = n0 \<or> (\<exists>es. n = foldl recover_entry n0 es)" "learner_inv n"
    using r by (auto simp: recoverLog_def recover_entries_learner split: prod.splits if_splits option.splits)
  with v a show thesis
    by (intro that) (auto simp: n0_def p_def)
qed

text \<open>The subscription: pending notifications are about committed values, each instance at
  most once, and no more of them than the channel holds.\<close>

definition channel_inv :: "'s Node \<Rightarrow> bool" where
  "channel_inv n \<longleftrightarrow> distinct (map cv_Instance (commitCh n))
     \<and> (\<forall>cv \<in> set (commitCh n). committed n (cv_Instance cv) = Some cv)
     \<and> length (commitCh n) \<le> commitCh_capacity"

lemma channel_inv_cong:
  "commitCh n' = commitCh n \<Longrightarrow> committed n' = committed n \<Longrightarrow> channel_inv n \<Longrightarrow> channel_inv n'"
  by (simp add: channel_inv_def)

lemma channel_inv_commit: "channel_inv n \<Longrightarrow> channel_inv (handleCommit S b i v n)"
proof (cases "committed n i = None")
  case True
  assume inv: "channel_inv n"
  then have "i \<notin> cv_Instance ` set (commitCh n)" using True by (auto simp: channel_inv_def)
  with inv True show ?thesis by (auto simp: channel_inv_def handleCommit_new)
qed simp

lemma channel_inv_effects: "channel_inv n \<Longrightarrow> channel_inv (fold (apply_effect S) eff n)"
proof (induction eff arbitrary: n)
  case (Cons e eff)
  have "channel_inv (apply_effect S e n)"
    using Cons.prems by (cases "(S, e, n)" rule: apply_effect.cases) (simp_all add: channel_inv_commit)
  then show ?case by (simp add: Cons.IH)
qed simp

lemma node_step_channel: "node_step S n n' \<Longrightarrow> channel_inv n \<Longrightarrow> channel_inv n'"
proof (induction rule: node_step.induct)
  case (message now rnd "from" msg n n' out)
  show ?case
  proof (cases msg)
    case (Commit b i v)
    with message show ?thesis by (auto simp: handleMessage_def channel_inv_commit)
  next
    case (Heartbeat b l i)
    with message show ?thesis
      by (auto simp: handleMessage_def elim!: handleHeartbeat_cases intro: channel_inv_cong [of _ n])
  qed (use message in \<open>auto simp: handleMessage_def split: prod.splits intro: channel_inv_cong [of _ n]\<close>)
next
  case (tick now rnd n n' out elect)
  then show ?case
    by (auto simp: checkLeaderAndHeartbeat_def dest!: resetElectionDeadline_Some split: if_splits
      intro: channel_inv_cong [of _ n])
next
  case (election bcast msgs now rnd n n' out)
  then show ?case
    by (auto simp: startElection_def Let_def dest!: resetElectionDeadline_Some
      split: prod.splits option.splits intro: channel_inv_cong [of _ n])
next
  case (propose bcast "value" msgs1 msgs2 n r out n')
  show ?case
  proof (cases "started n")
    case False
    with propose show ?thesis by (simp add: node_Propose_def)
  next
    case True
    with propose obtain eff p a st where "n' = fold (apply_effect S) eff (n\<lparr>proposer := p, acceptor := a, storage := st\<rparr>)"
      by (auto simp: node_Propose_def split: prod.splits)
    then show ?thesis using propose(2) by (simp add: channel_inv_effects channel_inv_cong [of _ n])
  qed
next
  case (receive n cv n')
  then show ?case by (auto simp: Subscribe_recv_def channel_inv_def split: list.splits)
next
  case (start listenErr now rnd n err n')
  then show ?case
    by (auto simp: Start_def Let_def dest!: resetElectionDeadline_Some
      split: if_splits option.splits intro: channel_inv_cong [of _ n])
qed

section \<open>Durability of a node\<close>

text \<open>Outside the committed instances the saved acceptor state is the acceptor's state.\<close>

definition node_stored :: "('s \<Rightarrow> AcceptorState) \<Rightarrow> ('s \<Rightarrow> bool) \<Rightarrow> 's Node \<Rightarrow> bool" where
  "node_stored saved ok n \<longleftrightarrow> ok (storage n) \<and> acc_inv (acceptor n)
     \<and> (\<forall>i. committed n i = None \<longrightarrow> lockstep_at i (acceptor n) (saved (storage n)))"

text \<open>The log holds exactly the committed values, copied.\<close>

definition log_entry_of :: "CommittedValue \<Rightarrow> LogEntry" where
  "log_entry_of cv = \<lparr>le_Instance = cv_Instance cv, le_Ballot = cv_Ballot cv, le_Value = slice_copy (cv_Value cv)\<rparr>"

definition node_logged :: "('s \<Rightarrow> Instance \<rightharpoonup> LogEntry) \<Rightarrow> 's Node \<Rightarrow> bool" where
  "node_logged logged n \<longleftrightarrow> (\<forall>i. logged (storage n) i = map_option log_entry_of (committed n i))"

context storage_contract
begin

lemma node_stored_commit: "node_stored saved inv n \<Longrightarrow> node_stored saved inv (handleCommit S b i v n)"
proof (cases "committed n i = None")
  case True
  then show "node_stored saved inv n \<Longrightarrow> ?thesis"
    by (auto simp: node_stored_def handleCommit_new append_inv append_saved ForgetInstance_inv lockstep_at_forget
      split: if_splits)
qed simp

lemma node_stored_act: "node_stored saved inv n \<Longrightarrow> node_stored saved inv (do_act S x n)"
proof (cases x)
  case (ActPrepare b i)
  assume st: "node_stored saved inv n"
  obtain m a s where h: "HandlePrepare (Some S) b i (acceptor n) (storage n) = (m, a, s)" by (metis prod_cases3)
  show ?thesis using prepare_lockstep_at [OF h] HandlePrepare_inv [OF h] st ActPrepare h
    by (simp add: node_stored_def)
next
  case (ActAccept b i v)
  assume st: "node_stored saved inv n"
  obtain m a s where h: "HandleAccept (Some S) b i v (acceptor n) (storage n) = (m, a, s)" by (metis prod_cases3)
  show ?thesis using accept_lockstep_at [OF h] HandleAccept_inv [OF h] st ActAccept h
    by (simp add: node_stored_def)
qed (simp add: node_stored_commit)

lemma node_logged_act:
  assumes "inv (storage n)" "node_logged logged n" "\<forall>e. fst (AppendLog S (storage n) e) = None"
  shows "node_logged logged (do_act S x n)"
proof (cases x)
  case (ActCommit b i v)
  show ?thesis
  proof (cases "committed n i = None")
    case True
    let ?e = "\<lparr>le_Instance = i, le_Ballot = b, le_Value = v\<rparr>"
    obtain s where s: "AppendLog S (storage n) ?e = (None, s)" using assms(3) by (metis prod.collapse)
    from append_ok [OF assms(1) s] True assms(2) show ?thesis
      by (simp add: ActCommit node_logged_def handleCommit_new s log_entry_of_def)
  qed (use assms ActCommit in simp)
next
  case (ActPrepare b i)
  obtain m a s where h: "HandlePrepare (Some S) b i (acceptor n) (storage n) = (m, a, s)" by (metis prod_cases3)
  show ?thesis using prepare_lockstep_at [OF h assms(1)] assms ActPrepare h by (simp add: node_logged_def)
next
  case (ActAccept b i v)
  obtain m a s where h: "HandleAccept (Some S) b i v (acceptor n) (storage n) = (m, a, s)" by (metis prod_cases3)
  show ?thesis using accept_lockstep_at [OF h assms(1)] assms ActAccept h by (simp add: node_logged_def)
qed

text \<open>What \<open>recoverLog\<close> rebuilds: every logged instance except instance 0.\<close>

lemma recoverLog_committed:
  assumes "inv (storage n)" "committed n = Map.empty" "recoverLog S n = Inr n'"
    "\<And>l. GetLastInstance S (storage n) = (l, None) \<Longrightarrow> l + 1 \<noteq> 0"
  shows "i \<noteq> 0 \<Longrightarrow> committed n' i = map_option cv_of (logged (storage n) i)"
proof -
  assume i: "i \<noteq> 0"
  obtain l err where l: "GetLastInstance S (storage n) = (l, err)" by fastforce
  with assms(3) have err: "err = None \<or> err = Some ErrNotFound"
    by (auto simp: recoverLog_def split: if_splits)
  show ?thesis
  proof (cases "l = 0")
    case True
    have "logged (storage n) i = None"
    proof (cases err)
      case None
      with last_ok [OF assms(1), of l i] l True i show ?thesis
        by (cases "logged (storage n) i") (auto simp: domIff)
    next
      case (Some e)
      with last_none [OF assms(1), of l] err l i show ?thesis by (auto simp: domIff)
    qed
    with assms(2,3) l True err show ?thesis by (auto simp: recoverLog_def split: if_splits)
  next
    case False
    with last_none [OF assms(1), of l] l err have e: "err = None" by auto
    obtain es where es: "GetLogRange S (storage n) 1 (l + 1) = (es, None)" and n': "n' = foldl recover_entry n es"
      using assms(3) l e False by (auto simp: recoverLog_def split: prod.splits option.splits)
    have "sorted_wrt (<) (map le_Instance es)"
      using range_sorted [OF assms(1) es] by (simp add: sorted_wrt_map)
    then have d: "distinct (map le_Instance es)" by (simp add: strict_sorted_iff)
    have mem: "e \<in> set es \<longleftrightarrow> logged (storage n) (le_Instance e) = Some e \<and> le_Instance e \<noteq> 0" for e
    proof -
      have "e \<in> set es \<longleftrightarrow> (\<exists>i. 1 \<le> i \<and> i \<le> l \<and> logged (storage n) i = Some e)"
        using range_set [OF assms(1) es] less_Suc64 [of l] assms(4) l e by auto
      also have "\<dots> \<longleftrightarrow> logged (storage n) (le_Instance e) = Some e \<and> le_Instance e \<noteq> 0"
        using last_ok [OF assms(1), of l] l \<open>err = None\<close> logged_key [OF assms(1)]
        by (metis domI word_le_0_iff word_less_1 not_less linorder_not_less word_zero_le)
      finally show ?thesis .
    qed
    show ?thesis
    proof (cases "logged (storage n) i")
      case None
      then have "find (\<lambda>e. le_Instance e = i) es = None" by (auto simp: find_None_iff mem)
      with None assms(2) show ?thesis by (simp add: n' recover_entries_committed [OF d])
    next
      case (Some x)
      then have "x \<in> set es" "le_Instance x = i" using logged_key [OF assms(1) Some] i by (auto simp: mem)
      then have "find (\<lambda>e. le_Instance e = i) es \<noteq> None" unfolding find_None_iff by blast
      then obtain y where y: "find (\<lambda>e. le_Instance e = i) es = Some y" by auto
      then have "y \<in> set es" "le_Instance y = i" unfolding find_Some_iff by auto
      then have "y = x" using Some by (simp add: mem)
      with Some y show ?thesis by (simp add: n' recover_entries_committed [OF d])
    qed
  qed
qed

end

text \<open>On the in-memory storage, which no handler closes, the log is complete.\<close>

definition mem_node_inv :: "MemoryStorage Node \<Rightarrow> bool" where
  "mem_node_inv n \<longleftrightarrow> node_stored acceptorState mem_inv n \<and> node_logged log n \<and> \<not> closed (storage n)"

lemma mem_node_inv_act: "mem_node_inv n \<Longrightarrow> mem_node_inv (do_act memory_storage x n)"
proof -
  assume inv: "mem_node_inv n"
  have "node_logged log (do_act memory_storage x n)"
    using inv by (intro mem.node_logged_act)
      (auto simp: mem_node_inv_def node_stored_def mem_AppendLog_def Let_def)
  moreover have "\<not> closed (storage (do_act memory_storage x n))"
  proof (cases x)
    case (ActCommit b i v)
    then show ?thesis using inv
      by (cases "committed n i = None") (auto simp: mem_node_inv_def handleCommit_new mem_AppendLog_def Let_def)
  qed (use inv in \<open>auto simp: mem_node_inv_def persist_def mem_SaveAcceptorState_def split: prod.splits
      elim!: HandlePrepare_cases HandleAccept_cases\<close>)
  ultimately show ?thesis using inv mem.node_stored_act [of n x] by (simp add: mem_node_inv_def)
qed

lemma mem_node_inv_step:
  assumes "node_step memory_storage n n'" "mem_node_inv n"
  shows "mem_node_inv n'"
proof -
  have "mem_node_inv (fold (do_act memory_storage) acts n)" for acts
    using assms(2) by (induction acts arbitrary: n) (simp_all add: mem_node_inv_act)
  with node_step_acts [OF assms(1)] show ?thesis
    by (auto simp: same_data_def mem_node_inv_def node_stored_def node_logged_def)
qed

lemma mem_node_inv_new:
  assumes "NewNode memory_storage NewMemoryStorage cfg = Inr n"
  shows "mem_node_inv n"
proof -
  from assms have "storage n = NewMemoryStorage" "committed n = Map.empty"
    "acceptor n = \<lparr>acc_nodeID = cfg_NodeID (WithDefaults cfg), promised = Map.empty,
       acceptedBallot = Map.empty, acceptedValue = Map.empty\<rparr>"
    by (auto simp: NewNode_def Let_def recoverLog_def NewAcceptor_Some mem_LoadAcceptorState_def
      mem_GetLastInstance_def NewMemoryStorage_def zero_AcceptorState_def split: option.splits)
  then show ?thesis
    by (simp add: mem_node_inv_def node_stored_def node_logged_def mem_inv_new acc_inv_def lockstep_at_def)
       (simp add: NewMemoryStorage_def)
qed

lemma mem_node_reachable:
  "node_reachable memory_storage NewMemoryStorage cfg n \<Longrightarrow>
     mem_node_inv n \<and> learner_inv n \<and> Validate (WithDefaults cfg) = None"
proof (induction rule: node_reachable.induct)
  case (init n)
  then show ?case by (auto simp: mem_node_inv_new elim: NewNode_cases)
next
  case (step n n')
  then show ?case by (auto intro: mem_node_inv_step node_step_learner)
qed

lemma recoverLog_total:
  assumes "\<not> closed (storage n)"
  shows "\<exists>n'. recoverLog memory_storage n = Inr n'"
  using assms by (auto simp: recoverLog_def mem_GetLastInstance_def mem_GetLogRange_def)

lemma recoverLog_frame:
  "recoverLog S n = Inr n' \<Longrightarrow> acceptor n' = acceptor n \<and> storage n' = storage n"
  by (auto simp: recoverLog_def split: prod.splits if_splits option.splits)

lemma learner_inv_last:
  assumes "learner_inv n" "learner_inv n'" "\<And>i. i \<noteq> 0 \<Longrightarrow> (committed n' i = None) = (committed n i = None)"
  shows "lastCommitted n' = lastCommitted n"
proof (rule order.antisym)
  show "lastCommitted n' \<le> lastCommitted n"
    using assms unfolding learner_inv_def by (metis option.exhaust word_zero_le)
  show "lastCommitted n \<le> lastCommitted n'"
    using assms unfolding learner_inv_def by (metis option.exhaust word_zero_le)
qed

text \<open>\<open>NewNode\<close> on an open storage goes as far as the recovery of the log.\<close>

lemma NewNode_recovery:
  assumes v: "Validate (WithDefaults cfg) = None" and op: "\<not> closed st"
  obtains n0 n' a where "NewAcceptor (cfg_NodeID (WithDefaults cfg)) (Some memory_storage) st = Inr a"
    "recoverLog memory_storage n0 = Inr n'" "storage n0 = st" "committed n0 = Map.empty" "acceptor n0 = a"
    "NewNode memory_storage st cfg = Inr n'"
proof -
  let ?cfg = "WithDefaults cfg"
  obtain a where a: "NewAcceptor (cfg_NodeID ?cfg) (Some memory_storage) st = Inr a"
    using op by (cases "NewAcceptor (cfg_NodeID ?cfg) (Some memory_storage) st")
      (auto simp: NewAcceptor_Some mem_LoadAcceptorState_def split: if_splits)
  define n0 where "n0 = \<lparr>config = ?cfg, nodeID = cfg_NodeID ?cfg, storage = st, acceptor = a,
    proposer = SetTimeouts (PrepareTimeout ?cfg) (AcceptTimeout ?cfg)
      (NewProposer (cfg_NodeID ?cfg) (quorum_of_peers (length (cfg_Peers ?cfg))) (length (cfg_Peers ?cfg))),
    committed = Map.empty, lastCommitted = 0, commitCh = [], currentLeader = 0,
    nd_leaderBallot = 0, electionDeadline = 0, electing = False, started = False\<rparr>"
  have "NewNode memory_storage st cfg = recoverLog memory_storage n0"
    using v a by (simp add: NewNode_def Let_def n0_def)
  moreover obtain n' where "recoverLog memory_storage n0 = Inr n'"
    using recoverLog_total [of n0] op by (auto simp: n0_def)
  ultimately show thesis by (intro that [OF a, of n0 n']) (simp_all add: n0_def)
qed

text \<open>The last logged instance is committed, so the range that recovery reads does not wrap around.\<close>

lemma last_logged_bound:
  assumes "mem_inv (storage n)" "node_logged log n" "learner_inv n" "lastCommitted n + 1 \<noteq> 0"
    and "GetLastInstance memory_storage (storage n) = (l, None)"
  shows "l + 1 \<noteq> 0"
proof -
  from assms(5) have l: "l = lastInstance (storage n)" "l \<noteq> 0" by (auto simp: mem_GetLastInstance_def split: if_splits)
  with assms(1) have "log (storage n) l \<noteq> None" by (simp add: mem_inv_def)
  with assms(2) have "committed n l \<noteq> None" by (auto simp: node_logged_def)
  then have "l \<le> lastCommitted n" using assms(3) by (auto simp: learner_inv_def)
  moreover have "l + 1 = 0 \<Longrightarrow> l = - 1" by (simp add: eq_neg_iff_add_eq_0)
  ultimately show ?thesis using assms(4)
    by (metis add.commute add.right_inverse antisym_conv max_word_max)
qed

section \<open>Properties\<close>

text \<open>C33. Restart of a node: take a node created on a fresh in-memory storage, after any run,
  and create a node again from its storage.  This succeeds, and the new node has the same
  committed values (instance 0 apart, values copied) and the same \<open>LastCommitted\<close>; its
  acceptor has the same promises and accepted proposals for every instance the old node had
  not committed.\<close>

theorem node_restart_recovers:
  assumes "node_reachable memory_storage NewMemoryStorage cfg n" and "lastCommitted n + 1 \<noteq> 0"
  shows "\<exists>n'. NewNode memory_storage (storage n) cfg = Inr n'
    \<and> (\<forall>i. i \<noteq> 0 \<longrightarrow> committed n' i = map_option (\<lambda>cv. cv\<lparr>cv_Value := slice_copy (cv_Value cv)\<rparr>) (committed n i))
    \<and> LastCommitted n' = LastCommitted n
    \<and> (\<forall>i. committed n i = None \<longrightarrow>
         GetPromised (acceptor n') i = GetPromised (acceptor n) i
       \<and> acceptedBallot (acceptor n') i = acceptedBallot (acceptor n) i
       \<and> acceptedValue (acceptor n') i = map_option slice_copy (acceptedValue (acceptor n) i))"
proof -
  let ?cfg = "WithDefaults cfg"
  from mem_node_reachable [OF assms(1)] have inv: "mem_node_inv n" and li: "learner_inv n"
    and v: "Validate ?cfg = None" by auto
  then have mi: "mem_inv (storage n)" and ai: "acc_inv (acceptor n)" and op: "\<not> closed (storage n)"
    and lg: "node_logged log n"
    and ls: "\<And>i. committed n i = None \<Longrightarrow> lockstep_at i (acceptor n) (acceptorState (storage n))"
    by (auto simp: mem_node_inv_def node_stored_def)
  obtain n0 n' a where a: "NewAcceptor (cfg_NodeID ?cfg) (Some memory_storage) (storage n) = Inr a"
    and n0: "recoverLog memory_storage n0 = Inr n'" "storage n0 = storage n" "committed n0 = Map.empty" "acceptor n0 = a"
    and new: "NewNode memory_storage (storage n) cfg = Inr n'"
    by (rule NewNode_recovery [OF v op])
  have last: "l + 1 \<noteq> 0" if "GetLastInstance memory_storage (storage n0) = (l, None)" for l
    using last_logged_bound [OF mi lg li assms(2)] that n0(2) by simp
  have c: "i \<noteq> 0 \<Longrightarrow> committed n' i = map_option (\<lambda>cv. cv\<lparr>cv_Value := slice_copy (cv_Value cv)\<rparr>) (committed n i)" for i
    using mem.recoverLog_committed [OF _ n0(3,1) last, of i] mi lg li
    by (cases "committed n i") (auto simp: n0(2) node_logged_def log_entry_of_def cv_of_def learner_inv_def)
  have "learner_inv n'" by (rule NewNode_cases [OF new])
  then have "lastCommitted n' = lastCommitted n" by (rule learner_inv_last [OF li]) (simp add: c)
  moreover have "acceptor n' = a" using recoverLog_frame [OF n0(1)] n0(4) by simp
  ultimately show ?thesis
    using new c mem.recover_at [OF mi ls ai a] by (intro exI [of _ n']) (simp add: LastCommitted_def GetPromised_def go_get_def)
qed

text \<open>A configuration of a three-node cluster, for the examples.\<close>

definition three_nodes :: "NodeID \<Rightarrow> Config" where
  "three_nodes n = \<lparr>cfg_NodeID = n, cfg_Address = ''localhost:9001'',
     cfg_Peers = [''localhost:9002'', ''localhost:9003''], PrepareTimeout = 0, AcceptTimeout = 0,
     HeartbeatInterval = 0, ElectionTimeout = 0, MaxInFlightInstances = 0\<rparr>"

lemma three_nodes_valid: "n \<noteq> 0 \<Longrightarrow> Validate (WithDefaults (three_nodes n)) = None"
  by (simp add: three_nodes_def WithDefaults_def Validate_def Second_def Millisecond_def)

lemma NewNode_fresh:
  assumes "Validate (WithDefaults cfg) = None"
  shows "\<exists>n. NewNode memory_storage NewMemoryStorage cfg = Inr n \<and> committed n = Map.empty
    \<and> lastCommitted n = 0 \<and> commitCh n = [] \<and> storage n = NewMemoryStorage \<and> \<not> started n"
  using assms
  by (simp add: NewNode_def Let_def NewAcceptor_Some mem_LoadAcceptorState_def recoverLog_def
      mem_GetLastInstance_def NewMemoryStorage_def zero_AcceptorState_def)

text \<open>The run of the examples: the node learns one value.\<close>

lemma example_run:
  obtains n where "node_reachable memory_storage NewMemoryStorage (three_nodes 1) n"
    "committed n = [1 \<mapsto> \<lparr>cv_Instance = 1, cv_Value = Some [7], cv_Ballot = 65538\<rparr>]"
    "lastCommitted n = 1" "commitCh n = [\<lparr>cv_Instance = 1, cv_Value = Some [7], cv_Ballot = 65538\<rparr>]"
proof -
  obtain n0 where n0: "NewNode memory_storage NewMemoryStorage (three_nodes 1) = Inr n0"
    "committed n0 = Map.empty" "lastCommitted n0 = 0" "commitCh n0 = []"
    using NewNode_fresh [OF three_nodes_valid [of 1]] by auto
  let ?n = "handleCommit memory_storage 65538 1 (Some [7]) n0"
  have "handleMessage memory_storage 0 0 2 (Commit 65538 1 (Some [7])) n0 = Some (?n, [])"
    by (simp add: handleMessage_def)
  then have "node_reachable memory_storage NewMemoryStorage (three_nodes 1) ?n"
    using n0(1) by (blast intro: node_reachable.intros node_step.message)
  then show thesis using n0(2-4) by (intro that [of ?n]) (simp_all add: handleCommit_new commitCh_capacity_def max_def)
qed

theorem node_restart_recovers_witness:
  "\<exists>(n :: MemoryStorage Node) n'. NewNode memory_storage (storage n) (three_nodes 1) = Inr n' \<and> LastCommitted n' = 1
     \<and> committed n' 1 = Some \<lparr>cv_Instance = 1, cv_Value = Some [7], cv_Ballot = 65538\<rparr>"
proof -
  obtain n where n: "node_reachable memory_storage NewMemoryStorage (three_nodes 1) n"
    "committed n = [1 \<mapsto> \<lparr>cv_Instance = 1, cv_Value = Some [7], cv_Ballot = 65538\<rparr>]" "lastCommitted n = 1"
    by (rule example_run)
  from node_restart_recovers [OF n(1)] n(3) obtain n' where
    "NewNode memory_storage (storage n) (three_nodes 1) = Inr n'" "LastCommitted n' = LastCommitted n"
    "\<forall>i. i \<noteq> 0 \<longrightarrow> committed n' i = map_option (\<lambda>cv. cv\<lparr>cv_Value := slice_copy (cv_Value cv)\<rparr>) (committed n i)"
    by auto
  with n(2,3) show ?thesis by (intro exI [of _ n] exI [of _ n']) (simp add: LastCommitted_def slice_copy_def)
qed

text \<open>C34. A committed value never changes: whatever the node does afterwards, \<open>GetCommitted\<close>
  keeps returning the first value it learned for the instance.\<close>

theorem committed_value_stable:
  assumes "(node_step S)\<^sup>*\<^sup>* n n'" and "GetCommitted n i = (cv, True)"
  shows "GetCommitted n' i = (cv, True)"
proof -
  have "committed n i = Some cv" using assms(2) by (auto simp: GetCommitted_def)
  with assms(1) have "committed n' i = Some cv"
    by (induction rule: rtranclp_induct) (auto intro: node_step_committed)
  then show ?thesis by (simp add: GetCommitted_def)
qed

theorem committed_value_stable_witness:
  "\<exists>n n'. handleMessage memory_storage 0 0 3 (Commit 131075 1 (Some [8])) n = Some (n', [])
     \<and> GetCommitted n' 1 = (\<lparr>cv_Instance = 1, cv_Value = Some [7], cv_Ballot = 65538\<rparr>, True)"
proof -
  obtain n where n: "node_reachable memory_storage NewMemoryStorage (three_nodes 1) n"
    "committed n = [1 \<mapsto> \<lparr>cv_Instance = 1, cv_Value = Some [7], cv_Ballot = 65538\<rparr>]"
    by (rule example_run)
  let ?n = "handleCommit memory_storage 131075 1 (Some [8]) n"
  have h: "handleMessage memory_storage 0 0 3 (Commit 131075 1 (Some [8])) n = Some (?n, [])"
    by (simp add: handleMessage_def)
  then have "(node_step memory_storage)\<^sup>*\<^sup>* n ?n" by (blast intro: node_step.message)
  from committed_value_stable [OF this, of 1] n(2)
  have "GetCommitted ?n 1 = (\<lparr>cv_Instance = 1, cv_Value = Some [7], cv_Ballot = 65538\<rparr>, True)"
    by (simp add: GetCommitted_def)
  with h show ?thesis by blast
qed

text \<open>In every reachable state of a node each committed value is stored under its own
  instance, and \<open>LastCommitted\<close> is the highest committed instance (0 if there is none).\<close>

theorem last_committed_is_highest:
  assumes "node_reachable S st cfg n"
  shows "(\<forall>i cv. committed n i = Some cv \<longrightarrow> cv_Instance cv = i \<and> i \<le> LastCommitted n)
    \<and> (LastCommitted n = 0 \<or> committed n (LastCommitted n) \<noteq> None)"
proof -
  from assms have "learner_inv n"
    by induction (auto elim: NewNode_cases intro: node_step_learner)
  then show ?thesis by (auto simp: learner_inv_def LastCommitted_def)
qed

theorem last_committed_is_highest_witness:
  "\<exists>n :: MemoryStorage Node. LastCommitted n = 1 \<and> committed n 1 \<noteq> None
     \<and> (\<forall>i cv. committed n i = Some cv \<longrightarrow> cv_Instance cv = i \<and> i \<le> LastCommitted n)"
proof -
  obtain n where n: "node_reachable memory_storage NewMemoryStorage (three_nodes 1) n" "lastCommitted n = 1"
    by (rule example_run)
  from last_committed_is_highest [OF n(1)] n(2) show ?thesis
    by (intro exI [of _ n]) (auto simp: LastCommitted_def)
qed

text \<open>C35. The subscription: in every reachable state the notifications waiting in the channel
  are the node's committed values for their instances, no instance is announced twice, and at
  most 100 are waiting.\<close>

theorem subscription_consistent:
  assumes "node_reachable S st cfg n"
  shows "(\<forall>cv \<in> set (commitCh n). GetCommitted n (cv_Instance cv) = (cv, True))
    \<and> distinct (map cv_Instance (commitCh n)) \<and> length (commitCh n) \<le> 100"
proof -
  from assms have "channel_inv n"
  proof induction
    case (init n)
    then show ?case by (auto elim!: NewNode_cases simp: channel_inv_def)
  next
    case (step n n')
    then show ?case by (blast intro: node_step_channel)
  qed
  then show ?thesis by (auto simp: channel_inv_def GetCommitted_def commitCh_capacity_def)
qed

theorem subscription_consistent_witness:
  "\<exists>n :: MemoryStorage Node. map cv_Instance (commitCh n) = [1]
     \<and> (\<forall>cv \<in> set (commitCh n). GetCommitted n (cv_Instance cv) = (cv, True))"
proof -
  obtain n where n: "node_reachable memory_storage NewMemoryStorage (three_nodes 1) n"
    "commitCh n = [\<lparr>cv_Instance = 1, cv_Value = Some [7], cv_Ballot = 65538\<rparr>]"
    by (rule example_run)
  from subscription_consistent [OF n(1)] n(2) show ?thesis by (intro exI [of _ n]) simp
qed

text \<open>The comment on \<open>Subscribe\<close> says that values are delivered in instance order; they
  are delivered in the order in which the node learned them, which can be the reverse.\<close>

theorem subscribe_not_in_instance_order:
  "\<exists>n :: MemoryStorage Node. node_reachable memory_storage NewMemoryStorage (three_nodes 1) n
     \<and> map cv_Instance (commitCh n) = [2, 1]"
proof -
  obtain n0 where n0: "NewNode memory_storage NewMemoryStorage (three_nodes 1) = Inr n0"
    "committed n0 = Map.empty" "commitCh n0 = []"
    using NewNode_fresh [OF three_nodes_valid [of 1]] by auto
  let ?n1 = "handleCommit memory_storage 65538 2 (Some [8]) n0"
  let ?n2 = "handleCommit memory_storage 65539 1 (Some [7]) ?n1"
  have "handleMessage memory_storage 0 0 2 (Commit 65538 2 (Some [8])) n0 = Some (?n1, [])"
    "handleMessage memory_storage 0 0 3 (Commit 65539 1 (Some [7])) ?n1 = Some (?n2, [])"
    by (simp_all add: handleMessage_def)
  then have "node_reachable memory_storage NewMemoryStorage (three_nodes 1) ?n2"
    using n0(1) by (blast intro: node_reachable.intros node_step.message)
  then show ?thesis using n0(2,3)
    by (intro exI [of _ ?n2]) (simp add: handleCommit_new commitCh_capacity_def)
qed

text \<open>Quorums: with the quorum size that \<open>NewNode\<close> computes from the number of peers,
  any two quorums of the cluster share a node, and the nodes that remain when any
  \<open>peers div 2\<close> of them have failed are still a quorum.\<close>

theorem quorums_intersect:
  assumes "finite M" and "card M = peers + 1"
  shows "(\<forall>A B. A \<subseteq> M \<and> B \<subseteq> M \<and> quorum_of_peers peers \<le> card A \<and> quorum_of_peers peers \<le> card B
      \<longrightarrow> A \<inter> B \<noteq> {})
    \<and> (\<forall>F. F \<subseteq> M \<and> card F \<le> peers div 2 \<longrightarrow> quorum_of_peers peers \<le> card (M - F))"
proof (intro conjI allI impI)
  fix A B
  assume h: "A \<subseteq> M \<and> B \<subseteq> M \<and> quorum_of_peers peers \<le> card A \<and> quorum_of_peers peers \<le> card B"
  show "A \<inter> B \<noteq> {}" by (rule majorities_meet [OF assms]) (use h in auto)
next
  fix F assume F: "F \<subseteq> M \<and> card F \<le> peers div 2"
  then have "card (M - F) = peers + 1 - card F"
    using assms finite_subset [OF _ assms(1)] by (simp add: card_Diff_subset)
  moreover have "(peers + 1) div 2 + 1 \<le> peers + 1 - card F" using F by linarith
  ultimately show "quorum_of_peers peers \<le> card (M - F)" by (simp add: quorum_of_peers_def Let_def)
qed

theorem quorums_intersect_witness:
  "{1, 2} \<inter> {2, 3 :: NodeID} \<noteq> {} \<and> quorum_of_peers 2 \<le> card ({1, 2, 3 :: NodeID} - {1})"
  using quorums_intersect [of "{1, 2, 3 :: NodeID}" 2] by (auto simp: quorum_of_peers_def)

text \<open>Heartbeats: a heartbeat with a lower ballot than the known leader's changes nothing;
  any other is adopted, so the known leader ballot never decreases, and a node that thought it
  was leader and hears another leader steps down.  The learner, the acceptor and the storage
  are not touched.\<close>

theorem heartbeat_adopts_newest_leader:
  assumes "handleHeartbeat b l now rnd n = Some n'"
  shows "(b < nd_leaderBallot n \<longrightarrow> n' = n)
    \<and> (nd_leaderBallot n \<le> b \<longrightarrow> currentLeader n' = l \<and> nd_leaderBallot n' = b
        \<and> (l \<noteq> nodeID n \<longrightarrow> \<not> node_IsLeader n'))
    \<and> nd_leaderBallot n \<le> nd_leaderBallot n' \<and> same_data n n'"
  using assms
proof (cases rule: handleHeartbeat_cases)
  case (heard d)
  then show ?thesis by (auto simp: same_data_def node_IsLeader_def IsLeader_def StepDown_def)
qed auto

theorem heartbeat_adopts_newest_leader_witness:
  "\<exists>n n' :: MemoryStorage Node. handleHeartbeat 65538 2 0 5 n = Some n' \<and> node_IsLeader n
     \<and> \<not> node_IsLeader n' \<and> nd_leaderBallot n' = 65538"
proof -
  obtain n0 where n0: "NewNode memory_storage NewMemoryStorage (three_nodes 1) = Inr n0"
    using NewNode_fresh [OF three_nodes_valid [of 1]] by auto
  then have c: "config n0 = WithDefaults (three_nodes 1)" "nodeID n0 = 1"
    by (auto elim!: NewNode_cases simp: three_nodes_def WithDefaults_def)
  let ?n = "n0\<lparr>proposer := win_election 65537 (proposer n0), nd_leaderBallot := 65537\<rparr>"
  obtain n' where h: "handleHeartbeat 65538 2 0 5 ?n = Some n'"
    by (simp add: handleHeartbeat_def resetElectionDeadline_def randomElectionTimeout_def c
      WithDefaults_def three_nodes_def Second_def)
  from heartbeat_adopts_newest_leader [OF h] h c(2) show ?thesis
    by (intro exI [of _ ?n] exI [of _ n']) (simp add: node_IsLeader_def IsLeader_def win_election_def)
qed

text \<open>The randomised election timeout lies in the documented interval from
  \<open>ElectionTimeout\<close> to twice its value, if the configured timeout is positive and below 2^62
  nanoseconds (about 146 years); the hypothesis on \<open>rnd\<close> is what \<open>rand.Int63n\<close> returns.\<close>

theorem election_timeout_in_interval:
  assumes "0 < sint (ElectionTimeout cfg)" and "sint (ElectionTimeout cfg) < 2 ^ 62"
    and "0 \<le> sint rnd" and "sint rnd < sint (ElectionTimeout cfg)"
  shows "\<exists>d. randomElectionTimeout cfg rnd = Some d
    \<and> sint (ElectionTimeout cfg) \<le> sint d \<and> sint d < 2 * sint (ElectionTimeout cfg)"
proof -
  let ?b = "ElectionTimeout cfg"
  have "signed_take_bit 63 (sint ?b + sint rnd) = sint ?b + sint rnd"
    using assms by (intro signed_take_bit_int_eq_self) auto
  then have "sint (?b + rnd) = sint ?b + sint rnd" by (simp add: sint_word_ariths)
  then show ?thesis using assms by (simp add: randomElectionTimeout_def Let_def)
qed

theorem election_timeout_in_interval_witness:
  "\<exists>d. randomElectionTimeout (WithDefaults (three_nodes 1)) 5 = Some d \<and> Second \<le> d"
proof -
  have e: "ElectionTimeout (WithDefaults (three_nodes 1)) = 1000000000"
    by (simp add: WithDefaults_def three_nodes_def Second_def)
  have "sint (1000000000 :: 64 word) = 1000000000" "sint (5 :: 64 word) = 5" by simp_all
  then show ?thesis
    using election_timeout_in_interval [of "WithDefaults (three_nodes 1)" 5]
    by (simp add: e randomElectionTimeout_def Second_def)
qed

text \<open>C36. \<open>Validate\<close> lets negative durations through (only 0 is replaced by a default), and
  then \<open>Start\<close> panics in \<open>rand.Int63n\<close> after it has started to listen.  A new node, on any
  storage, panics in its first \<open>Start\<close> exactly if it could listen and its configured election
  timeout is negative; a configuration with a negative election timeout is accepted for one.\<close>

theorem negative_timeout_panics:
  assumes "NewNode S st cfg = Inr n"
  shows "(Start listenErr now rnd n = None \<longleftrightarrow> listenErr = None \<and> sint (ElectionTimeout cfg) < 0)
    \<and> (\<exists>cfg' n'. NewNode memory_storage NewMemoryStorage cfg' = Inr n' \<and> sint (ElectionTimeout cfg') < 0)"
proof -
  let ?cfg = "(three_nodes 1)\<lparr>ElectionTimeout := - 1, HeartbeatInterval := - 1\<rparr>"
  have "Validate (WithDefaults ?cfg) = None" "sint (ElectionTimeout ?cfg) < 0"
    by (simp_all add: three_nodes_def WithDefaults_def Validate_def Second_def Millisecond_def)
  then have "\<exists>cfg' n'. NewNode memory_storage NewMemoryStorage cfg' = Inr n' \<and> sint (ElectionTimeout cfg') < 0"
    using NewNode_fresh by blast
  moreover have "config n = WithDefaults cfg" by (rule NewNode_cases [OF assms])
  moreover have "\<not> started n" by (rule NewNode_cases [OF assms])
  moreover have "sint (ElectionTimeout (WithDefaults cfg)) \<le> 0 \<longleftrightarrow> sint (ElectionTimeout cfg) < 0"
    using signed_word_eqI [of "ElectionTimeout cfg" 0] by (auto simp: WithDefaults_def Second_def Let_def less_le)
  ultimately show ?thesis
    by (cases listenErr) (simp_all add: Start_def resetElectionDeadline_def randomElectionTimeout_def Let_def)
qed

theorem negative_timeout_panics_witness:
  "\<exists>n. NewNode memory_storage NewMemoryStorage ((three_nodes 1)\<lparr>ElectionTimeout := - 1, HeartbeatInterval := - 1\<rparr>) = Inr n
     \<and> Start None 0 5 n = None \<and> Start (Some ErrEOF) 0 5 n \<noteq> None"
proof -
  let ?cfg = "(three_nodes 1)\<lparr>ElectionTimeout := - 1, HeartbeatInterval := - 1\<rparr>"
  have "Validate (WithDefaults ?cfg) = None"
    by (simp add: three_nodes_def WithDefaults_def Validate_def Second_def Millisecond_def)
  then obtain n where n: "NewNode memory_storage NewMemoryStorage ?cfg = Inr n" using NewNode_fresh by blast
  from negative_timeout_panics [OF n, of None 0 5] negative_timeout_panics [OF n, of "Some ErrEOF" 0 5] n
  show ?thesis by auto
qed

text \<open>A successful \<open>Propose\<close> on a node has committed: the node's own learner has a value
  for the returned instance, and if it had none before, the last message sent to the peers is
  the \<open>Commit\<close> of exactly that value and ballot.\<close>

theorem propose_commits_locally:
  assumes "node_Propose S bcast value msgs1 msgs2 n = (Inr i, out, n')"
  shows "\<exists>cv. GetCommitted n' i = (cv, True) \<and> out \<noteq> []
    \<and> (committed n i = None \<longrightarrow> last out = Commit (cv_Ballot cv) i (cv_Value cv))"
proof -
  obtain eff p ao st where P: "Propose (Some S) bcast True value msgs1 msgs2 (proposer n)
      (Some (acceptor n)) (storage n) = (Inr i, eff, p, ao, st)"
    and out: "out = [m. SentBroadcast m \<leftarrow> eff]"
    and n': "n' = fold (apply_effect S) eff (n\<lparr>proposer := p, acceptor := the ao, storage := st\<rparr>)"
    using assms by (auto simp: node_Propose_def split: if_splits prod.splits)
  from Propose_Inr [OF P refl] obtain b v eff0 where sb: "list_all is_SentBroadcast eff0"
    and eff: "eff = eff0 @ [CalledOnCommit (Commit b i v), SentBroadcast (Commit b i v)]" by auto
  have "fold (apply_effect S) eff0 m = m" for m
    using sb by (induction eff0 arbitrary: m) (auto simp: is_SentBroadcast_def)
  then have n'2: "n' = handleCommit S b i v (n\<lparr>proposer := p, acceptor := the ao, storage := st\<rparr>)"
    by (simp add: n' eff)
  show ?thesis
  proof (cases "committed n i")
    case None
    then show ?thesis by (simp add: n'2 GetCommitted_def handleCommit_new out eff)
  next
    case (Some cv)
    then show ?thesis by (simp add: n'2 GetCommitted_def out eff)
  qed
qed

theorem propose_commits_locally_witness:
  "\<exists>(n :: MemoryStorage Node) out n'. node_Propose memory_storage (\<lambda>_. None) (Some [7])
      [Promise 65537 1 2 0 None] [Accepted 65537 1 2] n = (Inr 1, out, n')
    \<and> snd (GetCommitted n' 1)"
proof -
  let ?a = "\<lparr>acc_nodeID = 1, promised = Map.empty, acceptedBallot = Map.empty, acceptedValue = Map.empty\<rparr>"
  define n :: "MemoryStorage Node" where "n = \<lparr>config = three_nodes 1, nodeID = 1,
    storage = NewMemoryStorage, acceptor = ?a, proposer = NewProposer 1 2 2, committed = Map.empty,
    lastCommitted = 0, commitCh = [], currentLeader = 0, nd_leaderBallot = 0, electionDeadline = 0,
    electing = False, started = True\<rparr>"
  have mb: "MakeBallot 1 1 = 65537" by (simp add: MakeBallot_def)
  obtain out n' where p: "node_Propose memory_storage (\<lambda>_. None) (Some [7])
      [Promise 65537 1 2 0 None] [Accepted 65537 1 2] n = (Inr 1, out, n')"
    by (simp add: n_def node_Propose_def Propose_def NewProposer_def begin_proposal_def runPhase1_def
        runPhase2_def phase1_local_def phase2_local_def HandlePrepare_def HandleAccept_def persist_def mb
        mem_SaveAcceptorState_def NewMemoryStorage_def
        phase1_recv_def phase2_recv_def findHighestAccepted_def broadcastCommit_def
        value_to_propose_def Let_def)
  from propose_commits_locally [OF p] p show ?thesis by force
qed

end
