(* ===== verification/Paxos_Spec.thy ===== *)
theory Paxos_Spec
  imports Paxos_Node
begin

text \<open>
  The abstract specification of one instance: acceptors promise and vote, a ballot has at
  most one proposed value, and a value is chosen when a quorum has voted for it in one
  ballot.  It has no messages, no storage and no processes.  Its invariant says that a
  proposed value is safe at its ballot, and gives agreement of chosen values for every family
  of intersecting quorums; the majorities that \<^verbatim>\<open>NewNode\<close> computes are such a family.
\<close>

section \<open>The specification\<close>

record 'a pspec =
  maxBal :: "'a \<Rightarrow> Ballot"
  votes :: "'a \<Rightarrow> Ballot \<Rightarrow> Value option"
  lastVote :: "'a \<Rightarrow> (Ballot \<times> Value) option"
  proms :: "(Ballot \<times> 'a \<times> (Ballot \<times> Value) option) set"
  proposal :: "Ballot \<Rightarrow> Value option"

definition spec_init :: "'a pspec" where
  "spec_init = \<lparr>maxBal = (\<lambda>_. 0), votes = (\<lambda>_ _. None), lastVote = (\<lambda>_. None), proms = {},
     proposal = (\<lambda>_. None)\<rparr>"

text \<open>\<open>picks Q lv v\<close>: the value \<open>v\<close> is the one reported with the highest ballot by the
  members of \<open>Q\<close>, or anything if none of them reports a vote.\<close>

definition picks :: "'a set \<Rightarrow> ('a \<Rightarrow> (Ballot \<times> Value) option) \<Rightarrow> Value \<Rightarrow> bool" where
  "picks Q lv v \<longleftrightarrow> (\<forall>a \<in> Q. lv a = None)
     \<or> (\<exists>a \<in> Q. \<exists>m. lv a = Some (m, v) \<and> (\<forall>a' \<in> Q. \<forall>m' v'. lv a' = Some (m', v') \<longrightarrow> m' \<le> m))"

inductive spec_step :: "('a set \<Rightarrow> bool) \<Rightarrow> 'a pspec \<Rightarrow> 'a pspec \<Rightarrow> bool" for Quorum where
  promise: "maxBal s a \<le> b \<Longrightarrow>
    spec_step Quorum s (s\<lparr>maxBal := (maxBal s)(a := b), proms := insert (b, a, lastVote s a) (proms s)\<rparr>)"
| propose: "proposal s b = None \<Longrightarrow> 0 < b \<Longrightarrow> Quorum Q \<Longrightarrow> (\<And>a. a \<in> Q \<Longrightarrow> (b, a, lv a) \<in> proms s) \<Longrightarrow> picks Q lv v \<Longrightarrow>
    spec_step Quorum s (s\<lparr>proposal := (proposal s)(b \<mapsto> v)\<rparr>)"
| vote: "proposal s b = Some v \<Longrightarrow> maxBal s a \<le> b \<Longrightarrow>
    spec_step Quorum s (s\<lparr>maxBal := (maxBal s)(a := b), votes := (votes s)(a := (votes s a)(b \<mapsto> v)),
      lastVote := (lastVote s)(a \<mapsto> (b, v))\<rparr>)"

definition chosen :: "('a set \<Rightarrow> bool) \<Rightarrow> 'a pspec \<Rightarrow> Ballot \<Rightarrow> Value \<Rightarrow> bool" where
  "chosen Quorum s b v \<longleftrightarrow> (\<exists>Q. Quorum Q \<and> (\<forall>a \<in> Q. votes s a b = Some v))"

section \<open>Invariant\<close>

text \<open>No quorum can have chosen, or can still choose, another value below the ballot.\<close>

definition safe_at :: "('a set \<Rightarrow> bool) \<Rightarrow> 'a pspec \<Rightarrow> Ballot \<Rightarrow> Value \<Rightarrow> bool" where
  "safe_at Quorum s b v \<longleftrightarrow>
     (\<forall>c < b. \<exists>Q. Quorum Q \<and> (\<forall>a \<in> Q. c < maxBal s a \<and> votes s a c \<in> {None, Some v}))"

text \<open>What a promise says stays true: nothing was voted between the reported vote and the
  promised ballot.\<close>

definition promise_ok :: "'a pspec \<Rightarrow> Ballot \<Rightarrow> 'a \<Rightarrow> (Ballot \<times> Value) option \<Rightarrow> bool" where
  "promise_ok s b a lv \<longleftrightarrow> b \<le> maxBal s a \<and> (case lv of
      None \<Rightarrow> \<forall>c < b. votes s a c = None
    | Some (m, v) \<Rightarrow> proposal s m = Some v \<and> (m < b \<or> proposal s b \<noteq> None) \<and> (\<forall>c < b. m < c \<longrightarrow> votes s a c = None))"

definition last_ok :: "'a pspec \<Rightarrow> 'a \<Rightarrow> bool" where
  "last_ok s a \<longleftrightarrow> (case lastVote s a of
      None \<Rightarrow> \<forall>c. votes s a c = None
    | Some (m, v) \<Rightarrow> votes s a m = Some v \<and> m \<le> maxBal s a \<and> (\<forall>c > m. votes s a c = None))"

definition spec_inv :: "('a set \<Rightarrow> bool) \<Rightarrow> 'a pspec \<Rightarrow> bool" where
  "spec_inv Quorum s \<longleftrightarrow>
     (\<forall>a b v. votes s a b = Some v \<longrightarrow> proposal s b = Some v \<and> b \<le> maxBal s a)
   \<and> (\<forall>a. last_ok s a)
   \<and> (\<forall>b a lv. (b, a, lv) \<in> proms s \<longrightarrow> promise_ok s b a lv)
   \<and> (\<forall>b v. proposal s b = Some v \<longrightarrow> 0 < b \<and> safe_at Quorum s b v)"

lemma spec_invD:
  assumes "spec_inv Quorum s"
  shows "votes s a b = Some v \<Longrightarrow> proposal s b = Some v"
    and "votes s a b = Some v \<Longrightarrow> b \<le> maxBal s a"
    and "last_ok s a" and "(b, a, lv) \<in> proms s \<Longrightarrow> promise_ok s b a lv"
    and "proposal s b = Some v \<Longrightarrow> 0 < b" and "proposal s b = Some v \<Longrightarrow> safe_at Quorum s b v"
  using assms unfolding spec_inv_def by blast+

lemma spec_inv_init: "spec_inv Quorum spec_init"
  by (simp add: spec_inv_def spec_init_def last_ok_def)

text \<open>Steps only add votes, proposals, promises and raise \<open>maxBal\<close>; a new vote is at or above
  the voter's \<open>maxBal\<close>.\<close>

definition spec_le :: "'a pspec \<Rightarrow> 'a pspec \<Rightarrow> bool" where
  "spec_le s s' \<longleftrightarrow> (\<forall>a. maxBal s a \<le> maxBal s' a) \<and> (\<forall>a b v. votes s a b = Some v \<longrightarrow> votes s' a b = Some v)
     \<and> (\<forall>b v. proposal s b = Some v \<longrightarrow> proposal s' b = Some v) \<and> proms s \<subseteq> proms s'
     \<and> (\<forall>a b. b < maxBal s a \<longrightarrow> votes s' a b = votes s a b)"

lemma spec_le_refl [simp]: "spec_le s s"
  by (simp add: spec_le_def)

lemma spec_leD:
  assumes "spec_le s s'"
  shows "maxBal s a \<le> maxBal s' a" "votes s a b = Some v \<Longrightarrow> votes s' a b = Some v"
    "proposal s b = Some v \<Longrightarrow> proposal s' b = Some v" "x \<in> proms s \<Longrightarrow> x \<in> proms s'"
    "b < maxBal s a \<Longrightarrow> votes s' a b = votes s a b"
  using assms by (auto simp: spec_le_def)

lemma spec_le_trans:
  assumes "spec_le s t" "spec_le t u"
  shows "spec_le s u"
proof -
  note s = spec_leD [OF assms(1)] and t = spec_leD [OF assms(2)]
  have "maxBal s a \<le> maxBal u a" for a using s(1) t(1) by (rule order.trans)
  moreover have "votes u a b = votes s a b" if "b < maxBal s a" for a b
    using s(5) [OF that] t(5) [of b a] that s(1) [of a] by (metis order.strict_trans2)
  ultimately show ?thesis unfolding spec_le_def using s(2-4) t(2-4) by auto
qed

lemma chosen_mono: "spec_le s s' \<Longrightarrow> chosen Quorum s b v \<Longrightarrow> chosen Quorum s' b v"
  unfolding spec_le_def chosen_def by blast

lemma safe_at_mono:
  assumes "spec_le s s'" "safe_at Quorum s b v"
  shows "safe_at Quorum s' b v"
  unfolding safe_at_def
proof (intro allI impI)
  note le = spec_leD [OF assms(1)]
  fix c assume "c < b"
  with assms(2) obtain Q where Q: "Quorum Q" "\<And>a. a \<in> Q \<Longrightarrow> c < maxBal s a \<and> votes s a c \<in> {None, Some v}"
    unfolding safe_at_def by blast
  then have "c < maxBal s' a \<and> votes s' a c \<in> {None, Some v}" if "a \<in> Q" for a
    using that le(1) [of a] le(5) [of c a] by (metis order.strict_trans2)
  with Q(1) show "\<exists>Q. Quorum Q \<and> (\<forall>a \<in> Q. c < maxBal s' a \<and> votes s' a c \<in> {None, Some v})" by blast
qed

lemma promise_ok_mono:
  assumes "spec_le s s'" "promise_ok s b a lv"
  shows "promise_ok s' b a lv"
proof -
  have le: "b \<le> maxBal s a" using assms(2) by (simp add: promise_ok_def)
  then have "b \<le> maxBal s' a" using assms(1) by (auto simp: spec_le_def intro: order.trans)
  moreover have "c < b \<Longrightarrow> votes s' a c = votes s a c" for c
    using le assms(1) by (auto simp: spec_le_def dest: order.strict_trans2)
  moreover have "proposal s c = Some v \<Longrightarrow> proposal s' c = Some v" for c v
    using assms(1) by (simp add: spec_le_def)
  ultimately show ?thesis using assms(2) by (cases lv) (auto simp: promise_ok_def)
qed

locale quorum_system =
  fixes Quorum :: "'a set \<Rightarrow> bool"
  assumes quorums_meet: "Quorum A \<Longrightarrow> Quorum B \<Longrightarrow> A \<inter> B \<noteq> {}"
begin

lemma step_le: "spec_step Quorum s s' \<Longrightarrow> spec_inv Quorum s \<Longrightarrow> spec_le s s'"
proof (induction rule: spec_step.induct)
  case (vote s b v a)
  then have "votes s a b = Some w \<Longrightarrow> w = v" for w
    using spec_invD(1) [of Quorum s a b w] by simp
  with vote show ?case by (auto simp: spec_le_def split: if_splits)
qed (auto simp: spec_le_def)

text \<open>The heart of the argument: the value picked from a quorum of promises is safe.\<close>

lemma picked_safe:
  assumes inv: "spec_inv Quorum s" and none: "proposal s b = None" and Q: "Quorum Q"
    and proms: "\<And>a. a \<in> Q \<Longrightarrow> (b, a, lv a) \<in> proms s" and v: "picks Q lv v"
  shows "safe_at Quorum s b v"
  unfolding safe_at_def
proof (intro allI impI)
  fix c assume c: "c < b"
  have ok: "promise_ok s b a (lv a)" if "a \<in> Q" for a
    using spec_invD(4) [OF inv proms [OF that]] .
  have up: "c < maxBal s a" if "a \<in> Q" for a
    using ok [OF that] c by (auto simp: promise_ok_def)
  from v consider "\<forall>a \<in> Q. lv a = None"
    | a m where "a \<in> Q" "lv a = Some (m, v)" "\<And>a' m' v'. a' \<in> Q \<Longrightarrow> lv a' = Some (m', v') \<Longrightarrow> m' \<le> m"
    unfolding picks_def by blast
  then show "\<exists>Q. Quorum Q \<and> (\<forall>a \<in> Q. c < maxBal s a \<and> votes s a c \<in> {None, Some v})"
  proof cases
    case 1
    then have "votes s a c = None" if "a \<in> Q" for a
      using ok [OF that] that c by (simp add: promise_ok_def)
    with up Q show ?thesis by auto
  next
    case (2 a m)
    have m: "proposal s m = Some v" using ok [OF 2(1)] 2(2) by (simp add: promise_ok_def)
    show ?thesis
    proof (cases "c < m")
      case True
      then show ?thesis using spec_invD(6) [OF inv m] by (simp add: safe_at_def)
    next
      case False
      have "votes s a' c \<in> {None, Some v}" if "a' \<in> Q" for a'
      proof (cases "m < c")
        case True
        then show ?thesis
        proof (cases "lv a'")
          case (Some p)
          obtain m' v' where p: "p = (m', v')" by (cases p)
          with 2(3) [OF that] Some have "m' \<le> m" by simp
          with True have "m' < c" by simp
          then show ?thesis using ok [OF that] Some p c by (simp add: promise_ok_def)
        qed (use ok [OF that] c in \<open>simp add: promise_ok_def\<close>)
      next
        case False
        with \<open>\<not> c < m\<close> have "c = m" by simp
        then show ?thesis using m spec_invD(1) [OF inv, of a' c] by (cases "votes s a' c") auto
      qed
      with up Q show ?thesis by blast
    qed
  qed
qed

lemma step_inv:
  assumes "spec_step Quorum s s'" "spec_inv Quorum s"
  shows "spec_inv Quorum s'"
proof -
  note le = step_le [OF assms]
  have proms: "(b, a, lv) \<in> proms s \<Longrightarrow> promise_ok s' b a lv" for b a lv
    by (rule promise_ok_mono [OF le spec_invD(4) [OF assms(2)]])
  have safe: "proposal s b = Some v \<Longrightarrow> 0 < b \<and> safe_at Quorum s' b v" for b v
    using safe_at_mono [OF le spec_invD(6) [OF assms(2)]] spec_invD(5) [OF assms(2)] by blast
  show ?thesis
    using assms(1)
  proof cases
    case (promise a b)
    have lo: "last_ok s' x" for x
      using spec_invD(3) [OF assms(2), of x] promise by (auto simp: last_ok_def split: option.splits)
    have "promise_ok s' b a (lastVote s a)"
    proof (cases "lastVote s a")
      case None
      then show ?thesis using spec_invD(3) [OF assms(2), of a] promise
        by (simp add: promise_ok_def last_ok_def)
    next
      case (Some p)
      obtain m v where p: "p = (m, v)" by (cases p)
      with Some spec_invD(3) [OF assms(2), of a]
      have l: "votes s a m = Some v" "m \<le> maxBal s a" "\<forall>c > m. votes s a c = None"
        by (auto simp: last_ok_def)
      have "m < b \<or> proposal s b \<noteq> None"
        using l spec_invD(1) [OF assms(2) l(1)] promise(2) by (cases "m = b") auto
      then show ?thesis using l spec_invD(1) [OF assms(2) l(1)] promise Some p
        by (simp add: promise_ok_def)
    qed
    then have "promise_ok s' c x lv" if "(c, x, lv) \<in> proms s'" for c x lv
      using that proms promise(1) by auto
    moreover have "proposal s' c = Some v \<and> c \<le> maxBal s' x" if "votes s' x c = Some v" for x c v
      using that spec_invD(1,2) [OF assms(2), of x c v] promise by (auto intro: order.trans)
    ultimately show ?thesis using lo safe promise(1) by (auto simp: spec_inv_def)
  next
    case (propose b Q lv v)
    have "safe_at Quorum s b v" by (rule picked_safe [OF assms(2) propose(2,4,5,6)])
    then have "safe_at Quorum s' b v" by (rule safe_at_mono [OF le])
    then have "0 < c \<and> safe_at Quorum s' c w" if "proposal s' c = Some w" for c w
      using that safe propose(1,3) by (cases "c = b") auto
    moreover have "last_ok s' x" for x
      using spec_invD(3) [OF assms(2), of x] propose(1) by (auto simp: last_ok_def split: option.splits)
    moreover have "proposal s' c = Some w \<and> c \<le> maxBal s' x" if "votes s' x c = Some w" for x c w
      using that spec_invD(1,2) [OF assms(2), of x c w] propose(1,2) by auto
    moreover have "promise_ok s' c x lv" if "(c, x, lv) \<in> proms s'" for c x lv
      using that proms propose(1) by auto
    ultimately show ?thesis by (auto simp: spec_inv_def)
  next
    case (vote b v a)
    have "last_ok s' x" for x
    proof (cases "x = a")
      case True
      have "votes s a c = None" if "b < c" for c
        using that vote(3) spec_invD(2) [OF assms(2), of a c] by (cases "votes s a c") auto
      then show ?thesis using True vote(1) by (simp add: last_ok_def)
    next
      case False
      then show ?thesis using spec_invD(3) [OF assms(2), of x] vote(1)
        by (auto simp: last_ok_def split: option.splits)
    qed
    moreover have "proposal s' c = Some w \<and> c \<le> maxBal s' x" if "votes s' x c = Some w" for x c w
      using that spec_invD(1,2) [OF assms(2), of x c w] vote by (auto split: if_splits intro: order.trans)
    moreover have "promise_ok s' c x lv" if "(c, x, lv) \<in> proms s'" for c x lv
      using that proms vote(1) by auto
    moreover have "0 < c \<and> safe_at Quorum s' c w" if "proposal s' c = Some w" for c w
      using that safe vote(1) by auto
    ultimately show ?thesis by (auto simp: spec_inv_def)
  qed
qed

lemma steps_inv:
  "(spec_step Quorum)\<^sup>*\<^sup>* s s' \<Longrightarrow> spec_inv Quorum s \<Longrightarrow> spec_inv Quorum s' \<and> spec_le s s'"
  by (induction rule: rtranclp_induct) (auto intro: step_inv spec_le_trans dest: step_le)

lemma agreement_below:
  assumes "spec_inv Quorum s" "chosen Quorum s b v" "chosen Quorum s c w" "c < b"
  shows "v = w"
proof -
  from assms(2,3) obtain A B where A: "Quorum A" "\<And>a. a \<in> A \<Longrightarrow> votes s a b = Some v"
    and B: "Quorum B" "\<And>a. a \<in> B \<Longrightarrow> votes s a c = Some w" unfolding chosen_def by blast
  obtain a where "a \<in> A" using quorums_meet [OF A(1) A(1)] by blast
  then have "safe_at Quorum s b v" using A(2) spec_invD(1,6) [OF assms(1)] by blast
  with assms(4) obtain Q where "Quorum Q" "\<And>a. a \<in> Q \<Longrightarrow> votes s a c \<in> {None, Some v}"
    unfolding safe_at_def by blast
  moreover obtain x where "x \<in> Q" "x \<in> B" using quorums_meet [OF \<open>Quorum Q\<close> B(1)] by blast
  ultimately show ?thesis using B(2) by fastforce
qed

lemma agreement:
  assumes "spec_inv Quorum s" "chosen Quorum s b v" "chosen Quorum s c w"
  shows "v = w"
proof -
  consider "c < b" | "b < c" | "b = c" by fastforce
  then show ?thesis
  proof cases
    case 3
    from assms(2,3) obtain A B where A: "Quorum A" "\<And>a. a \<in> A \<Longrightarrow> votes s a b = Some v"
      and B: "Quorum B" "\<And>a. a \<in> B \<Longrightarrow> votes s a c = Some w" unfolding chosen_def by blast
    then obtain x where "x \<in> A" "x \<in> B" using quorums_meet [OF A(1) B(1)] by blast
    with A(2) B(2) 3 show ?thesis by fastforce
  qed (use agreement_below assms in blast)+
qed

end

section \<open>Majorities\<close>

text \<open>The quorums of a cluster with members \<open>M\<close>: sets of at least as many members as the
  quorum size that \<open>NewNode\<close> computes.\<close>

definition majority :: "'a set \<Rightarrow> 'a set \<Rightarrow> bool" where
  "majority M Q \<longleftrightarrow> finite M \<and> Q \<subseteq> M \<and> quorum_of_peers (card M - 1) \<le> card Q"

lemma majorities_intersect:
  assumes "majority M A" "majority M B"
  shows "A \<inter> B \<noteq> {}"
proof (cases "M = {}")
  case True
  with assms(1) show ?thesis by (auto simp: majority_def quorum_of_peers_def)
next
  case False
  with assms show ?thesis
    by (intro majorities_meet [of M "card M - 1"]) (auto simp: majority_def card_gt_0_iff Suc_leI)
qed

interpretation maj: quorum_system "majority M" for M
  by unfold_locales (rule majorities_intersect)

text \<open>Agreement of the specification with the quorums of the code: in every state that
  promises, proposals and votes can reach, at most one value is chosen, in whatever ballots.\<close>

lemma spec_agreement:
  assumes "(spec_step (majority M))\<^sup>*\<^sup>* spec_init s" "chosen (majority M) s b v" "chosen (majority M) s c w"
  shows "v = w"
  using maj.steps_inv [OF assms(1) spec_inv_init] maj.agreement [OF _ assms(2,3)] by blast

end
