(* ===== verification/Transport.thy ===== *)
theory Transport
  imports Messages
begin

text \<open>
  \<^verbatim>\<open>paxos/transport_tcp.go\<close>: length-prefixed frames on a byte stream, the identity
  handshake, and the table of connections keyed by peer.  Sockets are identities (\<open>nat\<close>);
  closing one is recorded in the set \<open>closedConns\<close>.  Dialling, listening and the goroutines
  that run the loops are the environment: it decides which step happens next.
\<close>

section \<open>Frames\<close>

definition writeMessage :: "Message \<Rightarrow> byte list" where
  "writeMessage msg = (let data = Encode msg in put32 (word_of_nat (length data)) @ data)"

text \<open>\<open>readMessage\<close> decodes the frame's bytes on their own; bytes of the frame after the
  message are ignored.\<close>

definition readMessage :: "Message reader" where
  "readMessage = rd_bind read32 (\<lambda>len. rd_bind (read_full (unat len)) (\<lambda>data.
     (\<lambda>rest. res_bind (decodeMessage data) (\<lambda>(msg, _). Inr (msg, rest)))))"

text \<open>What the peer's read loop gets from one write on a healthy connection: the frame and
  nothing else, or nothing if the frame cannot be read back.\<close>

definition transmit :: "Message \<Rightarrow> Message option" where
  "transmit m = (case readMessage (writeMessage m) of Inr (m', []) \<Rightarrow> Some m' | _ \<Rightarrow> None)"

section \<open>Connections\<close>

record tcpConn =
  conn :: nat
  peerID :: NodeID
  initiatedByMe :: bool

record TCPTransport =
  tp_nodeID :: NodeID
  listenAddr :: string
  conns :: "NodeID \<rightharpoonup> tcpConn"
  peerAddrs :: "string set"
  addrToNode :: "string \<rightharpoonup> NodeID"
  incoming :: "(NodeID \<times> Message) list"
  tp_closed :: bool
  closedConns :: "nat set"

definition incoming_capacity :: nat where "incoming_capacity = 1000"

definition NewTCPTransport :: "NodeID \<Rightarrow> TCPTransport" where
  "NewTCPTransport n =
     \<lparr>tp_nodeID = n, listenAddr = '''', conns = Map.empty, peerAddrs = {}, addrToNode = Map.empty,
      incoming = [], tp_closed = False, closedConns = {}\<rparr>"

definition close_conn :: "nat \<Rightarrow> TCPTransport \<Rightarrow> TCPTransport" where
  "close_conn c t = t\<lparr>closedConns := insert c (closedConns t)\<rparr>"

subsection \<open>Handshake\<close>

definition char_byte :: "char \<Rightarrow> byte" where "char_byte c = word_of_nat (of_char c)"
definition byte_char :: "byte \<Rightarrow> char" where "byte_char b = char_of (unat b)"

definition handshake_send :: "NodeID \<Rightarrow> string \<Rightarrow> byte list" where
  "handshake_send myID myAddr =
     put16 myID @ put16 (word_of_nat (length myAddr)) @ map char_byte myAddr"

definition handshake_recv :: "NodeID \<Rightarrow> (NodeID \<times> string) reader" where
  "handshake_recv myID = rd_bind read16 (\<lambda>peer. rd_bind read16 (\<lambda>addrLen.
     rd_bind (read_full (unat addrLen)) (\<lambda>addrBytes.
       if peer = myID then rd_fail (ErrOwnNodeID myID)
       else rd_return (peer, map byte_char addrBytes))))"

subsection \<open>Registration\<close>

definition registerLocked :: "tcpConn \<Rightarrow> TCPTransport \<Rightarrow> bool \<times> TCPTransport" where
  "registerLocked tc t =
     (case conns t (peerID tc) of
        Some existing \<Rightarrow>
          let winnerInitiatedByMe = (tp_nodeID t < peerID tc) in
          if initiatedByMe tc \<noteq> winnerInitiatedByMe then (False, t)
          else let t = close_conn (conn existing) t
               in (True, t\<lparr>conns := (conns t)(peerID tc \<mapsto> tc)\<rparr>)
      | None \<Rightarrow> (True, t\<lparr>conns := (conns t)(peerID tc \<mapsto> tc)\<rparr>))"

text \<open>\<open>setupConn\<close> on a socket whose handshake input is \<open>bs\<close>: on success the connection and
  the bytes that the read loop continues with.\<close>

definition setupConn ::
  "nat \<Rightarrow> bool \<Rightarrow> byte list \<Rightarrow> TCPTransport \<Rightarrow> (tcpConn \<times> byte list) option \<times> TCPTransport" where
  "setupConn c byMe bs t =
     (case handshake_recv (tp_nodeID t) bs of
        Inl e \<Rightarrow> (None, close_conn c t)
      | Inr ((peer, peerAddr), rest) \<Rightarrow>
          if tp_closed t then (None, close_conn c t)
          else
            let t = (if peerAddr \<noteq> '''' then t\<lparr>addrToNode := (addrToNode t)(peerAddr \<mapsto> peer)\<rparr> else t);
                tc = \<lparr>conn = c, peerID = peer, initiatedByMe = byMe\<rparr>
            in case registerLocked tc t of
                 (False, t) \<Rightarrow> (None, close_conn c t)
               | (True, t) \<Rightarrow> (Some (tc, rest), t))"

subsection \<open>Reading, sending, closing\<close>

definition readLoop_deliver :: "tcpConn \<Rightarrow> Message \<Rightarrow> TCPTransport \<Rightarrow> TCPTransport" where
  "readLoop_deliver tc msg t =
     (if length (incoming t) < incoming_capacity
      then t\<lparr>incoming := incoming t @ [(peerID tc, msg)]\<rparr> else t)"

definition readLoop_exit :: "tcpConn \<Rightarrow> TCPTransport \<Rightarrow> TCPTransport" where
  "readLoop_exit tc t =
     (let t = (if conns t (peerID tc) = Some tc then t\<lparr>conns := go_delete (peerID tc) (conns t)\<rparr> else t)
      in close_conn (conn tc) t)"

lemma readMessage_consumes:
  assumes "readMessage bs = Inr (m, r)"
  shows "length r + 4 \<le> length bs"
proof -
  from assms obtain len s data where "read32 bs = Inr (len, s)" "read_full (unat len) s = Inr (data, r)"
    by (auto simp: readMessage_def rd_bind_Inr res_bind_eq_Inr)
  then show ?thesis by (auto dest!: u32_codec.dec_sound read_full_Inr)
qed

text \<open>The read loop over the bytes that arrive on a connection until it fails.\<close>

function readLoop :: "tcpConn \<Rightarrow> byte list \<Rightarrow> TCPTransport \<Rightarrow> TCPTransport" where
  "readLoop tc bs t =
     (case readMessage bs of
        Inl e \<Rightarrow> readLoop_exit tc t
      | Inr (msg, rest) \<Rightarrow> readLoop tc rest (readLoop_deliver tc msg t))"
  by pat_completeness auto

termination
  by (relation "measure (\<lambda>(tc, bs, t). length bs)") (auto dest: readMessage_consumes)

declare readLoop.simps [simp del]

definition Send :: "NodeID \<Rightarrow> Message \<Rightarrow> TCPTransport \<Rightarrow> (nat \<times> byte list) result" where
  "Send to msg t =
     (case conns t to of None \<Rightarrow> Inl (ErrNoConnection to) | Some tc \<Rightarrow> Inr (conn tc, writeMessage msg))"

text \<open>\<open>Broadcast\<close>: every registered connection gets the frame; a failed write is only logged
  and the call returns no error.\<close>

definition Broadcast :: "Message \<Rightarrow> TCPTransport \<Rightarrow> error option \<times> (nat \<times> byte list) set" where
  "Broadcast msg t = (None, (\<lambda>tc. (conn tc, writeMessage msg)) ` ran (conns t))"

definition connectedTo :: "string \<Rightarrow> TCPTransport \<Rightarrow> bool" where
  "connectedTo addr t =
     (case addrToNode t addr of None \<Rightarrow> False | Some n \<Rightarrow> conns t n \<noteq> None)"

text \<open>\<open>Connect\<close> remembers the address; the result says whether it dials.\<close>

definition Connect :: "string \<Rightarrow> TCPTransport \<Rightarrow> bool \<times> TCPTransport" where
  "Connect addr t =
     (let t = t\<lparr>peerAddrs := insert addr (peerAddrs t)\<rparr> in (\<not> connectedTo addr t, t))"

text \<open>\<open>Listen\<close> and \<open>dial\<close> with the outcome of the network call as an argument: the error, or
  nothing for \<open>net.Listen\<close>, and the error, or the new socket with the bytes its peer sends,
  for \<open>net.DialTimeout\<close>.  A failed handshake is not an error of \<open>dial\<close>.\<close>

definition Listen :: "string \<Rightarrow> error option \<Rightarrow> TCPTransport \<Rightarrow> error option \<times> TCPTransport" where
  "Listen addr err t = (case err of Some e \<Rightarrow> (Some e, t) | None \<Rightarrow> (None, t\<lparr>listenAddr := addr\<rparr>))"

definition dial :: "(nat \<times> byte list) result \<Rightarrow> TCPTransport \<Rightarrow> error option \<times> TCPTransport" where
  "dial outcome t =
     (case outcome of
        Inl e \<Rightarrow> (Some e, t)
      | Inr (c, bs) \<Rightarrow> (None, snd (setupConn c True bs t)))"

definition reconnect_missing :: "TCPTransport \<Rightarrow> string set" where
  "reconnect_missing t = {addr \<in> peerAddrs t. \<not> connectedTo addr t}"

definition Close :: "TCPTransport \<Rightarrow> TCPTransport" where
  "Close t =
     (if tp_closed t then t
      else t\<lparr>tp_closed := True, closedConns := closedConns t \<union> conn ` ran (conns t), conns := Map.empty\<rparr>)"

section \<open>Frames round trip\<close>

definition frame_fits :: "Message \<Rightarrow> bool" where
  "frame_fits m \<longleftrightarrow> length (Encode m) < 2 ^ 32"

lemma frame_fits_msg: "frame_fits m \<Longrightarrow> msg_fits m"
  by (cases m) (auto simp: frame_fits_def encode_defs put_value_def value_fits_def slice_len_def)

lemma frame_len: "frame_fits m \<Longrightarrow> unat (word_of_nat (length (Encode m)) :: 32 word) = length (Encode m)"
  by (simp add: frame_fits_def unat_of_nat)

lemma parses_frame:
  assumes "frame_fits m"
  shows "parses readMessage (writeMessage m) (wire m)"
proof -
  have d: "decodeMessage (Encode m) = Inr (wire m, [])"
    using message_codec.round_trip [OF frame_fits_msg [OF assms], of "[]"] by simp
  have f: "parses (rd_bind (read_full (length (Encode m)))
      (\<lambda>data rest. res_bind (decodeMessage data) (\<lambda>(msg, _). Inr (msg, rest)))) (Encode m) (wire m)"
    by (rule parses_bind_last [OF parses_read_full]) (simp_all add: parses_def d)
  show ?thesis
    unfolding readMessage_def writeMessage_def Let_def
    by (rule parses_bind [OF parses_read_word], simp, simp add: frame_len [OF assms] f)
qed

interpretation frame_codec: codec writeMessage readMessage wire frame_fits
  by unfold_locales (rule parses_frame, simp_all add: writeMessage_def Let_def)

lemma transmit_fits: "frame_fits m \<Longrightarrow> transmit m = Some (wire m)"
  using frame_codec.round_trip [of m "[]"] by (simp add: transmit_def)

text \<open>A frame that is read back whole was short enough: the length prefix of a longer one is
  too small and leaves bytes behind.\<close>

lemma readMessage_prefix:
  "readMessage (put32 w @ bs) = res_bind (read_full (unat w) bs) (\<lambda>(data, rest).
     res_bind (decodeMessage data) (\<lambda>(msg, _). Inr (msg, rest)))"
proof -
  have "read32 (put32 w @ bs) = Inr (w, bs)" by (rule read_word_put) simp
  then show ?thesis by (simp add: readMessage_def rd_bind_def case_prod_beta)
qed

lemma transmit_Some:
  assumes "transmit m = Some m'"
  shows "m' = wire m \<and> frame_fits m"
proof -
  let ?L = "length (Encode m)"
  have "readMessage (writeMessage m) = Inr (m', [])"
  proof (cases "readMessage (writeMessage m)")
    case (Inr x)
    obtain a r where x: "x = (a, r)" by (cases x)
    with Inr assms show ?thesis by (cases r) (simp_all add: transmit_def)
  qed (use assms in \<open>simp add: transmit_def\<close>)
  then obtain data where d: "read_full (unat (word_of_nat ?L :: 32 word)) (Encode m) = Inr (data, [])"
    by (simp add: writeMessage_def Let_def readMessage_prefix res_bind_eq_Inr case_prod_beta) (metis prod.collapse)
  from read_full_Inr [OF d] have "?L = unat (word_of_nat ?L :: 32 word)"
    by (metis append_Nil2)
  then have "frame_fits m"
    unfolding frame_fits_def by (metis unat_word32_less)
  with transmit_fits [of m] assms show ?thesis by simp
qed

lemma transmit_iff: "transmit m = (if frame_fits m then Some (wire m) else None)"
proof (cases "transmit m")
  case None
  then show ?thesis using transmit_fits [of m] by auto
next
  case (Some m')
  then show ?thesis using transmit_Some [OF Some] by simp
qed

section \<open>The connection table\<close>

text \<open>Every registered connection sits under its own peer's identifier, no connection leads
  to the node itself, and a closed transport has none.\<close>

definition tp_inv :: "TCPTransport \<Rightarrow> bool" where
  "tp_inv t \<longleftrightarrow> (\<forall>p tc. conns t p = Some tc \<longrightarrow> peerID tc = p \<and> p \<noteq> tp_nodeID t)
     \<and> (tp_closed t \<longrightarrow> conns t = Map.empty)"

lemma tp_inv_new: "tp_inv (NewTCPTransport n)"
  by (simp add: tp_inv_def NewTCPTransport_def)

lemma close_conn_simps [simp]:
  "conns (close_conn c t) = conns t" "tp_nodeID (close_conn c t) = tp_nodeID t"
  "tp_closed (close_conn c t) = tp_closed t" "addrToNode (close_conn c t) = addrToNode t"
  "closedConns (close_conn c t) = insert c (closedConns t)"
  by (simp_all add: close_conn_def)

lemma tp_inv_close_conn [simp]: "tp_inv (close_conn c t) = tp_inv t"
  by (simp add: tp_inv_def)

lemma tp_inv_upd:
  assumes "tp_inv t" "\<not> tp_closed t" "peerID tc \<noteq> tp_nodeID t"
  shows "tp_inv (t\<lparr>conns := (conns t)(peerID tc \<mapsto> tc)\<rparr>)"
  using assms by (simp add: tp_inv_def)

lemma registerLocked_inv:
  assumes "tp_inv t" "\<not> tp_closed t" "peerID tc \<noteq> tp_nodeID t"
  shows "tp_inv (snd (registerLocked tc t))"
proof (cases "conns t (peerID tc)")
  case None
  then show ?thesis using tp_inv_upd [OF assms] by (simp add: registerLocked_def)
next
  case (Some e)
  have "tp_inv ((close_conn (conn e) t)\<lparr>conns := (conns (close_conn (conn e) t))(peerID tc \<mapsto> tc)\<rparr>)"
    by (rule tp_inv_upd) (use assms in simp_all)
  then show ?thesis using Some assms by (simp add: registerLocked_def Let_def)
qed

lemma handshake_recv_peer:
  "handshake_recv n bs = Inr ((p, a), r) \<Longrightarrow> p \<noteq> n"
  by (auto simp: handshake_recv_def rd_bind_Inr rd_fail_def split: if_splits)

lemma setupConn_ok:
  assumes "handshake_recv (tp_nodeID t) bs = Inr ((peer, addr), rest)" "\<not> tp_closed t"
  shows "setupConn c byMe bs t =
    (let t' = (if addr \<noteq> '''' then t\<lparr>addrToNode := (addrToNode t)(addr \<mapsto> peer)\<rparr> else t);
         tc = \<lparr>conn = c, peerID = peer, initiatedByMe = byMe\<rparr>;
         (won, t'') = registerLocked tc t'
     in if won then (Some (tc, rest), t'') else (None, close_conn c t''))"
  using assms by (simp add: setupConn_def Let_def case_prod_beta split: bool.splits)

lemma setupConn_inv: "tp_inv t \<Longrightarrow> tp_inv (snd (setupConn c byMe bs t))"
proof (cases "handshake_recv (tp_nodeID t) bs")
  case (Inr x)
  obtain p a r where x: "x = ((p, a), r)" by (metis prod.collapse)
  assume inv: "tp_inv t"
  show ?thesis
  proof (cases "tp_closed t")
    case True
    then show ?thesis using inv Inr x by (simp add: setupConn_def)
  next
    case False
    let ?t = "if a \<noteq> '''' then t\<lparr>addrToNode := (addrToNode t)(a \<mapsto> p)\<rparr> else t"
    let ?tc = "\<lparr>conn = c, peerID = p, initiatedByMe = byMe\<rparr>"
    have t: "tp_inv ?t" "\<not> tp_closed ?t" "tp_nodeID ?t = tp_nodeID t"
      using inv False by (simp_all add: tp_inv_def)
    have "tp_inv (snd (registerLocked ?tc ?t))"
      by (rule registerLocked_inv [OF t(1,2)]) (use t(3) handshake_recv_peer [OF Inr [unfolded x]] in simp)
    then show ?thesis
      unfolding setupConn_ok [OF Inr [unfolded x] False] Let_def by (simp add: case_prod_beta)
  qed
qed (simp add: setupConn_def)

lemma tp_inv_mono:
  assumes "tp_inv t" "\<And>p tc. conns t' p = Some tc \<Longrightarrow> conns t p = Some tc"
    "tp_nodeID t' = tp_nodeID t" "tp_closed t' = tp_closed t"
  shows "tp_inv t'"
proof -
  have "conns t = Map.empty \<Longrightarrow> conns t' = Map.empty"
    using assms(2) by (metis not_None_eq map_empty_iff map_empty_simps(1) ext)
  with assms show ?thesis unfolding tp_inv_def by metis
qed

lemma readLoop_exit_inv: "tp_inv t \<Longrightarrow> tp_inv (readLoop_exit tc t)"
  by (erule tp_inv_mono) (auto simp: readLoop_exit_def Let_def go_delete_apply split: if_splits)

lemma readLoop_deliver_inv: "tp_inv t \<Longrightarrow> tp_inv (readLoop_deliver tc m t)"
  by (erule tp_inv_mono) (simp_all add: readLoop_deliver_def split: if_splits)

lemma readLoop_inv: "tp_inv t \<Longrightarrow> tp_inv (readLoop tc bs t)"
proof (induction tc bs t rule: readLoop.induct)
  case (1 tc bs t)
  show ?case
  proof (cases "readMessage bs")
    case (Inl e)
    then show ?thesis using 1(2) by (simp add: readLoop.simps [of tc bs] readLoop_exit_inv)
  next
    case (Inr x)
    obtain m r where x: "x = (m, r)" by (cases x)
    then show ?thesis
      using 1(1) [OF Inr x [symmetric] readLoop_deliver_inv [OF 1(2)]] Inr by (simp add: readLoop.simps [of tc bs])
  qed
qed

text \<open>The transport under any sequence of its operations, each socket with any input.\<close>

inductive tp_reachable :: "NodeID \<Rightarrow> TCPTransport \<Rightarrow> bool" for n where
  init: "tp_reachable n (NewTCPTransport n)"
| listen: "tp_reachable n t \<Longrightarrow> tp_reachable n (snd (Listen addr err t))"
| connect: "tp_reachable n t \<Longrightarrow> tp_reachable n (snd (Connect addr t))"
| dial: "tp_reachable n t \<Longrightarrow> tp_reachable n (snd (dial outcome t))"
| accept: "tp_reachable n t \<Longrightarrow> tp_reachable n (snd (setupConn c False bs t))"
| deliver: "tp_reachable n t \<Longrightarrow> tp_reachable n (readLoop_deliver tc m t)"
| exit: "tp_reachable n t \<Longrightarrow> tp_reachable n (readLoop_exit tc t)"
| consume: "tp_reachable n t \<Longrightarrow> tp_reachable n (t\<lparr>incoming := tl (incoming t)\<rparr>)"
| close: "tp_reachable n t \<Longrightarrow> tp_reachable n (Close t)"

lemma registerLocked_frame:
  "tp_nodeID (snd (registerLocked tc t)) = tp_nodeID t"
  "incoming (snd (registerLocked tc t)) = incoming t"
  "tp_closed (snd (registerLocked tc t)) = tp_closed t"
  by (simp_all add: registerLocked_def Let_def close_conn_def split: option.splits)

lemma setupConn_frame:
  "tp_nodeID (snd (setupConn c byMe bs t)) = tp_nodeID t"
  "incoming (snd (setupConn c byMe bs t)) = incoming t"
  "tp_closed (snd (setupConn c byMe bs t)) = tp_closed t"
proof -
  have "tp_nodeID (snd (setupConn c byMe bs t)) = tp_nodeID t
    \<and> incoming (snd (setupConn c byMe bs t)) = incoming t
    \<and> tp_closed (snd (setupConn c byMe bs t)) = tp_closed t"
  proof (cases "handshake_recv (tp_nodeID t) bs")
    case (Inr x)
    obtain p a r where x: "x = ((p, a), r)" by (metis prod.collapse)
    show ?thesis
    proof (cases "tp_closed t")
      case True
      then show ?thesis using Inr x by (simp add: setupConn_def close_conn_def)
    next
      case False
      then show ?thesis
        unfolding setupConn_ok [OF Inr [unfolded x] False] Let_def
        by (simp add: case_prod_beta registerLocked_frame close_conn_def)
    qed
  qed (simp add: setupConn_def close_conn_def)
  then show "tp_nodeID (snd (setupConn c byMe bs t)) = tp_nodeID t"
    "incoming (snd (setupConn c byMe bs t)) = incoming t"
    "tp_closed (snd (setupConn c byMe bs t)) = tp_closed t" by simp_all
qed

lemma tp_reachable_inv:
  assumes "tp_reachable n t"
  shows "tp_inv t \<and> tp_nodeID t = n \<and> length (incoming t) \<le> incoming_capacity"
  using assms
proof induction
  case init
  show ?case by (simp add: tp_inv_new) (simp add: NewTCPTransport_def)
next
  case (listen t addr err)
  have "tp_inv (snd (Listen addr err t))"
    by (rule tp_inv_mono [of t]) (use listen in \<open>simp_all add: Listen_def split: option.splits\<close>)
  with listen show ?case by (simp add: Listen_def split: option.splits)
next
  case (connect t addr)
  have "tp_inv (snd (Connect addr t))"
    by (rule tp_inv_mono [of t]) (use connect in \<open>simp_all add: Connect_def Let_def\<close>)
  with connect show ?case by (simp add: Connect_def Let_def)
next
  case (dial t outcome)
  show ?case
  proof (cases outcome)
    case (Inr x)
    obtain c bs where "x = (c, bs)" by (cases x)
    with Inr dial show ?thesis by (simp add: dial_def setupConn_inv setupConn_frame)
  qed (use dial in \<open>simp add: dial_def\<close>)
next
  case (accept t c bs)
  then show ?case by (simp add: setupConn_inv setupConn_frame)
next
  case (deliver t tc m)
  then show ?case by (simp add: readLoop_deliver_inv) (simp add: readLoop_deliver_def)
next
  case (exit t tc)
  then show ?case by (simp add: readLoop_exit_inv) (simp add: readLoop_exit_def Let_def close_conn_def)
next
  case (consume t)
  have "tp_inv (t\<lparr>incoming := tl (incoming t)\<rparr>)"
    by (rule tp_inv_mono [of t]) (use consume in simp_all)
  with consume show ?case by (simp add: le_diff_conv)
next
  case (close t)
  then show ?case by (simp add: Close_def tp_inv_def)
qed

lemma handshake_exchange:
  assumes "length addr < 65536"
  shows "handshake_recv me (handshake_send peer addr @ rest) =
    (if peer = me then Inl (ErrOwnNodeID me) else Inr ((peer, addr), rest))"
proof -
  let ?n = "word_of_nat (length addr) :: 16 word"
  have n: "unat ?n = length addr" using assms by (simp add: unat_of_nat)
  have c: "byte_char (char_byte c) = c" for c
  proof -
    have "(of_char c :: nat) < 256" by simp
    then show ?thesis by (simp add: byte_char_def char_byte_def unat_of_nat)
  qed
  have "read16 (put16 peer @ bs) = Inr (peer, bs)" "read16 (put16 ?n @ bs) = Inr (?n, bs)" for bs
    by (simp_all add: read_word_put)
  then show ?thesis
    using n by (simp add: handshake_send_def handshake_recv_def rd_bind_def read_full_append
      rd_fail_def rd_return_def comp_def c)
qed

section \<open>Properties\<close>

text \<open>C37. The read loop delivers exactly the messages that were written, in the order they
  were written and under the peer's identifier, up to the capacity of the incoming channel;
  a frame cut off by the end of the connection is never delivered.\<close>

theorem readLoop_delivers_stream:
  assumes "list_all frame_fits ms" and "frame_fits m" and "strict_prefix q (writeMessage m)"
    and "length (incoming t) \<le> incoming_capacity"
  shows "readLoop tc (concat (map writeMessage ms) @ q) t =
    readLoop_exit tc (t\<lparr>incoming := incoming t @
      take (incoming_capacity - length (incoming t)) (map (\<lambda>m. (peerID tc, wire m)) ms)\<rparr>)"
  using assms(1,4)
proof (induction ms arbitrary: t)
  case Nil
  have "short_read (readMessage q)" by (rule frame_codec.truncated [OF assms(2,3)])
  then show ?case by (auto simp: readLoop.simps [of tc q] short_read_def)
next
  case (Cons x ms)
  have "readMessage (writeMessage x @ concat (map writeMessage ms) @ q)
      = Inr (wire x, concat (map writeMessage ms) @ q)"
    using Cons.prems by (intro frame_codec.round_trip) simp
  moreover have "length (incoming (readLoop_deliver tc (wire x) t)) \<le> incoming_capacity"
    using Cons.prems by (simp add: readLoop_deliver_def)
  ultimately show ?case
    using Cons.IH [of "readLoop_deliver tc (wire x) t"] Cons.prems
    by (simp add: readLoop.simps [of tc "writeMessage x @ _"] readLoop_deliver_def take_Cons' Suc_diff_Suc)
qed

theorem readLoop_delivers_stream_witness:
  "readLoop \<lparr>conn = 7, peerID = 2, initiatedByMe = True\<rparr>
     (writeMessage (Prepare 65538 1) @ writeMessage (Accept 65538 1 (Some [9])) @ take 3 (writeMessage (Prepare 65538 1)))
     (NewTCPTransport 1)
   = readLoop_exit \<lparr>conn = 7, peerID = 2, initiatedByMe = True\<rparr>
     ((NewTCPTransport 1)\<lparr>incoming := [(2, Prepare 65538 1), (2, Accept 65538 1 (Some [9]))]\<rparr>)"
proof -
  have "strict_prefix (take 3 (writeMessage (Prepare 65538 1))) (writeMessage (Prepare 65538 1))"
    by (auto simp: strict_prefix_def take_is_prefix writeMessage_def Let_def dest: arg_cong [where f = length])
  moreover have "list_all frame_fits [Prepare 65538 1, Accept 65538 1 (Some [9])]"
    by (simp add: frame_fits_def encode_defs put_value_def)
  ultimately show ?thesis
    using readLoop_delivers_stream [of "[Prepare 65538 1, Accept 65538 1 (Some [9])]" "Prepare 65538 1" "take 3 (writeMessage (Prepare 65538 1))"
      "NewTCPTransport 1" "\<lparr>conn = 7, peerID = 2, initiatedByMe = True\<rparr>"]
    by (simp add: NewTCPTransport_def incoming_capacity_def wire_value_def)
qed

text \<open>The identity handshake: what one end sends, the other end reads back as the
  sender's identifier and listen address, and leaves the bytes that follow for the read loop;
  a peer that reports the reader's own identifier is refused.\<close>

theorem handshake_round_trip:
  assumes "length addr < 65536"
  shows "handshake_recv me (handshake_send peer addr @ rest) =
    (if peer = me then Inl (ErrOwnNodeID me) else Inr ((peer, addr), rest))"
  by (rule handshake_exchange [OF assms])

theorem handshake_round_trip_witness:
  "handshake_recv 1 (handshake_send 2 ''10.0.0.2:9000'' @ [4, 5]) = Inr ((2, ''10.0.0.2:9000''), [4, 5])"
  using handshake_round_trip [of "''10.0.0.2:9000''" 1 2 "[4, 5]"] by simp

lemma setupConn_fresh:
  assumes "tp_nodeID t = n" "p \<noteq> n" "\<not> tp_closed t" "length addr < 65536" "conns t p = None"
    and t': "t' = snd (setupConn c byMe (handshake_send p addr) t)"
  shows "conns t' p = Some \<lparr>conn = c, peerID = p, initiatedByMe = byMe\<rparr> \<and>
    closedConns t' = closedConns t \<and> tp_nodeID t' = n \<and> \<not> tp_closed t'"
proof -
  have "handshake_recv (tp_nodeID t) (handshake_send p addr) = Inr ((p, addr), [])"
    using handshake_exchange [OF assms(4), of n p "[]"] assms(1,2) by simp
  from setupConn_ok [OF this assms(3)] show ?thesis
    unfolding t' using assms(1-5) by (simp add: Let_def registerLocked_def)
qed

lemma setupConn_duplicate:
  assumes "tp_nodeID t = n" "p \<noteq> n" "\<not> tp_closed t" "length addr < 65536" "conns t p = Some e"
    and t': "t' = snd (setupConn c byMe (handshake_send p addr) t)"
  shows "conns t' p = Some (if byMe = (n < p) then \<lparr>conn = c, peerID = p, initiatedByMe = byMe\<rparr> else e) \<and>
    closedConns t' = insert (if byMe = (n < p) then conn e else c) (closedConns t)"
proof -
  have "handshake_recv (tp_nodeID t) (handshake_send p addr) = Inr ((p, addr), [])"
    using handshake_exchange [OF assms(4), of n p "[]"] assms(1,2) by simp
  from setupConn_ok [OF this assms(3)] show ?thesis
    unfolding t' using assms(1-5) by (simp add: Let_def registerLocked_def close_conn_def)
qed

lemma mset_pair: "mset xs = {#x, y#} \<Longrightarrow> xs = [x, y] \<or> xs = [y, x]"
proof -
  assume m: "mset xs = {#x, y#}"
  then have "size (mset xs) = 2" by simp
  then obtain a b where "xs = [a, b]" by (auto simp: numeral_2_eq_2 length_Suc_conv)
  with m show ?thesis by (auto simp: add_eq_conv_ex)
qed

lemma setup_pair:
  assumes t: "tp_nodeID t = n" "p \<noteq> n" "\<not> tp_closed t" "length addr < 65536" "conns t p = None"
    and ev: "mset ev = {# (mine, True), (theirs, False) #}"
    and t': "t' = fold (\<lambda>(c, byMe) t. snd (setupConn c byMe (handshake_send p addr) t)) ev t"
  shows "map_option conn (conns t' p) = Some (if n < p then mine else theirs) \<and>
    closedConns t' = insert (if n < p then theirs else mine) (closedConns t)"
proof -
  let ?s = "\<lambda>(c, byMe) t. snd (setupConn c byMe (handshake_send p addr) t)"
  have two: "map_option conn (conns (?s (c', \<not> byMe) (?s (c, byMe) t)) p) = Some (if byMe = (n < p) then c else c')
      \<and> closedConns (?s (c', \<not> byMe) (?s (c, byMe) t)) = insert (if byMe = (n < p) then c' else c) (closedConns t)"
    for c c' byMe
  proof -
    define u where "u = snd (setupConn c byMe (handshake_send p addr) t)"
    from setupConn_fresh [OF t u_def]
    have u: "conns u p = Some \<lparr>conn = c, peerID = p, initiatedByMe = byMe\<rparr>"
      "closedConns u = closedConns t" "tp_nodeID u = n" "\<not> tp_closed u" by simp_all
    from setupConn_duplicate [OF u(3) t(2) u(4) t(4) u(1) refl, of c' "\<not> byMe"] u(2)
    show ?thesis by (simp add: u_def [symmetric])
  qed
  from mset_pair [OF ev] show ?thesis
  proof
    assume "ev = [(mine, True), (theirs, False)]"
    then show ?thesis using two [of theirs True mine] by (simp add: t')
  next
    assume "ev = [(theirs, False), (mine, True)]"
    then show ?thesis using two [of mine False theirs] by (cases "n < p") (simp_all add: t')
  qed
qed

text \<open>C38. Duplicate connections converge: when two nodes have dialled each other, then
  whatever the order in which each end sets the two connections up, both ends register the
  same one, namely the one dialled by the node with the lower identifier, both close the
  other, and neither closes the winner.\<close>

theorem duplicate_connections_converge:
  assumes "tp_nodeID tA = a" "tp_nodeID tB = b" "a \<noteq> b" "\<not> tp_closed tA" "\<not> tp_closed tB"
    and "conns tA b = None" "conns tB a = None" "length addrA < 65536" "length addrB < 65536"
    and "mset evA = {# (cA, True), (cB, False) #}" "mset evB = {# (cB, True), (cA, False) #}"
    and "tA' = fold (\<lambda>(c, byMe) t. snd (setupConn c byMe (handshake_send b addrB) t)) evA tA"
    and "tB' = fold (\<lambda>(c, byMe) t. snd (setupConn c byMe (handshake_send a addrA) t)) evB tB"
  shows "map_option conn (conns tA' b) = Some (if a < b then cA else cB)
    \<and> map_option conn (conns tB' a) = Some (if a < b then cA else cB)
    \<and> closedConns tA' = insert (if a < b then cB else cA) (closedConns tA)
    \<and> closedConns tB' = insert (if a < b then cB else cA) (closedConns tB)"
proof -
  note A = setup_pair [OF assms(1) assms(3) [symmetric] assms(4,9,6,10,12)]
  note B = setup_pair [OF assms(2,3,5,8,7,11,13)]
  consider "a < b" "\<not> b < a" | "b < a" "\<not> a < b" using assms(3) by (metis less_linear order.asym)
  then show ?thesis using A B by cases simp_all
qed

theorem duplicate_connections_converge_witness:
  "map_option conn (conns (snd (setupConn 8 False (handshake_send 2 ''B'')
      (snd (setupConn 7 True (handshake_send 2 ''B'') (NewTCPTransport 1))))) 2) = Some 7"
  using duplicate_connections_converge [of "NewTCPTransport 1" 1 "NewTCPTransport 2" 2 "''A''" "''B''"
      "[(7, True), (8, False)]" 7 8 "[(8, True), (7, False)]", OF _ _ _ _ _ _ _ _ _ _ _ refl refl]
  by (simp add: NewTCPTransport_def)

text \<open>A read loop that ends after its connection was replaced does not disturb the
  connection that replaced it, whatever it still read: the newer connection stays registered
  and is not closed.\<close>

theorem stale_readLoop_keeps_newer:
  assumes "conns t (peerID tc) = Some newer" and "conn newer \<noteq> conn tc"
    and "conn newer \<notin> closedConns t"
  shows "conns (readLoop tc bs t) (peerID tc) = Some newer \<and>
    conn newer \<notin> closedConns (readLoop tc bs t)"
  using assms
proof (induction tc bs t rule: readLoop.induct)
  case (1 tc bs t)
  show ?case
  proof (cases "readMessage bs")
    case (Inl e)
    have "newer \<noteq> tc" using 1(3) by auto
    with Inl 1(2-4) show ?thesis by (simp add: readLoop.simps [of tc bs] readLoop_exit_def Let_def)
  next
    case (Inr x)
    obtain m r where x: "x = (m, r)" by (cases x)
    have "conns (readLoop_deliver tc m t) = conns t" "closedConns (readLoop_deliver tc m t) = closedConns t"
      by (simp_all add: readLoop_deliver_def)
    with 1(1) [OF Inr x [symmetric]] 1(2-4) Inr x show ?thesis
      by (simp add: readLoop.simps [of tc bs])
  qed
qed

theorem stale_readLoop_keeps_newer_witness:
  "conns (readLoop \<lparr>conn = 7, peerID = 2, initiatedByMe = False\<rparr> [0, 0]
      ((NewTCPTransport 1)\<lparr>conns := [2 \<mapsto> \<lparr>conn = 8, peerID = 2, initiatedByMe = True\<rparr>]\<rparr>)) 2
    = Some \<lparr>conn = 8, peerID = 2, initiatedByMe = True\<rparr>"
  using stale_readLoop_keeps_newer [of "(NewTCPTransport 1)\<lparr>conns := [2 \<mapsto> \<lparr>conn = 8, peerID = 2, initiatedByMe = True\<rparr>]\<rparr>"
    "\<lparr>conn = 7, peerID = 2, initiatedByMe = False\<rparr>" "\<lparr>conn = 8, peerID = 2, initiatedByMe = True\<rparr>" "[0, 0]"]
  by (simp add: NewTCPTransport_def)

text \<open>In every state the transport can reach, under any sequence of operations and any
  bytes from its peers, a connection is registered under the identifier its peer reported, no
  connection leads to the node itself, a closed transport has no connection, and the incoming
  channel never holds more than its capacity.\<close>

theorem transport_reachable_inv:
  assumes "tp_reachable n t"
  shows "(\<forall>p tc. conns t p = Some tc \<longrightarrow> peerID tc = p \<and> p \<noteq> n)
    \<and> (tp_closed t \<longrightarrow> conns t = Map.empty) \<and> length (incoming t) \<le> 1000"
proof -
  from tp_reachable_inv [OF assms]
  have i: "tp_inv t" and n: "tp_nodeID t = n" and c: "length (incoming t) \<le> incoming_capacity" by auto
  from i [unfolded tp_inv_def n] c [unfolded incoming_capacity_def] show ?thesis by simp
qed

theorem transport_reachable_inv_witness:
  "conns (Close (snd (setupConn 7 False (handshake_send 2 ''B'') (NewTCPTransport 1)))) = Map.empty"
  using transport_reachable_inv [OF tp_reachable.close [OF tp_reachable.accept [OF tp_reachable.init [of 1],
    of 7 "handshake_send 2 ''B''"]]]
  by (simp add: Close_def)

end
