(* ===== verification/Cluster.thy ===== *)
theory Cluster
  imports Paxos_Spec Transport
begin

text \<open>
  A whole cluster: one node per member, the goroutines that run its proposals and its
  election, and the messages in flight.  An event of a proposal or an election is what happens
  between two points where its goroutine waits or another one can run: a section under one
  lock, one broadcast, the receipt of one message.  The two loops of a node make one event per
  message and per tick: a message is handled and its response written, a leader's tick reads
  \<open>lastCommitted\<close> and the leader's ballot and broadcasts them.  Every event calls the operations
  of the component theories; the events are executed by the function \<open>exec\<close>, so that a run can be
  evaluated.

  A node handles messages and ticks only while its loops run.  A broadcast is an event that is
  always enabled: a write that blocks for ever, which the transport's deadline-free writes
  allow, is a goroutine that makes no more events.

  The network may lose and reorder messages; it does not duplicate them, since the transport
  writes each message once to one connection per peer.  What arrives is what \<open>transmit\<close>
  makes of the frame.
\<close>

section \<open>State\<close>

text \<open>Where a goroutine of \<open>Propose\<close> or \<open>startElection\<close> is, with the votes it has counted.
  Its \<open>proposalState\<close> is the one registered in the proposer's \<open>pending\<close> map, from
  \<open>Phase1Own\<close> until the deferred function of \<open>Propose\<close> or \<open>BecomeLeader\<close> removes it; at
  \<open>Returning\<close> and \<open>ElectionLed\<close> that function is what comes next.  The last four points are
  those of \<open>startElection\<close> after \<open>BecomeLeader\<close> has returned.\<close>

datatype pc =
    ElectionStart
  | Phase1Own | Phase1Cast "Message list" | Phase1Wait "Message list"
  | Phase2Own | Phase2Cast "Message list" | Phase2Wait "Message list"
  | CommitOwn | CommitCast
  | Returning
  | ElectionWon | ElectionLed
  | ElectionUpdate | ElectionBeat Instance | ElectionLost | ElectionEnd

type_synonym packet = "NodeID \<times> NodeID \<times> Message"

record 's cluster =
  nodes :: "NodeID \<Rightarrow> 's Node"
  procs :: "NodeID \<Rightarrow> Instance \<Rightarrow> pc option"
  running :: "NodeID \<Rightarrow> bool"
  net :: "packet list"

text \<open>The points at which the goroutine has an entry in \<open>pending\<close>.\<close>

fun registered_pc :: "pc \<Rightarrow> bool" where
  "registered_pc ElectionStart = False"
| "registered_pc ElectionUpdate = False"
| "registered_pc (ElectionBeat _) = False"
| "registered_pc ElectionLost = False"
| "registered_pc ElectionEnd = False"
| "registered_pc _ = True"

definition upd_node :: "NodeID \<Rightarrow> 's Node \<Rightarrow> 's cluster \<Rightarrow> 's cluster" where
  "upd_node a n s = s\<lparr>nodes := (nodes s)(a := n)\<rparr>"

definition set_pc :: "NodeID \<Rightarrow> Instance \<Rightarrow> pc option \<Rightarrow> 's cluster \<Rightarrow> 's cluster" where
  "set_pc a i p s = s\<lparr>procs := (procs s)(a := (procs s a)(i := p))\<rparr>"

text \<open>One write to each of the connections in \<open>ds\<close>.\<close>

definition packets :: "NodeID \<Rightarrow> NodeID list \<Rightarrow> Message \<Rightarrow> packet list" where
  "packets a ds m = (case transmit m of None \<Rightarrow> [] | Some m' \<Rightarrow> map (\<lambda>d. (a, d, m')) ds)"

definition send :: "NodeID \<Rightarrow> NodeID list \<Rightarrow> Message \<Rightarrow> 's cluster \<Rightarrow> 's cluster" where
  "send a ds m s = s\<lparr>net := net s @ packets a ds m\<rparr>"

definition peers_ok :: "NodeID set \<Rightarrow> NodeID \<Rightarrow> NodeID list \<Rightarrow> bool" where
  "peers_ok M a ds \<longleftrightarrow> distinct ds \<and> set ds \<subseteq> M - {a}"

section \<open>Events\<close>

datatype event =
    EvStart NodeID "error option" Time Duration
  | EvPropose NodeID Value
  | EvElect NodeID
  | EvOwn1 NodeID Instance
  | EvCast1 NodeID Instance "NodeID list"
  | EvRecv1 NodeID Instance
  | EvOwn2 NodeID Instance
  | EvCast2 NodeID Instance "NodeID list"
  | EvRecv2 NodeID Instance
  | EvCommitOwn NodeID Instance
  | EvCommitCast NodeID Instance "NodeID list"
  | EvTimeout NodeID Instance
  | EvReturn NodeID Instance
  | EvLead NodeID
  | EvUpdate NodeID Time Duration
  | EvBeat NodeID "NodeID list"
  | EvBackoff NodeID Time Duration
  | EvElected NodeID
  | EvDeliver packet Time Duration bool
  | EvDrop packet
  | EvTick NodeID Time Duration "NodeID list"
  | EvReceive NodeID
  | EvRestart NodeID

text \<open>The deferred function of \<open>Propose\<close> and \<open>BecomeLeader\<close> removes the proposal from
  \<open>pending\<close>; the goroutine goes on to \<open>p\<close> or is gone.\<close>

definition finish :: "NodeID \<Rightarrow> Instance \<Rightarrow> pc option \<Rightarrow> 's cluster \<Rightarrow> 's cluster" where
  "finish a i p s = (let n = nodes s a in
     set_pc a i p (upd_node a (n\<lparr>proposer := end_proposal i (proposer n)\<rparr>) s))"

text \<open>The locked section of \<open>startElection\<close> after a won election.\<close>

definition take_leadership :: "Time \<Rightarrow> Duration \<Rightarrow> 's Node \<Rightarrow> 's Node option" where
  "take_leadership now rnd n =
     resetElectionDeadline now rnd (n\<lparr>currentLeader := nodeID n, nd_leaderBallot := LeaderBallot (proposer n)\<rparr>)"

text \<open>What follows phase 1 and phase 2: an election is won; a proposal takes the accepted
  value, if there is one, and goes on; when a phase returns an error, the call
  returns.\<close>

definition after_phase1 :: "NodeID \<Rightarrow> Instance \<Rightarrow> Value progress \<Rightarrow> (Message list \<Rightarrow> pc) \<Rightarrow> 's cluster \<Rightarrow> 's cluster" where
  "after_phase1 a i r wait s =
     (case r of
        Waiting ps \<Rightarrow> set_pc a i (Some (wait ps)) s
      | Return (Inl e) \<Rightarrow> set_pc a i (Some Returning) s
      | Return (Inr av) \<Rightarrow>
          if i = 0 then set_pc a i (Some ElectionWon) s
          else (case pending (proposer (nodes s a)) i of
              None \<Rightarrow> s
            | Some st \<Rightarrow>
                let n = nodes s a; p = proposer n;
                    st = st\<lparr>ps_value := value_to_propose av (ps_value st)\<rparr>
                in set_pc a i (Some Phase2Own)
                     (upd_node a (n\<lparr>proposer := p\<lparr>pending := (pending p)(i \<mapsto> st)\<rparr>\<rparr>) s)))"

definition after_phase2 :: "NodeID \<Rightarrow> Instance \<Rightarrow> unit progress \<Rightarrow> (Message list \<Rightarrow> pc) \<Rightarrow> 's cluster \<Rightarrow> 's cluster" where
  "after_phase2 a i r wait s =
     set_pc a i (Some (case r of Waiting ps \<Rightarrow> wait ps | Return (Inl e) \<Rightarrow> Returning | Return (Inr _) \<Rightarrow> CommitOwn)) s"

text \<open>Taking the next message from a proposal's channel.\<close>

definition take_response :: "NodeID \<Rightarrow> Instance \<Rightarrow> 's cluster \<Rightarrow> (Message \<times> 's cluster) option" where
  "take_response a i s =
     (let n = nodes s a; p = proposer n in
      case pending p i of
        Some st \<Rightarrow>
          (case responses st of
             [] \<Rightarrow> None
           | m # ms \<Rightarrow> Some (m, upd_node a (n\<lparr>proposer := p\<lparr>pending := (pending p)(i \<mapsto> st\<lparr>responses := ms\<rparr>)\<rparr>\<rparr>) s))
      | None \<Rightarrow> None)"

text \<open>
  One event at the members \<open>M\<close> over the storage \<open>S\<close>; \<^term>\<open>None\<close> if it cannot happen.  A
  proposal needs an instance: after 2^64 - 1 proposals of one node the counter wraps around to
  the election instance 0, which the model leaves out.  \<open>running\<close> says that the message loop and
  the election loop of a node run: \<open>Start\<close> starts them at the end of its first call, if
  \<open>Listen\<close> succeeded, and a restart ends them.  A panic ends a process, so an event
  that panics has no successor.
\<close>

fun exec :: "'s Storage \<Rightarrow> NodeID set \<Rightarrow> event \<Rightarrow> 's cluster \<Rightarrow> 's cluster option" where
  "exec S M (EvStart a err now rnd) s =
     (if a \<in> M then
        map_option (\<lambda>(e, n). (upd_node a n s)\<lparr>running := (running s)(a := running s a \<or> \<not> started (nodes s a) \<and> e = None)\<rparr>)
          (Start err now rnd (nodes s a))
      else None)"
| "exec S M (EvPropose a v) s =
     (let n = nodes s a in
      if a \<in> M \<and> started n \<and> nextInstance (proposer n) \<noteq> 0
      then case begin_proposal v (proposer n) of (st, p) \<Rightarrow>
        Some (set_pc a (ps_instance st) (Some Phase1Own) (upd_node a (n\<lparr>proposer := p\<rparr>) s))
      else None)"
| "exec S M (EvElect a) s =
     (let n = nodes s a in
      if a \<in> M \<and> procs s a 0 = Some ElectionStart
      then case begin_election (proposer n) of (st, p) \<Rightarrow>
        Some (set_pc a 0 (Some Phase1Own) (upd_node a (n\<lparr>proposer := p\<rparr>) s))
      else None)"
| "exec S M (EvOwn1 a i) s =
     (let n = nodes s a in
      case (procs s a i, pending (proposer n) i) of
        (Some Phase1Own, Some st) \<Rightarrow>
          if a \<in> M then
            (case phase1_local (Some S) (quorumSize (proposer n)) (ps_ballot st) i (acceptor n) (storage n) of
               (r, acc, sto) \<Rightarrow> Some (after_phase1 a i r Phase1Cast (upd_node a (n\<lparr>acceptor := acc, storage := sto\<rparr>) s)))
          else None
      | _ \<Rightarrow> None)"
| "exec S M (EvCast1 a i ds) s =
     (case (procs s a i, pending (proposer (nodes s a)) i) of
        (Some (Phase1Cast ps), Some st) \<Rightarrow>
          if a \<in> M \<and> peers_ok M a ds
          then Some (set_pc a i (Some (Phase1Wait ps)) (send a ds (Prepare (ps_ballot st) i) s)) else None
      | _ \<Rightarrow> None)"
| "exec S M (EvRecv1 a i) s =
     (case (procs s a i, take_response a i s) of
        (Some (Phase1Wait ps), Some (m, s')) \<Rightarrow>
          if a \<in> M then Some (after_phase1 a i (phase1_recv (quorumSize (proposer (nodes s a))) ps m) Phase1Wait s')
          else None
      | _ \<Rightarrow> None)"
| "exec S M (EvOwn2 a i) s =
     (let n = nodes s a in
      case (procs s a i, pending (proposer n) i) of
        (Some Phase2Own, Some st) \<Rightarrow>
          if a \<in> M then
            (case phase2_local (Some S) (quorumSize (proposer n)) (ps_ballot st) i (ps_value st) (acceptor n) (storage n) of
               (r, acc, sto) \<Rightarrow> Some (after_phase2 a i r Phase2Cast (upd_node a (n\<lparr>acceptor := acc, storage := sto\<rparr>) s)))
          else None
      | _ \<Rightarrow> None)"
| "exec S M (EvCast2 a i ds) s =
     (case (procs s a i, pending (proposer (nodes s a)) i) of
        (Some (Phase2Cast ps), Some st) \<Rightarrow>
          if a \<in> M \<and> peers_ok M a ds
          then Some (set_pc a i (Some (Phase2Wait ps)) (send a ds (Accept (ps_ballot st) i (ps_value st)) s)) else None
      | _ \<Rightarrow> None)"
| "exec S M (EvRecv2 a i) s =
     (case (procs s a i, take_response a i s) of
        (Some (Phase2Wait ps), Some (m, s')) \<Rightarrow>
          if a \<in> M then Some (after_phase2 a i (phase2_recv (quorumSize (proposer (nodes s a))) ps m) Phase2Wait s')
          else None
      | _ \<Rightarrow> None)"
| "exec S M (EvCommitOwn a i) s =
     (case (procs s a i, pending (proposer (nodes s a)) i) of
        (Some CommitOwn, Some st) \<Rightarrow>
          if a \<in> M then
            Some (set_pc a i (Some CommitCast)
              (upd_node a (handleCommit S (ps_ballot st) i (ps_value st) (nodes s a)) s))
          else None
      | _ \<Rightarrow> None)"
| "exec S M (EvCommitCast a i ds) s =
     (case (procs s a i, pending (proposer (nodes s a)) i) of
        (Some CommitCast, Some st) \<Rightarrow>
          if a \<in> M \<and> peers_ok M a ds
          then Some (set_pc a i (Some Returning) (send a ds (Commit (ps_ballot st) i (ps_value st)) s)) else None
      | _ \<Rightarrow> None)"
| "exec S M (EvTimeout a i) s =
     (if a \<in> M \<and> (case procs s a i of Some (Phase1Wait _) \<Rightarrow> True | Some (Phase2Wait _) \<Rightarrow> True | _ \<Rightarrow> False)
      then Some (set_pc a i (Some Returning) s) else None)"
| "exec S M (EvReturn a i) s =
     (if a \<in> M then
        (case procs s a i of
           Some Returning \<Rightarrow> Some (finish a i (if i = 0 then Some ElectionLost else None) s)
         | Some ElectionLed \<Rightarrow> Some (finish a i (Some ElectionUpdate) s)
         | _ \<Rightarrow> None)
      else None)"
| "exec S M (EvLead a) s =
     (let n = nodes s a in
      case (procs s a 0, pending (proposer n) 0) of
        (Some ElectionWon, Some st) \<Rightarrow>
          if a \<in> M
          then Some (set_pc a 0 (Some ElectionLed) (upd_node a (n\<lparr>proposer := win_election (ps_ballot st) (proposer n)\<rparr>) s))
          else None
      | _ \<Rightarrow> None)"
| "exec S M (EvUpdate a now rnd) s =
     (if a \<in> M \<and> procs s a 0 = Some ElectionUpdate
      then map_option (\<lambda>n. set_pc a 0 (Some (ElectionBeat (lastCommitted n))) (upd_node a n s))
             (take_leadership now rnd (nodes s a))
      else None)"
| "exec S M (EvBeat a ds) s =
     (case procs s a 0 of
        Some (ElectionBeat l) \<Rightarrow>
          if a \<in> M \<and> peers_ok M a ds
          then Some (set_pc a 0 (Some ElectionEnd) (send a ds (sendHeartbeat l (nodes s a)) s)) else None
      | _ \<Rightarrow> None)"
| "exec S M (EvBackoff a now rnd) s =
     (if a \<in> M \<and> procs s a 0 = Some ElectionLost
      then map_option (\<lambda>n. set_pc a 0 (Some ElectionEnd) (upd_node a n s)) (resetElectionDeadline now rnd (nodes s a))
      else None)"
| "exec S M (EvElected a) s =
     (if a \<in> M \<and> procs s a 0 = Some ElectionEnd
      then Some (set_pc a 0 None (upd_node a ((nodes s a)\<lparr>electing := False\<rparr>) s)) else None)"
| "exec S M (EvDeliver pkt now rnd up) s =
     (case pkt of (from, to, m) \<Rightarrow>
        if to \<in> M \<and> running s to \<and> pkt \<in> set (net s) then
          map_option (\<lambda>(n, out). fold (\<lambda>(d, r). send to (if up then [d] else []) r) out
              (upd_node to n (s\<lparr>net := remove1 pkt (net s)\<rparr>)))
            (handleMessage S now rnd from m (nodes s to))
        else None)"
| "exec S M (EvDrop pkt) s = (if pkt \<in> set (net s) then Some (s\<lparr>net := remove1 pkt (net s)\<rparr>) else None)"
| "exec S M (EvTick a now rnd ds) s =
     (if a \<in> M \<and> running s a \<and> peers_ok M a ds then
        map_option (\<lambda>(n, out, elect).
            let s = fold (send a ds) out (upd_node a n s)
            in if elect then set_pc a 0 (Some ElectionStart) s else s)
          (checkLeaderAndHeartbeat now rnd (nodes s a))
      else None)"
| "exec S M (EvReceive a) s =
     (if a \<in> M then map_option (\<lambda>(_, n). upd_node a n s) (Subscribe_recv (nodes s a)) else None)"
| "exec S M (EvRestart a) s =
     (let n = nodes s a in
      if a \<in> M then
        (case NewNode S (storage n) (config n) of
           Inl e \<Rightarrow> None
         | Inr n' \<Rightarrow> Some ((upd_node a n' s)\<lparr>procs := (procs s)(a := (\<lambda>_. None)), running := (running s)(a := False)\<rparr>))
      else None)"

fun run :: "'s Storage \<Rightarrow> NodeID set \<Rightarrow> event list \<Rightarrow> 's cluster \<Rightarrow> 's cluster option" where
  "run S M [] s = Some s"
| "run S M (e # es) s = (case exec S M e s of None \<Rightarrow> None | Some s' \<Rightarrow> run S M es s')"

text \<open>The initial states: every member created by \<open>NewNode\<close> on a storage of its own, with its
  own identifier and the other members as its peers.  Only members ever act; elsewhere there is
  no proposal.\<close>

definition cluster_init :: "'s Storage \<Rightarrow> ('s \<Rightarrow> bool) \<Rightarrow> NodeID set \<Rightarrow> 's cluster \<Rightarrow> bool" where
  "cluster_init S fresh M s \<longleftrightarrow> finite M \<and>
     (\<forall>a \<in> M. \<exists>cfg st. fresh st \<and> NewNode S st cfg = Inr (nodes s a)
        \<and> cfg_NodeID cfg = a \<and> length (cfg_Peers cfg) + 1 = card M)
   \<and> (\<forall>a. a \<notin> M \<longrightarrow> pending (proposer (nodes s a)) = Map.empty)
   \<and> (\<forall>a i. procs s a i = None) \<and> (\<forall>a. \<not> running s a) \<and> net s = []"

end
