(* ===== verification/Cluster_Relation.thy ===== *)
theory Cluster_Relation
  imports Cluster
begin

text \<open>
  The cluster refines the abstract specification, instance by instance, in every run that is
  careful about the points where the code is not safe (see \<open>careful\<close>).  The simulation
  relation ties each node's acceptor to the specification's acceptor for the instances the
  node has not committed, and says of every message in flight, every queued or counted vote
  and every learned value what the specification knows about it.  A second invariant counts
  votes: no vote of an acceptor can be counted twice, which the code does not check.
\<close>

section \<open>Careful runs\<close>

text \<open>
  The conditions under which agreement is proved.  Proposed values are not empty; rounds do
  not wrap around; an acceptor is not asked about an instance that its own node has committed
  and therefore forgotten; and only a node that never made a ballot restarts, recovering at
  least the values it had committed.  \<open>V\<close> are the values that clients propose.
\<close>

fun careful :: "'s Storage \<Rightarrow> Value set \<Rightarrow> 's cluster \<Rightarrow> event \<Rightarrow> bool" where
  "careful S V s (EvPropose a v) =
     (v \<in> V \<and> 0 < slice_len v \<and> unat (currentRound (proposer (nodes s a))) + 1 < 2 ^ 32)"
| "careful S V s (EvElect a) = (unat (currentRound (proposer (nodes s a))) + 1 < 2 ^ 32)"
| "careful S V s (EvOwn1 a i) = (committed (nodes s a) i = None)"
| "careful S V s (EvOwn2 a i) = (committed (nodes s a) i = None)"
| "careful S V s (EvDeliver pkt now rnd up) =
     (case pkt of (from, to, m) \<Rightarrow>
        (case m of Prepare b i \<Rightarrow> committed (nodes s to) i = None
         | Accept b i v \<Rightarrow> committed (nodes s to) i = None | _ \<Rightarrow> True))"
| "careful S V s (EvRestart a) =
     (currentRound (proposer (nodes s a)) = 0 \<and>
      (case NewNode S (storage (nodes s a)) (config (nodes s a)) of
         Inl e \<Rightarrow> True | Inr n' \<Rightarrow> dom (committed (nodes s a)) \<subseteq> dom (committed n')))"
| "careful S V s _ = True"

inductive careful_run :: "'s Storage \<Rightarrow> NodeID set \<Rightarrow> Value set \<Rightarrow> 's cluster \<Rightarrow> 's cluster \<Rightarrow> bool" for S M V where
  none: "careful_run S M V s s"
| more: "careful_run S M V s s1 \<Longrightarrow> careful S V s1 e \<Longrightarrow> exec S M e s1 = Some s2 \<Longrightarrow> careful_run S M V s s2"

section \<open>The simulation relation\<close>

type_synonym abstract = "Instance \<Rightarrow> NodeID pspec"

definition acc_rel :: "Acceptor \<Rightarrow> Instance \<Rightarrow> NodeID pspec \<Rightarrow> NodeID \<Rightarrow> bool" where
  "acc_rel acc i p a \<longleftrightarrow> GetPromised acc i = maxBal p a \<and>
     lastVote p a = map_option (\<lambda>b. (b, go_get None (acceptedValue acc) i)) (acceptedBallot acc i)"

definition report_of :: "Ballot \<Rightarrow> Value \<Rightarrow> (Ballot \<times> Value) option" where
  "report_of ab av = (if ab = 0 then None else Some (ab, av))"

text \<open>What the specification knows about a message.\<close>

fun msg_ok :: "NodeID set \<Rightarrow> abstract \<Rightarrow> Message \<Rightarrow> bool" where
  "msg_ok M \<sigma> (Promise b i n ab av) = (n \<in> M \<and> (b, n, report_of ab av) \<in> proms (\<sigma> i)
     \<and> (if ab = 0 then av = None else 0 < slice_len av))"
| "msg_ok M \<sigma> (Accept b i v) = (proposal (\<sigma> i) b = Some v \<and> 0 < slice_len v)"
| "msg_ok M \<sigma> (Accepted b i n) = (n \<in> M \<and> votes (\<sigma> i) n b \<noteq> None)"
| "msg_ok M \<sigma> (Commit b i v) = (chosen (majority M) (\<sigma> i) b v \<and> 0 < slice_len v)"
| "msg_ok M \<sigma> _ = True"

definition learned :: "NodeID set \<Rightarrow> NodeID pspec \<Rightarrow> Value \<Rightarrow> bool" where
  "learned M p v \<longleftrightarrow> 0 < slice_len v \<and> (\<exists>b. chosen (majority M) p b v)"

text \<open>What the specification knows at each point of a goroutine.\<close>

definition votes_ok :: "NodeID set \<Rightarrow> abstract \<Rightarrow> (Message \<Rightarrow> bool) \<Rightarrow> Instance \<Rightarrow> Ballot \<Rightarrow> Message list \<Rightarrow> bool" where
  "votes_ok M \<sigma> kind i b ms \<longleftrightarrow> (\<forall>m \<in> set ms. kind m \<and> response_key m = Some (i, b) \<and> msg_ok M \<sigma> m)"

fun pc_ok :: "NodeID set \<Rightarrow> Value set \<Rightarrow> abstract \<Rightarrow> Instance \<Rightarrow> Ballot \<Rightarrow> Value \<Rightarrow> pc \<Rightarrow> bool" where
  "pc_ok M V \<sigma> i b v Phase1Own = (proposal (\<sigma> i) b = None \<and> (i \<noteq> 0 \<longrightarrow> v \<in> V \<and> 0 < slice_len v))"
| "pc_ok M V \<sigma> i b v (Phase1Cast ps) = (proposal (\<sigma> i) b = None \<and> (i \<noteq> 0 \<longrightarrow> v \<in> V \<and> 0 < slice_len v)
     \<and> votes_ok M \<sigma> is_Promise i b ps)"
| "pc_ok M V \<sigma> i b v (Phase1Wait ps) = (proposal (\<sigma> i) b = None \<and> (i \<noteq> 0 \<longrightarrow> v \<in> V \<and> 0 < slice_len v)
     \<and> votes_ok M \<sigma> is_Promise i b ps)"
| "pc_ok M V \<sigma> i b v Phase2Own = (proposal (\<sigma> i) b = Some v)"
| "pc_ok M V \<sigma> i b v (Phase2Cast ps) = (proposal (\<sigma> i) b = Some v \<and> votes_ok M \<sigma> is_Accepted i b ps)"
| "pc_ok M V \<sigma> i b v (Phase2Wait ps) = (proposal (\<sigma> i) b = Some v \<and> votes_ok M \<sigma> is_Accepted i b ps)"
| "pc_ok M V \<sigma> i b v CommitOwn = (chosen (majority M) (\<sigma> i) b v \<and> 0 < slice_len v)"
| "pc_ok M V \<sigma> i b v CommitCast = (chosen (majority M) (\<sigma> i) b v \<and> 0 < slice_len v)"
| "pc_ok M V \<sigma> i b v _ = True"

definition proc_ok :: "NodeID set \<Rightarrow> Value set \<Rightarrow> abstract \<Rightarrow> Proposer \<Rightarrow> Instance \<Rightarrow> pc \<Rightarrow> bool" where
  "proc_ok M V \<sigma> p i pc \<longleftrightarrow> \<not> registered_pc pc \<or> (\<exists>st. pending p i = Some st
     \<and> BallotNodeID (ps_ballot st) = prop_nodeID p \<and> Round (ps_ballot st) \<le> currentRound p \<and> 0 < ps_ballot st
     \<and> pc_ok M V \<sigma> i (ps_ballot st) (ps_value st) pc)"

definition queue_ok :: "NodeID set \<Rightarrow> abstract \<Rightarrow> Proposer \<Rightarrow> bool" where
  "queue_ok M \<sigma> p \<longleftrightarrow> (\<forall>i st. pending p i = Some st \<longrightarrow> votes_ok M \<sigma> (\<lambda>_. True) i (ps_ballot st) (responses st))"

definition node_ids :: "NodeID set \<Rightarrow> NodeID \<Rightarrow> 's Node \<Rightarrow> bool" where
  "node_ids M a n \<longleftrightarrow> nodeID n = a \<and> acc_nodeID (acceptor n) = a \<and> prop_nodeID (proposer n) = a
     \<and> quorumSize (proposer n) = quorum_of_peers (card M - 1)
     \<and> cfg_NodeID (config n) = a \<and> length (cfg_Peers (config n)) + 1 = card M"

text \<open>The saved maps fit together as the acceptor's do.\<close>

definition saved_inv :: "AcceptorState \<Rightarrow> bool" where
  "saved_inv sv \<longleftrightarrow> dom (deref_map (AcceptedValue sv)) = dom (deref_map (AcceptedBallot sv))
     \<and> (\<forall>i b. deref_map (AcceptedBallot sv) i = Some b \<longrightarrow> b \<le> go_get 0 (deref_map (PromisedBallot sv)) i)"

definition data_ok :: "('s \<Rightarrow> AcceptorState) \<Rightarrow> ('s \<Rightarrow> Instance \<rightharpoonup> LogEntry) \<Rightarrow> ('s \<Rightarrow> bool) \<Rightarrow> NodeID set
    \<Rightarrow> abstract \<Rightarrow> NodeID \<Rightarrow> 's Node \<Rightarrow> bool" where
  "data_ok saved logged ok M \<sigma> a n \<longleftrightarrow> node_stored saved ok n \<and> saved_inv (saved (storage n))
     \<and> (\<forall>i. committed n i = None \<longrightarrow> acc_rel (acceptor n) i (\<sigma> i) a)
     \<and> (\<forall>i cv. committed n i = Some cv \<longrightarrow> learned M (\<sigma> i) (cv_Value cv))
     \<and> (\<forall>i e. logged (storage n) i = Some e \<longrightarrow> learned M (\<sigma> i) (le_Value e))"

definition node_R :: "('s \<Rightarrow> AcceptorState) \<Rightarrow> ('s \<Rightarrow> Instance \<rightharpoonup> LogEntry) \<Rightarrow> ('s \<Rightarrow> bool) \<Rightarrow> NodeID set
    \<Rightarrow> Value set \<Rightarrow> abstract \<Rightarrow> NodeID \<Rightarrow> 's Node \<Rightarrow> (Instance \<Rightarrow> pc option) \<Rightarrow> bool" where
  "node_R saved logged ok M V \<sigma> a n pr \<longleftrightarrow> node_ids M a n \<and> data_ok saved logged ok M \<sigma> a n
     \<and> queue_ok M \<sigma> (proposer n) \<and> (\<forall>i pc. pr i = Some pc \<longrightarrow> proc_ok M V \<sigma> (proposer n) i pc)"

definition net_R :: "NodeID set \<Rightarrow> abstract \<Rightarrow> packet list \<Rightarrow> bool" where
  "net_R M \<sigma> ps \<longleftrightarrow> (\<forall>(f, t, m) \<in> set ps. msg_ok M \<sigma> m)"

definition fresh_R :: "NodeID set \<Rightarrow> Value set \<Rightarrow> abstract \<Rightarrow> (NodeID \<Rightarrow> 's Node) \<Rightarrow> bool" where
  "fresh_R M V \<sigma> ns \<longleftrightarrow> (\<forall>i b v. proposal (\<sigma> i) b = Some v \<longrightarrow> BallotNodeID b \<in> M
     \<and> Round b \<le> currentRound (proposer (ns (BallotNodeID b))) \<and> v \<in> V \<and> 0 < slice_len v)"

section \<open>Counting votes\<close>

text \<open>
  A token stands for the one vote of acceptor \<open>a\<close> in a phase of ballot \<open>b\<close> of instance \<open>i\<close>:
  the request on its way to \<open>a\<close>, the answer on its way back, or the answer in the queue or
  among the counted votes of the ballot's owner.
\<close>

datatype phase = Phase1 | Phase2

type_synonym token = "phase \<times> Ballot \<times> Instance \<times> NodeID"

fun answer_token :: "Message \<Rightarrow> token option" where
  "answer_token (Promise b i n _ _) = Some (Phase1, b, i, n)"
| "answer_token (Accepted b i n) = Some (Phase2, b, i, n)"
| "answer_token _ = None"

fun token :: "packet \<Rightarrow> token option" where
  "token (f, t, Prepare b i) = Some (Phase1, b, i, t)"
| "token (f, t, Accept b i v) = Some (Phase2, b, i, t)"
| "token (f, t, m) = answer_token m"

fun gathered :: "pc option \<Rightarrow> Message list" where
  "gathered (Some (Phase1Cast ps)) = ps"
| "gathered (Some (Phase1Wait ps)) = ps"
| "gathered (Some (Phase2Cast ps)) = ps"
| "gathered (Some (Phase2Wait ps)) = ps"
| "gathered _ = []"

definition net_tokens :: "packet list \<Rightarrow> token \<Rightarrow> nat" where
  "net_tokens ps k = length (filter (\<lambda>x. token x = Some k) ps)"

definition msg_tokens :: "Message list \<Rightarrow> token \<Rightarrow> nat" where
  "msg_tokens ms k = length (filter (\<lambda>m. answer_token m = Some k) ms)"

fun own_tokens :: "Proposer \<Rightarrow> (Instance \<Rightarrow> pc option) \<Rightarrow> token \<Rightarrow> nat" where
  "own_tokens p pr (ph, b, i, a) = (case pending p i of
      Some st \<Rightarrow> if ps_ballot st = b then msg_tokens (responses st @ gathered (pr i)) (ph, b, i, a) else 0
    | None \<Rightarrow> 0)"

definition token_owner :: "token \<Rightarrow> NodeID" where
  "token_owner k = BallotNodeID (fst (snd k))"

definition tokens :: "'s cluster \<Rightarrow> token \<Rightarrow> nat" where
  "tokens s k = net_tokens (net s) k
     + own_tokens (proposer (nodes s (token_owner k))) (procs s (token_owner k)) k"

text \<open>Before a broadcast the tokens it creates do not exist.\<close>

fun unsent :: "(token \<Rightarrow> nat) \<Rightarrow> NodeID \<Rightarrow> Instance \<Rightarrow> Ballot \<Rightarrow> pc \<Rightarrow> bool" where
  "unsent tk o' i b Phase1Own = (\<forall>ph a. tk (ph, b, i, a) = 0)"
| "unsent tk o' i b (Phase1Cast _) = ((\<forall>a. a \<noteq> o' \<longrightarrow> tk (Phase1, b, i, a) = 0) \<and> (\<forall>a. tk (Phase2, b, i, a) = 0))"
| "unsent tk o' i b (Phase1Wait _) = (\<forall>a. tk (Phase2, b, i, a) = 0)"
| "unsent tk o' i b Phase2Own = (\<forall>a. tk (Phase2, b, i, a) = 0)"
| "unsent tk o' i b (Phase2Cast _) = (\<forall>a. a \<noteq> o' \<longrightarrow> tk (Phase2, b, i, a) = 0)"
| "unsent tk o' i b _ = True"

definition tok_R :: "NodeID set \<Rightarrow> 's cluster \<Rightarrow> bool" where
  "tok_R M s \<longleftrightarrow> (\<forall>k. tokens s k \<le> 1)
     \<and> (\<forall>k. 0 < tokens s k \<longrightarrow> token_owner k \<in> M
          \<and> Round (fst (snd k)) \<le> currentRound (proposer (nodes s (token_owner k))))
     \<and> (\<forall>a \<in> M. \<forall>i pc st. procs s a i = Some pc \<longrightarrow> pending (proposer (nodes s a)) i = Some st \<longrightarrow>
          unsent (tokens s) a i (ps_ballot st) pc)"

text \<open>The whole relation.\<close>

definition R :: "('s \<Rightarrow> AcceptorState) \<Rightarrow> ('s \<Rightarrow> Instance \<rightharpoonup> LogEntry) \<Rightarrow> ('s \<Rightarrow> bool) \<Rightarrow> NodeID set
    \<Rightarrow> Value set \<Rightarrow> abstract \<Rightarrow> 's cluster \<Rightarrow> bool" where
  "R saved logged ok M V \<sigma> s \<longleftrightarrow> finite M \<and> 2 \<le> card M \<and> (\<forall>i. spec_inv (majority M) (\<sigma> i))
     \<and> (\<forall>a \<in> M. node_R saved logged ok M V \<sigma> a (nodes s a) (procs s a))
     \<and> net_R M \<sigma> (net s) \<and> fresh_R M V \<sigma> (nodes s) \<and> tok_R M s"

section \<open>Steps of the specification at one node\<close>

definition abs_le :: "abstract \<Rightarrow> abstract \<Rightarrow> bool" where
  "abs_le \<sigma> \<sigma>' \<longleftrightarrow> (\<forall>i. spec_le (\<sigma> i) (\<sigma>' i))"

text \<open>At most one step, in one instance, that concerns the acceptor and the ballots of \<open>a\<close>
  only.\<close>

inductive moves :: "NodeID set \<Rightarrow> NodeID \<Rightarrow> abstract \<Rightarrow> abstract \<Rightarrow> bool" for M a \<sigma> where
  stay: "moves M a \<sigma> \<sigma>"
| move: "spec_step (majority M) (\<sigma> i) p \<Longrightarrow>
    (\<And>c. c \<noteq> a \<Longrightarrow> maxBal p c = maxBal (\<sigma> i) c \<and> lastVote p c = lastVote (\<sigma> i) c) \<Longrightarrow>
    (\<And>b. BallotNodeID b \<noteq> a \<Longrightarrow> proposal p b = proposal (\<sigma> i) b) \<Longrightarrow> moves M a \<sigma> (\<sigma>(i := p))"

definition same_proposals :: "abstract \<Rightarrow> abstract \<Rightarrow> bool" where
  "same_proposals \<sigma> \<sigma>' \<longleftrightarrow> (\<forall>i b. proposal (\<sigma>' i) b = proposal (\<sigma> i) b)"

lemma same_proposals_refl [simp]: "same_proposals \<sigma> \<sigma>"
  by (simp add: same_proposals_def)

lemma abs_le_refl [simp]: "abs_le \<sigma> \<sigma>"
  by (simp add: abs_le_def)

lemma abs_le_trans: "abs_le \<sigma> \<tau> \<Longrightarrow> abs_le \<tau> \<rho> \<Longrightarrow> abs_le \<sigma> \<rho>"
  unfolding abs_le_def by (blast intro: spec_le_trans)

lemma moves_inv:
  assumes "moves M a \<sigma> \<sigma>'" "\<And>i. spec_inv (majority M) (\<sigma> i)"
  shows "spec_inv (majority M) (\<sigma>' i)" "abs_le \<sigma> \<sigma>'"
proof -
  have "spec_inv (majority M) (\<sigma>' i) \<and> abs_le \<sigma> \<sigma>'"
    using assms(1)
  proof cases
    case (move j p)
    then show ?thesis using maj.step_inv [OF move(2) assms(2)] maj.step_le [OF move(2) assms(2)] assms(2)
      by (simp add: abs_le_def)
  qed (use assms(2) in simp)
  then show "spec_inv (majority M) (\<sigma>' i)" "abs_le \<sigma> \<sigma>'" by simp_all
qed

lemma moves_steps:
  "moves M a \<sigma> \<sigma>' \<Longrightarrow> (spec_step (majority M))\<^sup>*\<^sup>* (\<sigma> i) (\<sigma>' i)"
  by (auto elim!: moves.cases)

lemma moves_other:
  "moves M a \<sigma> \<sigma>' \<Longrightarrow> c \<noteq> a \<Longrightarrow> maxBal (\<sigma>' i) c = maxBal (\<sigma> i) c \<and> lastVote (\<sigma>' i) c = lastVote (\<sigma> i) c"
  by (auto elim!: moves.cases)

lemma moves_ballots: "moves M a \<sigma> \<sigma>' \<Longrightarrow> BallotNodeID b \<noteq> a \<Longrightarrow> proposal (\<sigma>' i) b = proposal (\<sigma> i) b"
  by (auto elim!: moves.cases)

section \<open>Monotonicity of the relation\<close>

lemma msg_ok_mono:
  assumes "abs_le \<sigma> \<sigma>'" "msg_ok M \<sigma> m"
  shows "msg_ok M \<sigma>' m"
proof -
  have le: "spec_le (\<sigma> i) (\<sigma>' i)" for i using assms(1) by (simp add: abs_le_def)
  show ?thesis using assms(2) spec_leD [OF le] chosen_mono [OF le]
    by (cases m) auto
qed

lemma msg_ok_wire: "msg_ok M \<sigma> m \<Longrightarrow> wire m = m"
  by (cases m) (auto simp: wire_value_id split: if_splits)

lemma packets_ok: "msg_ok M \<sigma> m \<Longrightarrow> (f, t, m') \<in> set (packets a ds m) \<Longrightarrow> m' = m \<and> f = a \<and> t \<in> set ds"
  by (auto simp: packets_def transmit_iff msg_ok_wire split: if_splits)

lemma votes_ok_mono: "abs_le \<sigma> \<sigma>' \<Longrightarrow> votes_ok M \<sigma> kind i b ms \<Longrightarrow> votes_ok M \<sigma>' kind i b ms"
  by (auto simp: votes_ok_def intro: msg_ok_mono)

lemma queue_ok_mono: "abs_le \<sigma> \<sigma>' \<Longrightarrow> queue_ok M \<sigma> p \<Longrightarrow> queue_ok M \<sigma>' p"
  by (auto simp: queue_ok_def intro: votes_ok_mono)

lemma net_R_mono: "abs_le \<sigma> \<sigma>' \<Longrightarrow> net_R M \<sigma> ps \<Longrightarrow> net_R M \<sigma>' ps"
  by (auto simp: net_R_def intro: msg_ok_mono)

lemma chosen_abs: "abs_le \<sigma> \<sigma>' \<Longrightarrow> chosen (majority M) (\<sigma> i) b v \<Longrightarrow> chosen (majority M) (\<sigma>' i) b v"
  by (auto simp: abs_le_def intro: chosen_mono)

lemma learned_mono: "abs_le \<sigma> \<sigma>' \<Longrightarrow> learned M (\<sigma> i) v \<Longrightarrow> learned M (\<sigma>' i) v"
  by (auto simp: learned_def intro: chosen_abs)

lemma pc_ok_mono:
  "abs_le \<sigma> \<sigma>' \<Longrightarrow> proposal (\<sigma>' i) b = proposal (\<sigma> i) b \<Longrightarrow> pc_ok M V \<sigma> i b v pc \<Longrightarrow> pc_ok M V \<sigma>' i b v pc"
  by (cases pc) (auto intro: votes_ok_mono chosen_abs)

lemma proc_ok_mono:
  assumes "abs_le \<sigma> \<sigma>'" "\<And>b. BallotNodeID b = prop_nodeID p \<Longrightarrow> proposal (\<sigma>' i) b = proposal (\<sigma> i) b"
    "proc_ok M V \<sigma> p i pc"
  shows "proc_ok M V \<sigma>' p i pc"
  using assms(3) pc_ok_mono [OF assms(1,2)] unfolding proc_ok_def by blast

lemma data_ok_other:
  assumes "moves M a \<sigma> \<sigma>'" "abs_le \<sigma> \<sigma>'" "c \<noteq> a" "data_ok saved logged ok M \<sigma> c n"
  shows "data_ok saved logged ok M \<sigma>' c n"
  using assms(4) learned_mono [OF assms(2)] moves_other [OF assms(1,3)]
  unfolding data_ok_def acc_rel_def by auto

lemma node_R_other:
  assumes "moves M a \<sigma> \<sigma>'" "abs_le \<sigma> \<sigma>'" "c \<noteq> a" "node_R saved logged ok M V \<sigma> c n pr"
  shows "node_R saved logged ok M V \<sigma>' c n pr"
proof -
  have "prop_nodeID (proposer n) = c" using assms(4) by (simp add: node_R_def node_ids_def)
  then have "proc_ok M V \<sigma>' (proposer n) i pc" if "pr i = Some pc" for i pc
    using that assms(3,4) proc_ok_mono [OF assms(2) moves_ballots [OF assms(1)]]
    by (auto simp: node_R_def)
  then show ?thesis
    using assms(4) data_ok_other [OF assms(1-3)] queue_ok_mono [OF assms(2)] by (auto simp: node_R_def)
qed

lemma fresh_R_mono:
  assumes "fresh_R M V \<sigma> ns" "same_proposals \<sigma> \<sigma>'"
    "\<And>a. currentRound (proposer (ns a)) \<le> currentRound (proposer (ns' a))"
  shows "fresh_R M V \<sigma>' ns'"
  using assms unfolding fresh_R_def same_proposals_def by (metis order.trans)

lemma R_update:
  assumes R: "R saved logged ok M V \<sigma> s" and m: "moves M a \<sigma> \<sigma>'"
    and ns: "nodes s' = (nodes s)(a := n')" and ps: "\<And>c. c \<noteq> a \<Longrightarrow> procs s' c = procs s c"
    and a: "node_R saved logged ok M V \<sigma>' a n' (procs s' a)"
    and "net_R M \<sigma>' (net s')" "fresh_R M V \<sigma>' (nodes s')" "tok_R M s'"
  shows "R saved logged ok M V \<sigma>' s'"
proof -
  have inv: "spec_inv (majority M) (\<sigma> i)" for i using R by (simp add: R_def)
  note mi = moves_inv [OF m inv]
  have "node_R saved logged ok M V \<sigma>' c (nodes s' c) (procs s' c)" if "c \<in> M" for c
  proof (cases "c = a")
    case True
    then show ?thesis using a ns by simp
  next
    case False
    have "node_R saved logged ok M V \<sigma> c (nodes s c) (procs s c)" using R that by (simp add: R_def)
    from node_R_other [OF m mi(2) False this] show ?thesis using False ns ps [OF False] by simp
  qed
  then show ?thesis using R mi(1) assms(6-8) by (simp add: R_def)
qed

section \<open>Token arithmetic\<close>

lemma net_tokens_append [simp]: "net_tokens (xs @ ys) k = net_tokens xs k + net_tokens ys k"
  by (simp add: net_tokens_def)

lemma net_tokens_Nil [simp]: "net_tokens [] k = 0"
  by (simp add: net_tokens_def)

lemma msg_tokens_append [simp]: "msg_tokens (xs @ ys) k = msg_tokens xs k + msg_tokens ys k"
  by (simp add: msg_tokens_def)

lemma msg_tokens_Nil [simp]: "msg_tokens [] k = 0"
  by (simp add: msg_tokens_def)

lemma msg_tokens_Cons [simp]: "msg_tokens (m # ms) k = (if answer_token m = Some k then 1 else 0) + msg_tokens ms k"
  by (simp add: msg_tokens_def)

lemma net_tokens_remove:
  "x \<in> set ps \<Longrightarrow> net_tokens ps k = net_tokens (remove1 x ps) k + (if token x = Some k then 1 else 0)"
  by (induction ps) (auto simp: net_tokens_def)

lemma net_tokens_map:
  assumes "distinct ds" "\<And>d. token (a, d, m) = Some (ph, b, i, d)"
  shows "net_tokens (map (\<lambda>d. (a, d, m)) ds) k \<le> (if k \<in> (\<lambda>d. (ph, b, i, d)) ` set ds then 1 else 0)"
  using assms(1)
proof (induction ds)
  case (Cons d ds)
  then have IH: "net_tokens (map (\<lambda>d. (a, d, m)) ds) k \<le> (if k \<in> (\<lambda>d. (ph, b, i, d)) ` set ds then 1 else 0)" by simp
  have "net_tokens (map (\<lambda>d. (a, d, m)) (d # ds)) k = (if k = (ph, b, i, d) then 1 else 0) + net_tokens (map (\<lambda>d. (a, d, m)) ds) k"
    by (auto simp: net_tokens_def assms(2))
  moreover have "(ph, b, i, d) \<notin> (\<lambda>d. (ph, b, i, d)) ` set ds" using Cons.prems by auto
  ultimately show ?case using IH by (cases "k = (ph, b, i, d)") (auto split: if_splits)
qed simp

lemma request_tokens:
  assumes "distinct ds"
  shows "net_tokens (packets a ds (Prepare b i)) k \<le> (if k \<in> (\<lambda>d. (Phase1, b, i, d)) ` set ds then 1 else 0)"
    "net_tokens (packets a ds (Accept b i v)) k \<le> (if k \<in> (\<lambda>d. (Phase2, b, i, d)) ` set ds then 1 else 0)"
  using net_tokens_map [OF assms, of a "Prepare b i" Phase1 b i k]
    net_tokens_map [OF assms, of a "Accept b i (wire_value v)" Phase2 b i k]
  by (simp_all add: packets_def transmit_iff split: if_splits)

lemma other_tokens:
  assumes "\<And>d. token (a, d, wire m) = None"
  shows "net_tokens (packets a ds m) k = 0"
  using assms by (auto simp: packets_def transmit_iff net_tokens_def filter_empty_conv)

lemma unsent_mono:
  "(\<And>ph x. tk' (ph, b, i, x) \<le> tk (ph, b, i, x)) \<Longrightarrow> unsent tk a i b pc \<Longrightarrow> unsent tk' a i b pc"
  by (cases pc) (auto, (metis le_zero_eq)+)

lemma unsent_unregistered: "\<not> registered_pc pc \<Longrightarrow> unsent tk a i b pc"
  by (cases pc) simp_all

lemma own_tokens_other:
  "pending p' i = pending p i \<Longrightarrow> pr' i = pr i \<Longrightarrow> own_tokens p' pr' (ph, b, i, x) = own_tokens p pr (ph, b, i, x)"
  by (simp split: option.splits)

lemma tok_RD:
  assumes "tok_R M s"
  shows "tokens s k \<le> 1" "0 < tokens s k \<Longrightarrow> token_owner k \<in> M"
    "0 < tokens s k \<Longrightarrow> Round (fst (snd k)) \<le> currentRound (proposer (nodes s (token_owner k)))"
    "a \<in> M \<Longrightarrow> procs s a i = Some pc \<Longrightarrow> pending (proposer (nodes s a)) i = Some st \<Longrightarrow> unsent (tokens s) a i (ps_ballot st) pc"
  using assms unfolding tok_R_def by blast+

lemma R_D:
  assumes "R saved logged ok M V \<sigma> s"
  shows "finite M" "2 \<le> card M" "spec_inv (majority M) (\<sigma> i)"
    "a \<in> M \<Longrightarrow> node_R saved logged ok M V \<sigma> a (nodes s a) (procs s a)"
    "net_R M \<sigma> (net s)" "fresh_R M V \<sigma> (nodes s)" "tok_R M s"
  using assms unfolding R_def by blast+

lemma node_R_D:
  assumes "node_R saved logged ok M V \<sigma> a n pr"
  shows "nodeID n = a" "acc_nodeID (acceptor n) = a" "prop_nodeID (proposer n) = a"
    "quorumSize (proposer n) = quorum_of_peers (card M - 1)" "node_ids M a n"
    "data_ok saved logged ok M \<sigma> a n" "queue_ok M \<sigma> (proposer n)"
    "pr i = Some pc \<Longrightarrow> proc_ok M V \<sigma> (proposer n) i pc"
  using assms unfolding node_R_def node_ids_def by blast+

text \<open>What the relation gives about a running goroutine.\<close>

lemma R_proc:
  assumes "R saved logged ok M V \<sigma> s" "a \<in> M" "procs s a i = Some pc" "pending (proposer (nodes s a)) i = Some st"
    "registered_pc pc"
  shows "BallotNodeID (ps_ballot st) = a" "Round (ps_ballot st) \<le> currentRound (proposer (nodes s a))"
    "0 < ps_ballot st" "pc_ok M V \<sigma> i (ps_ballot st) (ps_value st) pc"
  using node_R_D(8) [OF R_D(4) [OF assms(1,2)] assms(3)] node_R_D(3) [OF R_D(4) [OF assms(1,2)]] assms(4,5)
  by (auto simp: proc_ok_def)

lemma R_own:
  assumes "R saved logged ok M V \<sigma> s" "c \<in> M" "procs s c i = Some pc" "pending (proposer (nodes s c)) i = Some st"
  shows "\<not> registered_pc pc \<or> BallotNodeID (ps_ballot st) = c"
  using R_proc(1) [OF assms] by blast

text \<open>A goroutine of \<open>a\<close> that an event leaves where it is, or moves to a point with a weaker
  condition.\<close>

definition carried :: "'s cluster \<Rightarrow> NodeID \<Rightarrow> Instance \<Rightarrow> Ballot \<Rightarrow> pc \<Rightarrow> token set \<Rightarrow> bool" where
  "carried s a i b pc N \<longleftrightarrow> (\<exists>pc0 st0. procs s a i = Some pc0 \<and> pending (proposer (nodes s a)) i = Some st0
     \<and> ps_ballot st0 = b \<and> (\<forall>tk. unsent tk a i b pc0 \<longrightarrow> unsent tk a i b pc) \<and> (\<forall>ph x. (ph, b, i, x) \<notin> N))"

lemma carried_same:
  "procs s a i = Some pc \<Longrightarrow> pending (proposer (nodes s a)) i = Some st \<Longrightarrow> ps_ballot st = b \<Longrightarrow>
     (\<And>ph x. (ph, b, i, x) \<notin> N) \<Longrightarrow> carried s a i b pc N"
  by (auto simp: carried_def)

lemma tok_update:
  assumes tok: "tok_R M s" and aM: "a \<in> M"
    and ns: "nodes s' = (nodes s)(a := n')" and ps: "\<And>c. c \<noteq> a \<Longrightarrow> procs s' c = procs s c"
    and round: "currentRound (proposer (nodes s a)) \<le> currentRound (proposer n')"
    and tk: "\<And>k. tokens s' k \<le> tokens s k + (if k \<in> N then 1 else 0)"
    and N: "\<And>k. k \<in> N \<Longrightarrow> token_owner k = a \<and> tokens s k = 0 \<and> Round (fst (snd k)) \<le> currentRound (proposer n')"
    and own: "\<And>c i pc st. c \<in> M \<Longrightarrow> c \<noteq> a \<Longrightarrow> procs s c i = Some pc \<Longrightarrow> pending (proposer (nodes s c)) i = Some st \<Longrightarrow>
      \<not> registered_pc pc \<or> BallotNodeID (ps_ballot st) = c"
    and mine: "\<And>i pc st. procs s' a i = Some pc \<Longrightarrow> pending (proposer n') i = Some st \<Longrightarrow>
      unsent (tokens s') a i (ps_ballot st) pc \<or> carried s a i (ps_ballot st) pc N"
  shows "tok_R M s'"
  unfolding tok_R_def
proof (intro conjI allI impI ballI)
  fix k
  show "tokens s' k \<le> 1" using tk [of k] N [of k] tok_RD(1) [OF tok, of k] by (auto split: if_splits)
next
  fix k assume pos: "0 < tokens s' k"
  have "token_owner k \<in> M \<and> Round (fst (snd k)) \<le> currentRound (proposer (nodes s' (token_owner k)))"
  proof (cases "k \<in> N")
    case True
    then show ?thesis using N [OF True] aM ns by simp
  next
    case False
    then have "0 < tokens s k" using tk [of k] pos by simp
    then have "token_owner k \<in> M \<and> Round (fst (snd k)) \<le> currentRound (proposer (nodes s (token_owner k)))"
      using tok_RD(2,3) [OF tok] by blast
    then show ?thesis using ns round by (cases "token_owner k = a") (auto intro: order.trans)
  qed
  then show "token_owner k \<in> M" "Round (fst (snd k)) \<le> currentRound (proposer (nodes s' (token_owner k)))" by auto
next
  fix c i pc st
  assume c: "c \<in> M" "procs s' c i = Some pc" "pending (proposer (nodes s' c)) i = Some st"
  show "unsent (tokens s') c i (ps_ballot st) pc"
  proof (cases "c = a")
    case True
    with c ns have "unsent (tokens s') a i (ps_ballot st) pc \<or> carried s a i (ps_ballot st) pc N"
      by (intro mine) simp_all
    then show ?thesis
    proof
      assume "carried s a i (ps_ballot st) pc N"
      then obtain pc0 st0 where 0: "procs s a i = Some pc0" "pending (proposer (nodes s a)) i = Some st0"
        "ps_ballot st0 = ps_ballot st" "\<And>tk. unsent tk a i (ps_ballot st) pc0 \<Longrightarrow> unsent tk a i (ps_ballot st) pc"
        "\<And>ph x. (ph, ps_ballot st, i, x) \<notin> N" unfolding carried_def by blast
      have "tokens s' (ph, ps_ballot st, i, x) \<le> tokens s (ph, ps_ballot st, i, x)" for ph x
        using tk [of "(ph, ps_ballot st, i, x)"] 0(5) [of ph x] by simp
      moreover have "unsent (tokens s) a i (ps_ballot st) pc"
        using tok_RD(4) [OF tok aM 0(1,2)] 0(3,4) by simp
      ultimately show ?thesis using True by (blast intro: unsent_mono)
    qed (use True in simp)
  next
    case False
    then have o: "procs s c i = Some pc" "pending (proposer (nodes s c)) i = Some st"
      using c ns ps [OF False] by simp_all
    show ?thesis
    proof (cases "registered_pc pc")
      case True
      then have "BallotNodeID (ps_ballot st) = c" using own [OF c(1) False o] by simp
      then have "(ph, ps_ballot st, i, x) \<notin> N" for ph x
        using N [of "(ph, ps_ballot st, i, x)"] False by (auto simp: token_owner_def)
      then have "tokens s' (ph, ps_ballot st, i, x) \<le> tokens s (ph, ps_ballot st, i, x)" for ph x
        using tk [of "(ph, ps_ballot st, i, x)"] by simp
      moreover have "unsent (tokens s) c i (ps_ballot st) pc" by (rule tok_RD(4) [OF tok c(1) o])
      ultimately show ?thesis by (rule unsent_mono)
    qed (rule unsent_unregistered)
  qed
qed

text \<open>The same for an event that creates no token.\<close>

lemma tok_quiet:
  assumes R: "R saved logged ok M V \<sigma> s" and aM: "a \<in> M"
    and ns: "nodes s' = (nodes s)(a := n')" and ps: "\<And>c. c \<noteq> a \<Longrightarrow> procs s' c = procs s c"
    and "currentRound (proposer (nodes s a)) \<le> currentRound (proposer n')"
    and tk: "\<And>k. tokens s' k \<le> tokens s k"
    and mine: "\<And>i pc st. procs s' a i = Some pc \<Longrightarrow> pending (proposer n') i = Some st \<Longrightarrow>
      unsent (tokens s') a i (ps_ballot st) pc \<or> carried s a i (ps_ballot st) pc {}"
  shows "tok_R M s'"
proof (rule tok_update [OF _ aM ns ps, where N = "{}"])
  show "tok_R M s" using R by (simp add: R_def)
  fix c i pc st
  assume "c \<in> M" "procs s c i = Some pc" "pending (proposer (nodes s c)) i = Some st"
  then show "\<not> registered_pc pc \<or> BallotNodeID (ps_ballot st) = c"
    by (rule R_own [OF R])
qed (use assms in auto)

section \<open>Acceptors\<close>

lemma acc_rel_report:
  assumes "acc_rel acc i p a" "acc_inv acc" "spec_inv (majority M) p"
  shows "report_of (fst (GetAccepted acc i)) (fst (snd (GetAccepted acc i))) = lastVote p a"
    "fst (GetAccepted acc i) = 0 \<Longrightarrow> fst (snd (GetAccepted acc i)) = None"
    "fst (GetAccepted acc i) \<noteq> 0 \<Longrightarrow> \<exists>m. proposal p m = Some (fst (snd (GetAccepted acc i)))"
proof -
  have "report_of (fst (GetAccepted acc i)) (fst (snd (GetAccepted acc i))) = lastVote p a
    \<and> (if fst (GetAccepted acc i) = 0 then fst (snd (GetAccepted acc i)) = None
       else \<exists>m. proposal p m = Some (fst (snd (GetAccepted acc i))))"
  proof (cases "acceptedBallot acc i")
    case None
    then have "acceptedValue acc i = None" using assms(2) by (auto simp: acc_inv_def)
    with None assms(1) show ?thesis by (simp add: GetAccepted_def report_of_def acc_rel_def)
  next
    case (Some b)
    then have l: "lastVote p a = Some (b, go_get None (acceptedValue acc) i)"
      using assms(1) by (simp add: acc_rel_def)
    then have "proposal p b = Some (go_get None (acceptedValue acc) i)"
      using spec_invD(1) [OF assms(3), of a b] spec_invD(3) [OF assms(3), of a] by (simp add: last_ok_def)
    moreover from this have "0 < b" by (rule spec_invD(5) [OF assms(3)])
    ultimately show ?thesis using Some l by (auto simp: GetAccepted_def report_of_def)
  qed
  then show "report_of (fst (GetAccepted acc i)) (fst (snd (GetAccepted acc i))) = lastVote p a"
    "fst (GetAccepted acc i) = 0 \<Longrightarrow> fst (snd (GetAccepted acc i)) = None"
    "fst (GetAccepted acc i) \<noteq> 0 \<Longrightarrow> \<exists>m. proposal p m = Some (fst (snd (GetAccepted acc i)))"
    by (auto split: if_splits)
qed

lemma node_R_acceptor:
  assumes R: "node_R saved logged ok M V \<sigma> a n pr" and le: "abs_le \<sigma> \<sigma>'" and same: "same_proposals \<sigma> \<sigma>'"
    and st: "node_stored saved ok (n\<lparr>acceptor := acc, storage := sto\<rparr>)" "saved_inv (saved sto)"
    and log: "logged sto = logged (storage n)"
    and id: "acc_nodeID acc = a" and rel: "\<And>j. committed n j = None \<Longrightarrow> acc_rel acc j (\<sigma>' j) a"
  shows "node_R saved logged ok M V \<sigma>' a (n\<lparr>acceptor := acc, storage := sto\<rparr>) pr"
proof -
  have d: "data_ok saved logged ok M \<sigma> a n" by (rule node_R_D(6) [OF R])
  have "data_ok saved logged ok M \<sigma>' a (n\<lparr>acceptor := acc, storage := sto\<rparr>)"
    using d st log rel learned_mono [OF le] unfolding data_ok_def by auto
  moreover have "node_ids M a (n\<lparr>acceptor := acc, storage := sto\<rparr>)"
    using node_R_D(5) [OF R] id by (simp add: node_ids_def)
  moreover have "proc_ok M V \<sigma>' (proposer n) i pc" if "pr i = Some pc" for i pc
    using proc_ok_mono [OF le _ node_R_D(8) [OF R that]] same by (simp add: same_proposals_def)
  ultimately show ?thesis using queue_ok_mono [OF le node_R_D(7) [OF R]] by (simp add: node_R_def)
qed

lemma saved_inv_snapshot: "acc_inv a \<Longrightarrow> saved_inv (deep_copy (acceptor_snapshot a))"
  by (simp add: saved_inv_def acc_inv_def deep_copy_def acceptor_snapshot_def GetPromised_def copy_values_def dom_def)

context storage_contract
begin

lemma request_saved_inv:
  assumes "persist (Some S) a' st = (e, st')" "inv st" "saved_inv (saved st)" "acc_inv a'"
  shows "saved_inv (saved st')"
proof (cases e)
  case None
  with save_ok [of st "acceptor_snapshot a'" st'] assms show ?thesis by (simp add: persist_def saved_inv_snapshot)
next
  case (Some x)
  with save_err [of st "acceptor_snapshot a'" x st'] assms show ?thesis by (simp add: persist_def)
qed

lemma handled_saved_inv:
  assumes "inv st" "acc_inv a" "saved_inv (saved st)"
  shows "HandlePrepare (Some S) b i a st = (r, a', st') \<Longrightarrow> saved_inv (saved st')"
    "HandleAccept (Some S) b i v a st = (r, a', st') \<Longrightarrow> saved_inv (saved st')"
proof -
  assume h: "HandlePrepare (Some S) b i a st = (r, a', st')"
  have "acc_inv (a\<lparr>promised := (promised a)(i \<mapsto> b)\<rparr>)" if "GetPromised a i \<le> b"
    using assms(2) that by (auto simp: acc_inv_def intro: order.trans)
  with h show "saved_inv (saved st')"
    by (cases rule: HandlePrepare_cases) (use assms request_saved_inv in \<open>auto\<close>)
next
  assume h: "HandleAccept (Some S) b i v a st = (r, a', st')"
  from h show "saved_inv (saved st')"
  proof (cases rule: HandleAccept_cases)
    case (unsaved e)
    show ?thesis using save_err [OF assms(1)] unsaved assms(3) by (auto simp: persist_def)
  qed (use assms request_saved_inv HandleAccept_inv [OF h] in auto)
qed

lemma prepare_sim:
  assumes R: "node_R saved logged inv M V \<sigma> a n pr" and aM: "a \<in> M"
    and sinv: "\<And>i. spec_inv (majority M) (\<sigma> i)"
    and fresh: "\<forall>i b v. proposal (\<sigma> i) b = Some v \<longrightarrow> 0 < slice_len v"
    and unc: "committed n i = None"
    and h: "HandlePrepare (Some S) b i (acceptor n) (storage n) = (r, acc, sto)"
  shows "\<exists>\<sigma>'. moves M a \<sigma> \<sigma>' \<and> same_proposals \<sigma> \<sigma>' \<and> msg_ok M \<sigma>' r
    \<and> node_R saved logged inv M V \<sigma>' a (n\<lparr>acceptor := acc, storage := sto\<rparr>) pr"
proof -
  have d: "data_ok saved logged inv M \<sigma> a n" by (rule node_R_D(6) [OF R])
  have ns: "node_stored saved inv n" and rel: "\<And>j. committed n j = None \<Longrightarrow> acc_rel (acceptor n) j (\<sigma> j) a"
    using d by (auto simp: data_ok_def)
  have inv: "inv (storage n)" "acc_inv (acceptor n)" using ns by (simp_all add: node_stored_def)
  have st: "node_stored saved inv (n\<lparr>acceptor := acc, storage := sto\<rparr>)"
    using node_stored_act [OF ns, of "ActPrepare b i"] h by simp
  have sv: "saved_inv (saved sto)"
    by (rule handled_saved_inv(1) [OF inv _ h]) (use d in \<open>simp add: data_ok_def\<close>)
  have log: "logged sto = logged (storage n)" using prepare_lockstep_at [OF h inv(1)] by simp
  have id: "acc_nodeID acc = a" using HandlePrepare_nodeID [OF h] node_R_D(2) [OF R] by simp
  from h show ?thesis
  proof (cases rule: HandlePrepare_cases)
    case low
    have "node_R saved logged inv M V \<sigma> a (n\<lparr>acceptor := acc, storage := sto\<rparr>) pr"
      by (rule node_R_acceptor [OF R abs_le_refl same_proposals_refl st sv log id]) (simp add: low rel)
    then show ?thesis using low by (intro exI [of _ \<sigma>]) (simp add: moves.stay)
  next
    case (unsaved e)
    have "node_R saved logged inv M V \<sigma> a (n\<lparr>acceptor := acc, storage := sto\<rparr>) pr"
      by (rule node_R_acceptor [OF R abs_le_refl same_proposals_refl st sv log id]) (simp add: unsaved rel)
    then show ?thesis using unsaved by (intro exI [of _ \<sigma>]) (simp add: moves.stay)
  next
    case granted
    define p where "p = (\<sigma> i)\<lparr>maxBal := (maxBal (\<sigma> i))(a := b), proms := insert (b, a, lastVote (\<sigma> i) a) (proms (\<sigma> i))\<rparr>"
    have ri: "acc_rel (acceptor n) i (\<sigma> i) a" by (rule rel [OF unc])
    have step: "spec_step (majority M) (\<sigma> i) p"
      unfolding p_def using ri granted(1) by (intro spec_step.promise) (simp add: acc_rel_def)
    have m: "moves M a \<sigma> (\<sigma>(i := p))" using step by (rule moves.move) (simp_all add: p_def)
    have same: "same_proposals \<sigma> (\<sigma>(i := p))" by (simp add: same_proposals_def p_def)
    have "node_R saved logged inv M V (\<sigma>(i := p)) a (n\<lparr>acceptor := acc, storage := sto\<rparr>) pr"
      by (rule node_R_acceptor [OF R moves_inv(2) [OF m sinv] same st sv log id])
         (use granted(2) rel in \<open>auto simp: acc_rel_def p_def\<close>)
    moreover have "msg_ok M (\<sigma>(i := p)) r"
      using acc_rel_report [OF ri inv(2) sinv] fresh granted(3) aM node_R_D(2) [OF R] by (auto simp: p_def)
    ultimately show ?thesis using m same by blast
  qed
qed

lemma accept_sim:
  assumes R: "node_R saved logged inv M V \<sigma> a n pr" and aM: "a \<in> M"
    and sinv: "\<And>i. spec_inv (majority M) (\<sigma> i)" and prp: "proposal (\<sigma> i) b = Some v"
    and unc: "committed n i = None"
    and h: "HandleAccept (Some S) b i v (acceptor n) (storage n) = (r, acc, sto)"
  shows "\<exists>\<sigma>'. moves M a \<sigma> \<sigma>' \<and> same_proposals \<sigma> \<sigma>' \<and> msg_ok M \<sigma>' r
    \<and> node_R saved logged inv M V \<sigma>' a (n\<lparr>acceptor := acc, storage := sto\<rparr>) pr"
proof -
  have d: "data_ok saved logged inv M \<sigma> a n" by (rule node_R_D(6) [OF R])
  have ns: "node_stored saved inv n" and rel: "\<And>j. committed n j = None \<Longrightarrow> acc_rel (acceptor n) j (\<sigma> j) a"
    using d by (auto simp: data_ok_def)
  have inv: "inv (storage n)" "acc_inv (acceptor n)" using ns by (simp_all add: node_stored_def)
  have st: "node_stored saved inv (n\<lparr>acceptor := acc, storage := sto\<rparr>)"
    using node_stored_act [OF ns, of "ActAccept b i v"] h by simp
  have sv: "saved_inv (saved sto)"
    by (rule handled_saved_inv(2) [OF inv _ h]) (use d in \<open>simp add: data_ok_def\<close>)
  have log: "logged sto = logged (storage n)" using accept_lockstep_at [OF h inv(1)] by simp
  have id: "acc_nodeID acc = a" using HandleAccept_nodeID [OF h] node_R_D(2) [OF R] by simp
  from h show ?thesis
  proof (cases rule: HandleAccept_cases)
    case low
    have "node_R saved logged inv M V \<sigma> a (n\<lparr>acceptor := acc, storage := sto\<rparr>) pr"
      by (rule node_R_acceptor [OF R abs_le_refl same_proposals_refl st sv log id]) (simp add: low rel)
    then show ?thesis using low by (intro exI [of _ \<sigma>]) (simp add: moves.stay)
  next
    case (unsaved e)
    have "node_R saved logged inv M V \<sigma> a (n\<lparr>acceptor := acc, storage := sto\<rparr>) pr"
      by (rule node_R_acceptor [OF R abs_le_refl same_proposals_refl st sv log id]) (simp add: unsaved rel)
    then show ?thesis using unsaved by (intro exI [of _ \<sigma>]) (simp add: moves.stay)
  next
    case granted
    define p where "p = (\<sigma> i)\<lparr>maxBal := (maxBal (\<sigma> i))(a := b), votes := (votes (\<sigma> i))(a := (votes (\<sigma> i) a)(b \<mapsto> v)),
      lastVote := (lastVote (\<sigma> i))(a \<mapsto> (b, v))\<rparr>"
    have ri: "acc_rel (acceptor n) i (\<sigma> i) a" by (rule rel [OF unc])
    have step: "spec_step (majority M) (\<sigma> i) p"
      unfolding p_def using ri granted(1) prp by (intro spec_step.vote) (simp_all add: acc_rel_def)
    have m: "moves M a \<sigma> (\<sigma>(i := p))" using step by (rule moves.move) (simp_all add: p_def)
    have same: "same_proposals \<sigma> (\<sigma>(i := p))" by (simp add: same_proposals_def p_def)
    have "node_R saved logged inv M V (\<sigma>(i := p)) a (n\<lparr>acceptor := acc, storage := sto\<rparr>) pr"
      by (rule node_R_acceptor [OF R moves_inv(2) [OF m sinv] same st sv log id])
         (use granted(3) rel in \<open>auto simp: acc_rel_def p_def\<close>)
    moreover have "msg_ok M (\<sigma>(i := p)) r"
      using granted(2) aM node_R_D(2) [OF R] by (simp add: p_def)
    ultimately show ?thesis using m same by blast
  qed
qed

end

end
