(* ===== verification/Cluster_Events.thy ===== *)
theory Cluster_Events
  imports Cluster_Relation
begin

text \<open>
  The events of a cluster that need no message from another node keep the simulation
  relation: ticks, elections, new ballots, the votes of a proposer's own acceptor and the
  broadcasts.
\<close>

section \<open>Events that leave the data alone\<close>

definition same_proposer :: "Proposer \<Rightarrow> Proposer \<Rightarrow> bool" where
  "same_proposer p p' \<longleftrightarrow> prop_nodeID p' = prop_nodeID p \<and> quorumSize p' = quorumSize p \<and> currentRound p' = currentRound p"

lemma node_R_proposer:
  assumes "node_R saved logged ok M V \<sigma> a n pr" "same_data n n'" "prop_nodeID (proposer n') = prop_nodeID (proposer n)"
    "quorumSize (proposer n') = quorumSize (proposer n)" "queue_ok M \<sigma> (proposer n')"
    "\<And>i pc. pr' i = Some pc \<Longrightarrow> proc_ok M V \<sigma> (proposer n') i pc"
  shows "node_R saved logged ok M V \<sigma> a n' pr'"
  using assms unfolding node_R_def node_ids_def data_ok_def same_data_def node_stored_def by simp

lemma R_same:
  assumes "R saved logged ok M V \<sigma> s" "nodes s' = (nodes s)(a := n')" "\<And>c. c \<noteq> a \<Longrightarrow> procs s' c = procs s c"
    "node_R saved logged ok M V \<sigma> a n' (procs s' a)" "net_R M \<sigma> (net s')"
    "currentRound (proposer (nodes s a)) \<le> currentRound (proposer n')" "tok_R M s'"
  shows "R saved logged ok M V \<sigma> s'"
proof (rule R_update [OF assms(1) moves.stay assms(2,3,4,5) _ assms(7)])
  show "fresh_R M V \<sigma> (nodes s')"
    using R_D(6) [OF assms(1)] by (rule fresh_R_mono) (use assms(2,6) in auto)
qed

lemma own_tokens_le:
  assumes "pending p' i = pending p i \<and> gathered (pr' i) \<in> {gathered (pr i), []} \<or> pending p' i = None"
  shows "own_tokens p' pr' (ph, b, i, x) \<le> own_tokens p pr (ph, b, i, x)"
  using assms by (auto split: option.splits)

lemma tokens_le:
  assumes "nodes s' = (nodes s)(a := n')" "\<And>c. c \<noteq> a \<Longrightarrow> procs s' c = procs s c"
    "net_tokens (net s') k \<le> net_tokens (net s) k + d"
    "token_owner k = a \<Longrightarrow> own_tokens (proposer n') (procs s' a) k \<le> own_tokens (proposer (nodes s a)) (procs s a) k + e"
    "token_owner k = a \<Longrightarrow> d + e \<le> f" "token_owner k \<noteq> a \<Longrightarrow> d \<le> f"
  shows "tokens s' k \<le> tokens s k + f"
proof (cases "token_owner k = a")
  case True
  then show ?thesis using assms(1,3-5) unfolding tokens_def by fastforce
next
  case False
  then show ?thesis using assms(1,2,3,6) unfolding tokens_def by fastforce
qed

text \<open>Events that only touch flags, the election state or the subscription, end goroutines or
  start an election, and send messages that carry no vote.\<close>

definition unregistered :: "pc option \<Rightarrow> bool" where
  "unregistered p \<longleftrightarrow> (\<forall>pc. p = Some pc \<longrightarrow> \<not> registered_pc pc)"

definition idle_move :: "pc option \<Rightarrow> pc option \<Rightarrow> bool" where
  "idle_move p p' \<longleftrightarrow> unregistered p' \<or> (\<exists>pc. p = Some pc \<and> registered_pc pc) \<and> p' \<in> {Some Returning, Some ElectionLed}"

lemma unregistered_gathered: "unregistered p \<Longrightarrow> gathered p = []"
  by (cases p) (auto simp: unregistered_def elim!: registered_pc.elims)

lemma idle_moveD:
  assumes "idle_move p (Some pc)"
  shows "gathered (Some pc) = []" "unsent tk a i b pc" "registered_pc pc \<Longrightarrow> \<exists>pc'. p = Some pc' \<and> registered_pc pc'"
    "registered_pc pc \<Longrightarrow> pc_ok M V \<sigma> i b v pc"
  using assms unregistered_gathered [of "Some pc"] unsent_unregistered [of pc]
  by (auto simp: idle_move_def unregistered_def)

lemma R_internal:
  assumes R: "R saved logged ok M V \<sigma> s" and aM: "a \<in> M"
    and ns: "nodes s' = (nodes s)(a := n')" and ps: "\<And>c. c \<noteq> a \<Longrightarrow> procs s' c = procs s c"
    and sd: "same_data (nodes s a) n'" and sp: "same_proposer (proposer (nodes s a)) (proposer n')"
    and pr: "\<And>i. pending (proposer n') i = pending (proposer (nodes s a)) i
        \<and> (procs s' a i = procs s a i \<or> idle_move (procs s a i) (procs s' a i))
      \<or> pending (proposer n') i = None \<and> unregistered (procs s' a i)"
    and net: "net_R M \<sigma> (net s')" and nt: "\<And>k. net_tokens (net s') k \<le> net_tokens (net s) k"
  shows "R saved logged ok M V \<sigma> s'"
proof -
  note nR = R_D(4) [OF R aM]
  have "queue_ok M \<sigma> (proposer n')"
    using node_R_D(7) [OF nR] pr unfolding queue_ok_def by (metis option.distinct(1))
  moreover have "proc_ok M V \<sigma> (proposer n') i pc" if "procs s' a i = Some pc" for i pc
  proof (cases "procs s a i = Some pc \<and> pending (proposer n') i = pending (proposer (nodes s a)) i")
    case True
    then show ?thesis using node_R_D(8) [OF nR, of i pc] sp by (auto simp: proc_ok_def same_proposer_def)
  next
    case False
    show ?thesis
    proof (cases "registered_pc pc")
      case True
      then have m: "idle_move (procs s a i) (Some pc)" and p: "pending (proposer n') i = pending (proposer (nodes s a)) i"
        using False that pr [of i] by (auto simp: unregistered_def)
      from idle_moveD(3) [OF m True] obtain pc0 where "procs s a i = Some pc0" "registered_pc pc0" by blast
      then show ?thesis using node_R_D(8) [OF nR] idle_moveD(4) [OF m True] p sp
        by (fastforce simp: proc_ok_def same_proposer_def)
    qed (simp add: proc_ok_def)
  qed
  ultimately have n': "node_R saved logged ok M V \<sigma> a n' (procs s' a)"
    using node_R_proposer [OF nR sd] sp by (simp add: same_proposer_def)
  have own: "own_tokens (proposer n') (procs s' a) (ph, b, i, x) \<le> own_tokens (proposer (nodes s a)) (procs s a) (ph, b, i, x)" for ph b i x
    using pr [of i] idle_moveD(1) unregistered_gathered
    by (intro own_tokens_le) (cases "procs s' a i"; auto)
  have tk: "tokens s' k \<le> tokens s k" for k
  proof -
    obtain ph b i x where k: "k = (ph, b, i, x)" by (metis prod_cases4)
    show ?thesis using tokens_le [OF ns ps, of k 0 0 0] nt own [of ph b i x] by (simp add: k)
  qed
  have "tok_R M s'"
  proof (rule tok_quiet [OF R aM ns ps _ tk])
    show "currentRound (proposer (nodes s a)) \<le> currentRound (proposer n')" using sp by (simp add: same_proposer_def)
    fix i pc st
    assume pcs: "procs s' a i = Some pc" "pending (proposer n') i = Some st"
    show "unsent (tokens s') a i (ps_ballot st) pc \<or> carried s a i (ps_ballot st) pc {}"
    proof (cases "procs s a i = Some pc")
      case True
      with pr [of i] pcs have "\<not> registered_pc pc \<or> carried s a i (ps_ballot st) pc {}"
        by (cases "registered_pc pc") (auto simp: unregistered_def intro!: carried_same [OF True])
      then show ?thesis using unsent_unregistered by blast
    next
      case False
      with pr [of i] pcs have "idle_move (procs s a i) (Some pc)" by (auto simp: unregistered_def)
      then show ?thesis using idle_moveD(2) by blast
    qed
  qed
  then show ?thesis using R_same [OF R ns ps n' net] sp by (simp add: same_proposer_def)
qed

lemma cluster_simps [simp]:
  "nodes (upd_node a n s) = (nodes s)(a := n)" "procs (upd_node a n s) = procs s" "net (upd_node a n s) = net s"
  "nodes (set_pc a i p s) = nodes s" "procs (set_pc a i p s) = (procs s)(a := (procs s a)(i := p))" "net (set_pc a i p s) = net s"
  "nodes (send a ds m s) = nodes s" "procs (send a ds m s) = procs s" "net (send a ds m s) = net s @ packets a ds m"
  "nodes (finish a i p s) = (nodes s)(a := (nodes s a)\<lparr>proposer := end_proposal i (proposer (nodes s a))\<rparr>)"
  "procs (finish a i p s) = (procs s)(a := (procs s a)(i := p))" "net (finish a i p s) = net s"
  "running (upd_node a n s) = running s" "running (set_pc a i p s) = running s" "running (send a ds m s) = running s"
  "running (finish a i p s) = running s"
  by (simp_all add: upd_node_def set_pc_def send_def finish_def Let_def)

lemma net_R_append [simp]: "net_R M \<sigma> (xs @ ys) \<longleftrightarrow> net_R M \<sigma> xs \<and> net_R M \<sigma> ys"
  unfolding net_R_def by (simp add: ball_Un)

lemma net_R_packets: "msg_ok M \<sigma> m \<Longrightarrow> net_R M \<sigma> (packets a ds m)"
  by (auto simp: net_R_def packets_def transmit_iff msg_ok_wire)

lemma net_R_remove: "net_R M \<sigma> ps \<Longrightarrow> net_R M \<sigma> (remove1 x ps)"
  unfolding net_R_def by (meson notin_set_remove1)

lemma same_proposer_refl [simp]: "same_proposer p p"
  by (simp add: same_proposer_def)

lemma same_proposer_end [simp]: "same_proposer p (end_proposal i p)"
  by (simp add: same_proposer_def end_proposal_def)

lemma end_proposal_pending [simp]: "pending (end_proposal i p) j = (if j = i then None else pending p j)"
  by (simp add: end_proposal_def go_delete_apply)

lemma start_R:
  assumes "R saved logged ok M V \<sigma> s" "exec S M (EvStart a err now rnd) s = Some s'"
  shows "R saved logged ok M V \<sigma> s'"
proof -
  from assms(2) obtain e n' where aM: "a \<in> M" and n': "Start err now rnd (nodes s a) = Some (e, n')"
    and s': "nodes s' = (nodes s)(a := n')" "procs s' = procs s" "net s' = net s" by (auto split: if_splits)
  from n' have "same_data (nodes s a) n'" "proposer n' = proposer (nodes s a)"
    by (auto simp: Start_def Let_def same_data_def dest!: resetElectionDeadline_Some split: if_splits option.splits)
  then show ?thesis using R_internal [OF assms(1) aM, of s' n'] R_D(5) [OF assms(1)] by (simp add: s')
qed

lemma receive_R:
  assumes "R saved logged ok M V \<sigma> s" "exec S M (EvReceive a) s = Some s'"
  shows "R saved logged ok M V \<sigma> s'"
proof -
  from assms(2) obtain e n' where aM: "a \<in> M" and n': "Subscribe_recv (nodes s a) = Some (e, n')"
    and s': "s' = upd_node a n' s" by (auto split: if_splits)
  from n' have "same_data (nodes s a) n'" "proposer n' = proposer (nodes s a)"
    by (auto simp: Subscribe_recv_def same_data_def split: list.splits)
  then show ?thesis using R_internal [OF assms(1) aM, of s' n'] R_D(5) [OF assms(1)] by (simp add: s')
qed

lemma drop_R:
  assumes "R saved logged ok M V \<sigma> s" "exec S M (EvDrop pkt) s = Some s'"
  shows "R saved logged ok M V \<sigma> s'"
proof -
  from assms(2) have pkt: "pkt \<in> set (net s)" and s': "s' = s\<lparr>net := remove1 pkt (net s)\<rparr>" by (auto split: if_splits)
  obtain a where aM: "a \<in> M" using R_D(1,2) [OF assms(1)] by fastforce
  show ?thesis
    by (rule R_internal [OF assms(1) aM, of s' "nodes s a"])
       (use net_R_remove [OF R_D(5) [OF assms(1)]] net_tokens_remove [OF pkt] in \<open>simp_all add: s'\<close>)
qed

lemma heartbeat_packets: "net_tokens (packets a ds (sendHeartbeat l n)) k = 0" "net_R M \<sigma> (packets a ds (sendHeartbeat l n))"
  by (rule other_tokens, simp add: sendHeartbeat_def) (simp add: net_R_packets sendHeartbeat_def)

lemma idle_move_simps [simp]:
  "unregistered None" "unregistered (Some pc) \<longleftrightarrow> \<not> registered_pc pc" "unregistered p' \<Longrightarrow> idle_move p p'"
  "registered_pc pc \<Longrightarrow> idle_move (Some pc) (Some Returning)" "registered_pc pc \<Longrightarrow> idle_move (Some pc) (Some ElectionLed)"
  by (simp_all add: unregistered_def idle_move_def)

text \<open>Timeouts, and the steps of an election that take no vote.\<close>

lemma timeout_R:
  assumes "R saved logged ok M V \<sigma> s" "exec S M (EvTimeout a i) s = Some s'"
  shows "R saved logged ok M V \<sigma> s'"
proof -
  from assms(2) obtain pc where aM: "a \<in> M" and pc: "procs s a i = Some pc" "registered_pc pc"
    and s': "s' = set_pc a i (Some Returning) s" by (auto split: if_splits option.splits pc.splits)
  show ?thesis
    by (rule R_internal [OF assms(1) aM, of s' "nodes s a"])
       (use R_D(5) [OF assms(1)] pc in \<open>auto simp: s'\<close>)
qed

lemma return_R:
  assumes "R saved logged ok M V \<sigma> s" "exec S M (EvReturn a i) s = Some s'"
  shows "R saved logged ok M V \<sigma> s'"
proof -
  from assms(2) have aM: "a \<in> M" and "\<exists>p \<in> {Some ElectionLost, Some ElectionUpdate, None}. s' = finish a i p s"
    by (auto split: if_splits option.splits pc.splits)
  then obtain p where "p \<in> {Some ElectionLost, Some ElectionUpdate, None}" and s': "s' = finish a i p s" by blast
  then have p: "unregistered p" by auto
  let ?n' = "(nodes s a)\<lparr>proposer := end_proposal i (proposer (nodes s a))\<rparr>"
  have "same_data (nodes s a) ?n'" by (simp add: same_data_def)
  then show ?thesis
    using R_internal [OF assms(1) aM, of s' ?n'] R_D(5) [OF assms(1)] p by (simp add: s')
qed

lemma lead_R:
  assumes "R saved logged ok M V \<sigma> s" "exec S M (EvLead a) s = Some s'"
  shows "R saved logged ok M V \<sigma> s'"
proof -
  from assms(2) obtain st where aM: "a \<in> M" and pc: "procs s a 0 = Some ElectionWon"
    and st: "pending (proposer (nodes s a)) 0 = Some st" and s': "s' = set_pc a 0 (Some ElectionLed)
      (upd_node a ((nodes s a)\<lparr>proposer := win_election (ps_ballot st) (proposer (nodes s a))\<rparr>) s)"
    by (auto simp: Let_def split: option.splits pc.splits if_splits)
  let ?n' = "(nodes s a)\<lparr>proposer := win_election (ps_ballot st) (proposer (nodes s a))\<rparr>"
  have "same_data (nodes s a) ?n'" "same_proposer (proposer (nodes s a)) (proposer ?n')"
    "pending (proposer ?n') = pending (proposer (nodes s a))"
    by (simp_all add: same_data_def same_proposer_def win_election_def)
  then show ?thesis
    using R_internal [OF assms(1) aM, of s' ?n'] R_D(5) [OF assms(1)] pc by (simp add: s')
qed

lemma election_R:
  assumes "R saved logged ok M V \<sigma> s" "exec S M e s = Some s'"
    "e = EvUpdate a now rnd \<or> e = EvBeat a ds \<or> e = EvBackoff a now rnd \<or> e = EvElected a"
  shows "R saved logged ok M V \<sigma> s'"
proof -
  obtain n' p ms where aM: "a \<in> M" and n': "nodes s' = (nodes s)(a := n')" "same_data (nodes s a) n'" "proposer n' = proposer (nodes s a)"
    and p: "procs s' = (procs s)(a := (procs s a)(0 := p))" "unregistered p"
    and ms: "net s' = net s @ ms" "net_R M \<sigma> ms" "\<And>k. net_tokens ms k = 0"
  proof -
    consider "e = EvUpdate a now rnd" | "e = EvBeat a ds" | "e = EvBackoff a now rnd" | "e = EvElected a" using assms(3) by blast
    then show thesis
    proof cases
      case 1
      with assms(2) obtain n1 where "a \<in> M" "take_leadership now rnd (nodes s a) = Some n1"
        "s' = set_pc a 0 (Some (ElectionBeat (lastCommitted n1))) (upd_node a n1 s)" by (auto split: if_splits)
      then show thesis by (intro that [of n1 "Some (ElectionBeat (lastCommitted n1))" "[]"])
          (auto simp: take_leadership_def same_data_def net_R_def dest!: resetElectionDeadline_Some)
    next
      case 2
      with assms(2) obtain l where "a \<in> M" "s' = set_pc a 0 (Some ElectionEnd) (send a ds (sendHeartbeat l (nodes s a)) s)"
        by (auto split: if_splits option.splits pc.splits)
      then show thesis by (intro that [of "nodes s a" "Some ElectionEnd" "packets a ds (sendHeartbeat l (nodes s a))"])
          (simp_all add: heartbeat_packets)
    next
      case 3
      with assms(2) obtain n1 where "a \<in> M" "resetElectionDeadline now rnd (nodes s a) = Some n1"
        "s' = set_pc a 0 (Some ElectionEnd) (upd_node a n1 s)" by (auto split: if_splits)
      then show thesis by (intro that [of n1 "Some ElectionEnd" "[]"])
          (auto simp: same_data_def net_R_def dest!: resetElectionDeadline_Some)
    next
      case 4
      with assms(2) show thesis by (intro that [of "(nodes s a)\<lparr>electing := False\<rparr>" None "[]"])
          (auto simp: same_data_def net_R_def split: if_splits)
    qed
  qed
  show ?thesis
    by (rule R_internal [OF assms(1) aM n'(1) _ n'(2)]) (use R_D(5) [OF assms(1)] n'(3) p ms in auto)
qed

lemma tick_R:
  assumes "R saved logged ok M V \<sigma> s" "exec S M (EvTick a now rnd ds) s = Some s'"
  shows "R saved logged ok M V \<sigma> s'"
proof -
  from assms(2) obtain n' out elect where aM: "a \<in> M"
    and t: "checkLeaderAndHeartbeat now rnd (nodes s a) = Some (n', out, elect)"
    and s': "s' = (let s = fold (send a ds) out (upd_node a n' s) in if elect then set_pc a 0 (Some ElectionStart) s else s)"
    by (auto split: if_splits)
  from t have n': "same_data (nodes s a) n'" "proposer n' = proposer (nodes s a)"
    and out: "out = [] \<or> out = [sendHeartbeat (lastCommitted (nodes s a)) (nodes s a)]"
    by (auto simp: checkLeaderAndHeartbeat_def same_data_def dest!: resetElectionDeadline_Some split: if_splits)
  show ?thesis
    using R_internal [OF assms(1) aM, of s' n'] R_D(5) [OF assms(1)] n' out
    by (auto simp: s' Let_def heartbeat_packets)
qed

lemma commitCast_R:
  assumes "R saved logged ok M V \<sigma> s" "exec S M (EvCommitCast a i ds) s = Some s'"
  shows "R saved logged ok M V \<sigma> s'"
proof -
  from assms(2) obtain st where aM: "a \<in> M" and st: "pending (proposer (nodes s a)) i = Some st"
    and pc: "procs s a i = Some CommitCast"
    and s': "s' = set_pc a i (Some Returning) (send a ds (Commit (ps_ballot st) i (ps_value st)) s)"
    by (auto split: option.splits pc.splits if_splits)
  have ok: "msg_ok M \<sigma> (Commit (ps_ballot st) i (ps_value st))"
    using R_proc(4) [OF assms(1) aM pc st] by simp
  show ?thesis
    using R_internal [OF assms(1) aM, of s' "nodes s a"] R_D(5) [OF assms(1)] net_R_packets [OF ok]
      other_tokens [of a "Commit (ps_ballot st) i (ps_value st)"] pc
    by (simp add: s')
qed

section \<open>New ballots\<close>

lemma proc_ok_cong:
  assumes "proc_ok M V \<sigma> p i pc" "pending p' i = pending p i" "prop_nodeID p' = prop_nodeID p"
    "currentRound p \<le> currentRound p'"
  shows "proc_ok M V \<sigma> p' i pc"
  using assms unfolding proc_ok_def by (metis order.trans)

lemma begin_R:
  assumes R: "R saved logged ok M V \<sigma> s" and aM: "a \<in> M" and p: "p = proposer (nodes s a)"
    and wrap: "unat (currentRound p) + 1 < 2 ^ 32" and b: "ps_ballot st = MakeBallot (currentRound p + 1) a"
    and st: "responses st = []" "i \<noteq> 0 \<longrightarrow> ps_value st \<in> V \<and> 0 < slice_len (ps_value st)"
    and p': "prop_nodeID p' = prop_nodeID p" "quorumSize p' = quorumSize p" "currentRound p' = currentRound p + 1"
      "pending p' = (pending p)(i \<mapsto> st)"
    and s': "s' = set_pc a i (Some Phase1Own) (upd_node a ((nodes s a)\<lparr>proposer := p'\<rparr>) s)"
  shows "R saved logged ok M V \<sigma> s'"
proof -
  note nR = R_D(4) [OF R aM]
  let ?n' = "(nodes s a)\<lparr>proposer := p'\<rparr>" and ?b = "ps_ballot st"
  have up: "currentRound p < currentRound p'"
    using wrap p'(3) by (simp add: word_less_nat_alt unat_word_ariths)
  have bid: "BallotNodeID ?b = a" "Round ?b = currentRound p'" using b p'(3) by simp_all
  have "unat ?b \<noteq> 0" using up by (simp add: b p'(3) unat_MakeBallot word_less_nat_alt)
  then have pos: "0 < ?b" by (simp add: word_less_nat_alt)
  have none: "proposal (\<sigma> i) ?b = None"
    using R_D(6) [OF R] bid up unfolding fresh_R_def by (metis p leD not_None_eq)
  have notok: "tokens s (ph, ?b, j, x) = 0" for ph j x
    using tok_RD(3) [OF R_D(7) [OF R], of "(ph, ?b, j, x)"] bid up
    by (cases "tokens s (ph, ?b, j, x)") (auto simp: token_owner_def p)
  have ns: "nodes s' = (nodes s)(a := ?n')" and ps: "\<And>c. c \<noteq> a \<Longrightarrow> procs s' c = procs s c" by (simp_all add: s')
  have q: "queue_ok M \<sigma> p'"
    using node_R_D(7) [OF nR] st(1) p'(4) unfolding queue_ok_def by (auto simp: p votes_ok_def)
  have pk: "proc_ok M V \<sigma> p' j pc" if "procs s' a j = Some pc" for j pc
  proof (cases "j = i")
    case True
    with that have "pc = Phase1Own" by (simp add: s')
    then show ?thesis using True bid p' pos none st(2) node_R_D(3) [OF nR] by (simp add: proc_ok_def p)
  next
    case False
    then have "procs s a j = Some pc" using that by (simp add: s')
    from proc_ok_cong [OF node_R_D(8) [OF nR this], of p'] show ?thesis using False p' up by (simp add: p)
  qed
  have n': "node_R saved logged ok M V \<sigma> a ?n' (procs s' a)"
    by (rule node_R_proposer [OF nR]) (use p' q pk in \<open>simp_all add: same_data_def p\<close>)
  have own: "own_tokens p' (procs s' a) (ph, c, j, x) \<le> own_tokens p (procs s a) (ph, c, j, x)" for ph c j x
    using p'(4) st(1) by (cases "j = i") (simp_all add: s' split: option.splits)
  have tk: "tokens s' k \<le> tokens s k" for k
  proof -
    obtain ph c j x where k: "k = (ph, c, j, x)" by (metis prod_cases4)
    show ?thesis using tokens_le [OF ns ps, of k 0 0 0] own [of ph c j x] by (simp add: k s' p)
  qed
  have "tok_R M s'"
  proof (rule tok_quiet [OF R aM ns ps _ tk])
    show "currentRound (proposer (nodes s a)) \<le> currentRound (proposer ?n')" using up by (simp add: p)
    fix j pc st'
    assume pcs: "procs s' a j = Some pc" "pending (proposer ?n') j = Some st'"
    show "unsent (tokens s') a j (ps_ballot st') pc \<or> carried s a j (ps_ballot st') pc {}"
    proof (cases "j = i")
      case True
      then have "pc = Phase1Own" "st' = st" using pcs p'(4) by (simp_all add: s')
      then show ?thesis using notok tk by (metis True le_zero_eq unsent.simps(1))
    next
      case False
      then have "carried s a j (ps_ballot st') pc {}" using pcs p'(4) by (intro carried_same) (simp_all add: s' p)
      then show ?thesis ..
    qed
  qed
  then show ?thesis
    using R_same [OF R ns ps n'] R_D(5) [OF R] up by (simp add: s' p)
qed

lemma propose_R:
  assumes R: "R saved logged ok M V \<sigma> s" and c: "careful S V s (EvPropose a v)" and e: "exec S M (EvPropose a v) s = Some s'"
  shows "R saved logged ok M V \<sigma> s'"
proof -
  let ?p = "proposer (nodes s a)"
  obtain st p' where bp: "begin_proposal v ?p = (st, p')" by fastforce
  with e have aM: "a \<in> M" and s': "s' = set_pc a (ps_instance st) (Some Phase1Own) (upd_node a ((nodes s a)\<lparr>proposer := p'\<rparr>) s)"
    by (auto simp: Let_def split: if_splits)
  from bp have "ps_ballot st = MakeBallot (currentRound ?p + 1) a" "responses st = []" "ps_value st = v"
      "prop_nodeID p' = prop_nodeID ?p" "quorumSize p' = quorumSize ?p" "currentRound p' = currentRound ?p + 1"
      "pending p' = (pending ?p)(ps_instance st \<mapsto> st)"
    using node_R_D(3) [OF R_D(4) [OF R aM]] by (auto simp: begin_proposal_def Let_def)
  then show ?thesis using begin_R [OF R aM refl _ _ _ _ _ _ _ _ s'] c by simp
qed

lemma elect_R:
  assumes R: "R saved logged ok M V \<sigma> s" and c: "careful S V s (EvElect a)" and e: "exec S M (EvElect a) s = Some s'"
  shows "R saved logged ok M V \<sigma> s'"
proof -
  let ?p = "proposer (nodes s a)"
  obtain st p' where bp: "begin_election ?p = (st, p')" by fastforce
  with e have aM: "a \<in> M" and s': "s' = set_pc a 0 (Some Phase1Own) (upd_node a ((nodes s a)\<lparr>proposer := p'\<rparr>) s)"
    by (auto simp: Let_def split: if_splits)
  from bp have "ps_ballot st = MakeBallot (currentRound ?p + 1) a" "responses st = []"
      "prop_nodeID p' = prop_nodeID ?p" "quorumSize p' = quorumSize ?p" "currentRound p' = currentRound ?p + 1"
      "pending p' = (pending ?p)(0 \<mapsto> st)"
    using node_R_D(3) [OF R_D(4) [OF R aM]] by (auto simp: begin_election_def Let_def)
  then show ?thesis using begin_R [OF R aM refl _ _ _ _ _ _ _ _ s'] c by simp
qed

section \<open>Votes of the proposer's own acceptor\<close>

lemma quorum_at_least_two: "2 \<le> card M \<Longrightarrow> 2 \<le> quorum_of_peers (card M - 1)"
  by (simp add: quorum_of_peers_def Let_def)

lemma node_R_pc:
  "node_R saved logged ok M V \<sigma> a n pr \<Longrightarrow> proc_ok M V \<sigma> (proposer n) i pc \<Longrightarrow> node_R saved logged ok M V \<sigma> a n (pr(i \<mapsto> pc))"
  by (auto simp: node_R_def)

lemma tok_own:
  assumes R: "R saved logged ok M V \<sigma> s" and aM: "a \<in> M"
    and pc: "procs s a i = Some pc0" "gathered (Some pc0) = []" "registered_pc pc0" and st: "pending (proposer (nodes s a)) i = Some st"
    and ns: "nodes s' = (nodes s)(a := n')" and p: "proposer n' = proposer (nodes s a)"
    and ps: "procs s' = (procs s)(a := (procs s a)(i \<mapsto> pc'))" and net: "net s' = net s"
    and vote: "gathered (Some pc') = [] \<or> (\<exists>m. gathered (Some pc') = [m] \<and> answer_token m = Some (ph, ps_ballot st, i, a))"
    and none: "tokens s (ph, ps_ballot st, i, a) = 0"
    and mine: "\<And>tk. (\<And>ph' x. (ph', x) \<noteq> (ph, a) \<Longrightarrow> tk (ph', ps_ballot st, i, x) \<le> tokens s (ph', ps_ballot st, i, x)) \<Longrightarrow>
      unsent tk a i (ps_ballot st) pc'"
  shows "tok_R M s'"
proof -
  let ?b = "ps_ballot st" and ?N = "{(ph, ps_ballot st, i, a)}"
  have b: "BallotNodeID ?b = a" "Round ?b \<le> currentRound (proposer (nodes s a))"
    by (rule R_proc [OF R aM pc(1) st pc(3)])+
  have psc: "\<And>c. c \<noteq> a \<Longrightarrow> procs s' c = procs s c" by (simp add: ps)
  have own: "own_tokens (proposer n') (procs s' a) k \<le> own_tokens (proposer (nodes s a)) (procs s a) k + (if k \<in> ?N then 1 else 0)" for k
  proof -
    obtain ph' c j x where k: "k = (ph', c, j, x)" by (metis prod_cases4)
    show ?thesis using vote pc(1,2) st by (cases "j = i") (auto simp: k p ps split: option.splits)
  qed
  have tk: "tokens s' k \<le> tokens s k + (if k \<in> ?N then 1 else 0)" for k
    by (rule tokens_le [OF ns psc, where d = 0 and e = "if k \<in> ?N then 1 else 0"]) (use own [of k] in \<open>simp_all add: net\<close>)
  show ?thesis
  proof (rule tok_update [OF R_D(7) [OF R] aM ns psc _ tk])
    show "currentRound (proposer (nodes s a)) \<le> currentRound (proposer n')" by (simp add: p)
    show "token_owner k = a \<and> tokens s k = 0 \<and> Round (fst (snd k)) \<le> currentRound (proposer n')" if "k \<in> ?N" for k
      using that b none by (simp add: token_owner_def p)
    show "\<not> registered_pc pc \<or> BallotNodeID (ps_ballot st) = c"
      if "c \<in> M" "procs s c j = Some pc" "pending (proposer (nodes s c)) j = Some st" for c j pc st
      by (rule R_own [OF R that])
    fix j pc st'
    assume pcs: "procs s' a j = Some pc" "pending (proposer n') j = Some st'"
    show "unsent (tokens s') a j (ps_ballot st') pc \<or> carried s a j (ps_ballot st') pc ?N"
    proof (cases "j = i")
      case True
      then have "pc = pc'" "st' = st" using pcs st by (simp_all add: ps p)
      moreover have "unsent (tokens s') a i ?b pc'"
      proof (rule mine)
        fix ph' x assume "(ph', x) \<noteq> (ph, a)"
        then show "tokens s' (ph', ?b, i, x) \<le> tokens s (ph', ?b, i, x)" using tk [of "(ph', ?b, i, x)"] by auto
      qed
      ultimately show ?thesis using True by simp
    next
      case False
      then have "carried s a j (ps_ballot st') pc ?N" using pcs by (intro carried_same) (simp_all add: ps p)
      then show ?thesis ..
    qed
  qed
qed

lemma proc_ok_step:
  assumes "proc_ok M V \<sigma> p i pc0" "pending p i = Some st" "registered_pc pc0"
    "pc_ok M V \<sigma> i (ps_ballot st) (ps_value st) pc0 \<Longrightarrow> pc_ok M V \<sigma> i (ps_ballot st) (ps_value st) pc"
  shows "proc_ok M V \<sigma> p i pc"
  using assms unfolding proc_ok_def by auto

lemma R_values: "R saved logged ok M V \<sigma> s \<Longrightarrow> \<forall>i b v. proposal (\<sigma> i) b = Some v \<longrightarrow> 0 < slice_len v"
  using R_D(6) unfolding fresh_R_def by blast

context storage_contract
begin

lemma own1_R:
  assumes R: "R saved logged inv M V \<sigma> s" and c: "careful S V s (EvOwn1 a i)" and e: "exec S M (EvOwn1 a i) s = Some s'"
  shows "\<exists>\<sigma>'. moves M a \<sigma> \<sigma>' \<and> R saved logged inv M V \<sigma>' s'"
proof -
  let ?n = "nodes s a"
  from e obtain st r acc sto where pc: "procs s a i = Some Phase1Own" and st: "pending (proposer ?n) i = Some st" and aM: "a \<in> M"
    and l: "phase1_local (Some S) (quorumSize (proposer ?n)) (ps_ballot st) i (acceptor ?n) (storage ?n) = (r, acc, sto)"
    and s': "s' = after_phase1 a i r Phase1Cast (upd_node a (?n\<lparr>acceptor := acc, storage := sto\<rparr>) s)"
    by (auto simp: Let_def split: option.splits pc.splits if_splits prod.splits)
  obtain m where h: "HandlePrepare (Some S) (ps_ballot st) i (acceptor ?n) (storage ?n) = (m, acc, sto)"
    using l by (auto simp: phase1_local_def split: prod.splits)
  note nR = R_D(4) [OF R aM]
  obtain \<sigma>' where mv: "moves M a \<sigma> \<sigma>'" and same: "same_proposals \<sigma> \<sigma>'" and mok: "msg_ok M \<sigma>' m"
    and n': "node_R saved logged inv M V \<sigma>' a (?n\<lparr>acceptor := acc, storage := sto\<rparr>) (procs s a)"
    using prepare_sim [OF nR aM R_D(3) [OF R] R_values [OF R] _ h] c by auto
  note le = moves_inv(2) [OF mv R_D(3) [OF R]]
  have q: "1 < quorumSize (proposer ?n)"
    using quorum_at_least_two [OF R_D(2) [OF R]] node_R_D(4) [OF nR] by simp
  define pc' where "pc' = (case r of Waiting ps \<Rightarrow> Phase1Cast ps | Return _ \<Rightarrow> Returning)"
  have mp: "r = Return (Inl ErrPreempted) \<or> r = Waiting [m] \<and> is_Promise m \<and> answer_token m = Some (Phase1, ps_ballot st, i, a)
      \<and> response_key m = Some (i, ps_ballot st)"
    using l
  proof (cases rule: phase1_local_cases)
    case (wait m')
    then show ?thesis using h node_R_D(2) [OF nR] by (auto elim: HandlePrepare_cases)
  qed (use q in auto)
  then have s'': "s' = set_pc a i (Some pc') (upd_node a (?n\<lparr>acceptor := acc, storage := sto\<rparr>) s)"
    by (auto simp: s' pc'_def after_phase1_def)
  have "proc_ok M V \<sigma>' (proposer ?n) i pc'"
    using node_R_D(8) [OF n' pc, simplified] st
    by (rule proc_ok_step) (use mp mok in \<open>auto simp: pc'_def votes_ok_def\<close>)
  then have n'': "node_R saved logged inv M V \<sigma>' a (?n\<lparr>acceptor := acc, storage := sto\<rparr>) (procs s' a)"
    using node_R_pc [OF n', of i pc'] by (simp add: s'')
  have un: "tokens s (ph, ps_ballot st, i, x) = 0" for ph x
    using tok_RD(4) [OF R_D(7) [OF R] aM pc st] by simp
  have "tok_R M s'"
  proof (rule tok_own [OF R aM pc _ _ st, where ph = Phase1 and pc' = pc' and n' = "?n\<lparr>acceptor := acc, storage := sto\<rparr>"])
    fix tk
    assume le: "\<And>ph' x. (ph', x) \<noteq> (Phase1, a) \<Longrightarrow> tk (ph', ps_ballot st, i, x) \<le> tokens s (ph', ps_ballot st, i, x)"
    have "tk (ph', ps_ballot st, i, x) = 0" if "(ph', x) \<noteq> (Phase1, a)" for ph' x
      using le [OF that] un [of ph' x] by simp
    then show "unsent tk a i (ps_ballot st) pc'" using mp by (auto simp: pc'_def)
  qed (use mp un in \<open>auto simp: s'' pc'_def\<close>)
  moreover have "fresh_R M V \<sigma>' (nodes s')" by (rule fresh_R_mono [OF R_D(6) [OF R] same]) (simp add: s'')
  ultimately have "R saved logged inv M V \<sigma>' s'"
    using R_update [OF R mv, of s'] n'' net_R_mono [OF le R_D(5) [OF R]] by (simp add: s'')
  with mv show ?thesis by blast
qed

lemma own2_R:
  assumes R: "R saved logged inv M V \<sigma> s" and c: "careful S V s (EvOwn2 a i)" and e: "exec S M (EvOwn2 a i) s = Some s'"
  shows "\<exists>\<sigma>'. moves M a \<sigma> \<sigma>' \<and> R saved logged inv M V \<sigma>' s'"
proof -
  let ?n = "nodes s a"
  from e obtain st r acc sto where pc: "procs s a i = Some Phase2Own" and st: "pending (proposer ?n) i = Some st" and aM: "a \<in> M"
    and l: "phase2_local (Some S) (quorumSize (proposer ?n)) (ps_ballot st) i (ps_value st) (acceptor ?n) (storage ?n) = (r, acc, sto)"
    and s': "s' = after_phase2 a i r Phase2Cast (upd_node a (?n\<lparr>acceptor := acc, storage := sto\<rparr>) s)"
    by (auto simp: Let_def split: option.splits pc.splits if_splits prod.splits)
  obtain m where h: "HandleAccept (Some S) (ps_ballot st) i (ps_value st) (acceptor ?n) (storage ?n) = (m, acc, sto)"
    using l by (auto simp: phase2_local_def split: prod.splits)
  note nR = R_D(4) [OF R aM]
  have prp: "proposal (\<sigma> i) (ps_ballot st) = Some (ps_value st)" using R_proc(4) [OF R aM pc st] by simp
  obtain \<sigma>' where mv: "moves M a \<sigma> \<sigma>'" and same: "same_proposals \<sigma> \<sigma>'" and mok: "msg_ok M \<sigma>' m"
    and n': "node_R saved logged inv M V \<sigma>' a (?n\<lparr>acceptor := acc, storage := sto\<rparr>) (procs s a)"
    using accept_sim [OF nR aM R_D(3) [OF R] prp _ h] c by auto
  note le = moves_inv(2) [OF mv R_D(3) [OF R]]
  have q: "1 < quorumSize (proposer ?n)"
    using quorum_at_least_two [OF R_D(2) [OF R]] node_R_D(4) [OF nR] by simp
  define pc' where "pc' = (case r of Waiting ps \<Rightarrow> Phase2Cast ps | Return _ \<Rightarrow> Returning)"
  have mp: "r = Return (Inl ErrPreempted) \<or> r = Waiting [m] \<and> is_Accepted m \<and> answer_token m = Some (Phase2, ps_ballot st, i, a)
      \<and> response_key m = Some (i, ps_ballot st)"
    using l
  proof (cases rule: phase2_local_cases)
    case (wait m')
    then show ?thesis using h node_R_D(2) [OF nR] by (auto elim: HandleAccept_cases)
  qed (use q in auto)
  then have s'': "s' = set_pc a i (Some pc') (upd_node a (?n\<lparr>acceptor := acc, storage := sto\<rparr>) s)"
    by (auto simp: s' pc'_def after_phase2_def)
  have "proc_ok M V \<sigma>' (proposer ?n) i pc'"
    using node_R_D(8) [OF n' pc, simplified] st
    by (rule proc_ok_step) (use mp mok in \<open>auto simp: pc'_def votes_ok_def\<close>)
  then have n'': "node_R saved logged inv M V \<sigma>' a (?n\<lparr>acceptor := acc, storage := sto\<rparr>) (procs s' a)"
    using node_R_pc [OF n', of i pc'] by (simp add: s'')
  have un: "tokens s (Phase2, ps_ballot st, i, x) = 0" for x
    using tok_RD(4) [OF R_D(7) [OF R] aM pc st] by simp
  have "tok_R M s'"
  proof (rule tok_own [OF R aM pc _ _ st, where ph = Phase2 and pc' = pc' and n' = "?n\<lparr>acceptor := acc, storage := sto\<rparr>"])
    fix tk
    assume le: "\<And>ph' x. (ph', x) \<noteq> (Phase2, a) \<Longrightarrow> tk (ph', ps_ballot st, i, x) \<le> tokens s (ph', ps_ballot st, i, x)"
    have "tk (ph', ps_ballot st, i, x) = 0" if "(ph', x) \<noteq> (Phase2, a)" "ph' = Phase2" for ph' x
      using le [OF that(1)] un [of x] that(2) by simp
    then show "unsent tk a i (ps_ballot st) pc'" using mp by (auto simp: pc'_def)
  qed (use mp un in \<open>auto simp: s'' pc'_def\<close>)
  moreover have "fresh_R M V \<sigma>' (nodes s')" by (rule fresh_R_mono [OF R_D(6) [OF R] same]) (simp add: s'')
  ultimately have "R saved logged inv M V \<sigma>' s'"
    using R_update [OF R mv, of s'] n'' net_R_mono [OF le R_D(5) [OF R]] by (simp add: s'')
  with mv show ?thesis by blast
qed

end

section \<open>Broadcasts\<close>

lemma cast_R:
  assumes R: "R saved logged ok M V \<sigma> s" and aM: "a \<in> M" and ds: "peers_ok M a ds"
    and pc: "procs s a i = Some pc0" "registered_pc pc0" and st: "pending (proposer (nodes s a)) i = Some st"
    and s': "s' = set_pc a i (Some pc') (send a ds m s)" and g: "gathered (Some pc') = gathered (Some pc0)"
    and m: "msg_ok M \<sigma> m" "\<And>k. net_tokens (packets a ds m) k \<le> (if k \<in> (\<lambda>d. (ph, ps_ballot st, i, d)) ` set ds then 1 else 0)"
    and ok: "pc_ok M V \<sigma> i (ps_ballot st) (ps_value st) pc0 \<Longrightarrow> pc_ok M V \<sigma> i (ps_ballot st) (ps_value st) pc'"
    and none: "\<And>d. d \<noteq> a \<Longrightarrow> tokens s (ph, ps_ballot st, i, d) = 0"
    and mine: "\<And>tk. (\<And>ph' x. ph' \<noteq> ph \<Longrightarrow> tk (ph', ps_ballot st, i, x) \<le> tokens s (ph', ps_ballot st, i, x)) \<Longrightarrow>
      unsent tk a i (ps_ballot st) pc'"
  shows "R saved logged ok M V \<sigma> s'"
proof -
  let ?b = "ps_ballot st" and ?n = "nodes s a"
  let ?N = "(\<lambda>d. (ph, ?b, i, d)) ` set ds"
  note nR = R_D(4) [OF R aM]
  have b: "BallotNodeID ?b = a" "Round ?b \<le> currentRound (proposer ?n)" by (rule R_proc [OF R aM pc(1) st pc(2)])+
  have ns: "nodes s' = (nodes s)(a := ?n)" and ps: "\<And>c. c \<noteq> a \<Longrightarrow> procs s' c = procs s c" by (simp_all add: s')
  have "proc_ok M V \<sigma> (proposer ?n) i pc'" using node_R_D(8) [OF nR pc(1)] st pc(2) ok by (rule proc_ok_step)
  then have n': "node_R saved logged ok M V \<sigma> a ?n (procs s' a)" using node_R_pc [OF nR] by (simp add: s')
  have own: "own_tokens (proposer ?n) (procs s' a) (ph', c, j, x) = own_tokens (proposer ?n) (procs s a) (ph', c, j, x)" for ph' c j x
    using g pc(1) by (cases "j = i") (simp_all add: s' split: option.splits)
  have tk: "tokens s' k \<le> tokens s k + (if k \<in> ?N then 1 else 0)" for k
  proof -
    obtain ph' c j x where k: "k = (ph', c, j, x)" by (metis prod_cases4)
    show ?thesis
      by (rule tokens_le [OF ns ps, where d = "if k \<in> ?N then 1 else 0" and e = 0])
         (use m(2) [of k] own in \<open>simp_all add: s' k\<close>)
  qed
  have "tok_R M s'"
  proof (rule tok_update [OF R_D(7) [OF R] aM ns ps _ tk])
    show "currentRound (proposer (nodes s a)) \<le> currentRound (proposer ?n)" by (rule order.refl)
    show "token_owner k = a \<and> tokens s k = 0 \<and> Round (fst (snd k)) \<le> currentRound (proposer ?n)" if "k \<in> ?N" for k
      using that b none ds by (auto simp: token_owner_def peers_ok_def)
    show "\<not> registered_pc pc \<or> BallotNodeID (ps_ballot st) = c"
      if "c \<in> M" "procs s c j = Some pc" "pending (proposer (nodes s c)) j = Some st" for c j pc st
      by (rule R_own [OF R that])
    fix j pc st'
    assume pcs: "procs s' a j = Some pc" "pending (proposer ?n) j = Some st'"
    show "unsent (tokens s') a j (ps_ballot st') pc \<or> carried s a j (ps_ballot st') pc ?N"
    proof (cases "j = i")
      case True
      then have "pc = pc'" "st' = st" using pcs st by (simp_all add: s')
      moreover have "unsent (tokens s') a i ?b pc'"
      proof (rule mine)
        fix ph' x assume "ph' \<noteq> ph"
        then show "tokens s' (ph', ?b, i, x) \<le> tokens s (ph', ?b, i, x)" using tk [of "(ph', ?b, i, x)"]
          by (auto simp: image_iff split: if_splits)
      qed
      ultimately show ?thesis using True by simp
    next
      case False
      then have "carried s a j (ps_ballot st') pc ?N" using pcs by (intro carried_same) (auto simp: s')
      then show ?thesis ..
    qed
  qed
  then show ?thesis using R_same [OF R ns ps n'] R_D(5) [OF R] net_R_packets [OF m(1)] by (simp add: s')
qed

lemma cast1_R:
  assumes R: "R saved logged ok M V \<sigma> s" and e: "exec S M (EvCast1 a i ds) s = Some s'"
  shows "R saved logged ok M V \<sigma> s'"
proof -
  from e obtain ps st where aM: "a \<in> M" and ds: "peers_ok M a ds" and pc: "procs s a i = Some (Phase1Cast ps)"
    and st: "pending (proposer (nodes s a)) i = Some st"
    and s': "s' = set_pc a i (Some (Phase1Wait ps)) (send a ds (Prepare (ps_ballot st) i) s)"
    by (auto split: option.splits pc.splits if_splits)
  have un: "tokens s (Phase1, ps_ballot st, i, x) = 0" if "x \<noteq> a" for x
    using tok_RD(4) [OF R_D(7) [OF R] aM pc st] that by simp
  have un2: "tokens s (Phase2, ps_ballot st, i, x) = 0" for x
    using tok_RD(4) [OF R_D(7) [OF R] aM pc st] by simp
  show ?thesis
  proof (rule cast_R [OF R aM ds pc _ st s', where ph = Phase1])
    fix tk assume "\<And>ph' x. ph' \<noteq> Phase1 \<Longrightarrow> tk (ph', ps_ballot st, i, x) \<le> tokens s (ph', ps_ballot st, i, x)"
    from this [of Phase2] show "unsent tk a i (ps_ballot st) (Phase1Wait ps)" using un2 by simp
  qed (use un ds request_tokens(1) in \<open>simp_all add: peers_ok_def\<close>)
qed

lemma cast2_R:
  assumes R: "R saved logged ok M V \<sigma> s" and e: "exec S M (EvCast2 a i ds) s = Some s'"
  shows "R saved logged ok M V \<sigma> s'"
proof -
  from e obtain ps st where aM: "a \<in> M" and ds: "peers_ok M a ds" and pc: "procs s a i = Some (Phase2Cast ps)"
    and st: "pending (proposer (nodes s a)) i = Some st"
    and s': "s' = set_pc a i (Some (Phase2Wait ps)) (send a ds (Accept (ps_ballot st) i (ps_value st)) s)"
    by (auto split: option.splits pc.splits if_splits)
  have un: "tokens s (Phase2, ps_ballot st, i, x) = 0" if "x \<noteq> a" for x
    using tok_RD(4) [OF R_D(7) [OF R] aM pc st] that by simp
  have "proposal (\<sigma> i) (ps_ballot st) = Some (ps_value st)" using R_proc(4) [OF R aM pc st] by simp
  with R_values [OF R] have "msg_ok M \<sigma> (Accept (ps_ballot st) i (ps_value st))" by simp
  then show ?thesis
    by (rule_tac cast_R [OF R aM ds pc _ st s', where ph = Phase2])
       (use un ds request_tokens(2) in \<open>simp_all add: peers_ok_def\<close>)
qed

end
