(* ===== verification/Cluster_Refinement.thy ===== *)
theory Cluster_Refinement
  imports Cluster_Events
begin

text \<open>
  Answers, commits, restarts and the delivery of messages keep the simulation relation, and so
  every careful run of a cluster refines the abstract specification.
\<close>

section \<open>Counting answers\<close>

lemma tok_recv:
  assumes R: "R saved logged ok M V \<sigma> s" and aM: "a \<in> M"
    and pc: "procs s a i = Some pc0" and st: "pending (proposer (nodes s a)) i = Some st" "responses st = m # responses st'"
      "ps_ballot st' = ps_ballot st"
    and ns: "nodes s' = (nodes s)(a := n')" and p: "pending (proposer n') = (pending (proposer (nodes s a)))(i \<mapsto> st')"
      "currentRound (proposer n') = currentRound (proposer (nodes s a))"
    and ps: "procs s' = (procs s)(a := (procs s a)(i \<mapsto> pc'))" and net: "net s' = net s"
    and g: "gathered (Some pc') \<in> {[], gathered (Some pc0), gathered (Some pc0) @ [m]}"
    and mine: "\<And>tk. unsent tk a i (ps_ballot st) pc0 \<Longrightarrow> unsent tk a i (ps_ballot st) pc'"
  shows "tok_R M s'"
proof -
  have psc: "\<And>c. c \<noteq> a \<Longrightarrow> procs s' c = procs s c" by (simp add: ps)
  have own: "own_tokens (proposer n') (procs s' a) (ph, c, j, x) \<le> own_tokens (proposer (nodes s a)) (procs s a) (ph, c, j, x)" for ph c j x
  proof (cases "j = i")
    case True
    then show ?thesis using g st pc by (auto simp: p ps)
  qed (simp add: p ps split: option.splits)
  have tk: "tokens s' k \<le> tokens s k" for k
  proof -
    obtain ph c j x where k: "k = (ph, c, j, x)" by (metis prod_cases4)
    show ?thesis using tokens_le [OF ns psc, of k 0 0 0] own [of ph c j x] by (simp add: k net)
  qed
  show ?thesis
  proof (rule tok_quiet [OF R aM ns psc _ tk])
    show "currentRound (proposer (nodes s a)) \<le> currentRound (proposer n')" using p(2) by simp
    fix j pc2 st2
    assume pcs: "procs s' a j = Some pc2" "pending (proposer n') j = Some st2"
    have "carried s a j (ps_ballot st2) pc2 {}"
    proof (cases "j = i")
      case True
      then show ?thesis using pcs pc st mine by (auto simp: carried_def ps p)
    next
      case False
      then show ?thesis using pcs by (intro carried_same) (simp_all add: ps p)
    qed
    then show "unsent (tokens s') a j (ps_ballot st2) pc2 \<or> carried s a j (ps_ballot st2) pc2 {}" ..
  qed
qed

text \<open>The counted votes come from different acceptors, so enough of them are a quorum.\<close>

lemma msg_tokens_count:
  assumes "\<forall>m \<in> set ms. answer_token m = Some (ph, b, i, m_FromNode m)"
  shows "msg_tokens ms (ph, b, i, x) = count (mset (map m_FromNode ms)) x"
  using assms by (induction ms) auto

lemma voters_majority:
  assumes R: "R saved logged ok M V \<sigma> s" and aM: "a \<in> M" and pc: "procs s a i = Some pc0" "registered_pc pc0"
    and st: "pending (proposer (nodes s a)) i = Some st" "responses st = m # ms"
    and votes: "\<forall>v \<in> set (gathered (Some pc0) @ [m]). answer_token v = Some (ph, ps_ballot st, i, m_FromNode v) \<and> m_FromNode v \<in> M"
    and q: "quorum_of_peers (card M - 1) \<le> length (gathered (Some pc0) @ [m])"
  shows "majority M (m_FromNode ` set (gathered (Some pc0) @ [m]))" "inj_on m_FromNode (set (gathered (Some pc0) @ [m]))"
proof -
  let ?L = "gathered (Some pc0) @ [m]" and ?b = "ps_ballot st"
  have b: "BallotNodeID ?b = a" by (rule R_proc(1) [OF R aM pc(1) st(1) pc(2)])
  have "count (mset (map m_FromNode ?L)) x \<le> 1" for x
  proof -
    have "msg_tokens ?L (ph, ?b, i, x) \<le> own_tokens (proposer (nodes s a)) (procs s a) (ph, ?b, i, x)"
      using st pc(1) by simp
    also have "\<dots> \<le> tokens s (ph, ?b, i, x)" by (simp add: tokens_def token_owner_def b)
    also have "\<dots> \<le> 1" by (rule tok_RD(1) [OF R_D(7) [OF R]])
    finally show ?thesis using msg_tokens_count [of ?L ph ?b i x] votes by simp
  qed
  then have d: "distinct (map m_FromNode ?L)"
    by (metis distinct_count_atmost_1 le_antisym less_one linorder_not_less mset_eq_setD count_greater_zero_iff in_multiset_in_set not_in_iff set_mset_mset)
  then show "inj_on m_FromNode (set ?L)" by (simp only: distinct_map)
  have "card (m_FromNode ` set ?L) = length ?L" using distinct_card [OF d] by (simp only: set_map length_map)
  then show "majority M (m_FromNode ` set ?L)"
    using q votes R_D(1) [OF R] by (auto simp: majority_def simp del: set_append length_append)
qed

lemma take_response_Some:
  assumes "take_response a i s = Some (m, s1)"
  obtains st ms where "pending (proposer (nodes s a)) i = Some st" "responses st = m # ms"
    "s1 = upd_node a ((nodes s a)\<lparr>proposer := (proposer (nodes s a))\<lparr>pending := (pending (proposer (nodes s a)))(i \<mapsto> st\<lparr>responses := ms\<rparr>)\<rparr>\<rparr>) s"
  using assms by (auto simp: take_response_def Let_def split: option.splits list.splits)

text \<open>A goroutine takes a message and goes on; its \<open>proposalState\<close> becomes \<open>st'\<close>.\<close>

lemma node_R_recv:
  assumes nR: "node_R saved logged ok M V \<sigma> a n pr" and st: "pending (proposer n) i = Some st" "responses st = m # responses st'"
      "ps_ballot st' = ps_ballot st"
    and p': "prop_nodeID p' = prop_nodeID (proposer n)" "quorumSize p' = quorumSize (proposer n)"
      "currentRound p' = currentRound (proposer n)" "pending p' = (pending (proposer n))(i \<mapsto> st')"
    and ok: "proc_ok M V \<sigma> p' i pc'"
  shows "node_R saved logged ok M V \<sigma> a (n\<lparr>proposer := p'\<rparr>) (pr(i \<mapsto> pc'))"
proof (rule node_R_proposer [OF nR])
  have "votes_ok M \<sigma> (\<lambda>_. True) i (ps_ballot st) (m # responses st')"
    using node_R_D(7) [OF nR] st unfolding queue_ok_def by metis
  then have "votes_ok M \<sigma> (\<lambda>_. True) i (ps_ballot st') (responses st')" using st(3) by (simp add: votes_ok_def)
  then show "queue_ok M \<sigma> (proposer (n\<lparr>proposer := p'\<rparr>))"
    using node_R_D(7) [OF nR] unfolding queue_ok_def by (simp add: p'(4))
  show "proc_ok M V \<sigma> (proposer (n\<lparr>proposer := p'\<rparr>)) j pc" if "(pr(i \<mapsto> pc')) j = Some pc" for j pc
  proof (cases "j = i")
    case True
    then show ?thesis using that ok by simp
  next
    case False
    then show ?thesis using that proc_ok_cong [OF node_R_D(8) [OF nR, of j pc], of p'] p' by simp
  qed
qed (use p' in \<open>simp_all add: same_data_def\<close>)

lemma recv_same_R:
  assumes R: "R saved logged ok M V \<sigma> s" and aM: "a \<in> M" and pc: "procs s a i = Some pc0" "registered_pc pc0"
    and st: "pending (proposer (nodes s a)) i = Some st" "responses st = m # ms"
    and s': "s' = set_pc a i (Some pc') (upd_node a ((nodes s a)\<lparr>proposer := (proposer (nodes s a))\<lparr>pending :=
      (pending (proposer (nodes s a)))(i \<mapsto> st\<lparr>responses := ms\<rparr>)\<rparr>\<rparr>) s)"
    and g: "gathered (Some pc') \<in> {[], gathered (Some pc0), gathered (Some pc0) @ [m]}"
    and mine: "\<And>tk. unsent tk a i (ps_ballot st) pc0 \<Longrightarrow> unsent tk a i (ps_ballot st) pc'"
    and ok: "pc_ok M V \<sigma> i (ps_ballot st) (ps_value st) pc0 \<Longrightarrow> pc_ok M V \<sigma> i (ps_ballot st) (ps_value st) pc'"
  shows "R saved logged ok M V \<sigma> s'"
proof -
  let ?n = "nodes s a" and ?st = "st\<lparr>responses := ms\<rparr>"
  let ?p = "(proposer ?n)\<lparr>pending := (pending (proposer ?n))(i \<mapsto> ?st)\<rparr>"
  note nR = R_D(4) [OF R aM]
  have "proc_ok M V \<sigma> ?p i pc'"
    using R_proc [OF R aM pc(1) st(1) pc(2)] ok node_R_D(3) [OF nR] by (auto simp: proc_ok_def)
  then have n': "node_R saved logged ok M V \<sigma> a (?n\<lparr>proposer := ?p\<rparr>) (procs s' a)"
    using node_R_recv [OF nR st(1), of m ?st ?p pc'] st(2) by (simp add: s')
  have "tok_R M s'"
    by (rule tok_recv [OF R aM pc(1) st(1), of m ?st s' "?n\<lparr>proposer := ?p\<rparr>" pc']) (use st g mine in \<open>simp_all add: s'\<close>)
  then show ?thesis
    using R_same [OF R, of s' a "?n\<lparr>proposer := ?p\<rparr>"] n' R_D(5) [OF R] by (simp add: s')
qed

text \<open>The promises of a quorum determine the value as the specification demands.\<close>

lemma picks_promises:
  assumes inj: "inj_on m_FromNode (set L)" and L: "votes_ok M \<sigma> is_Promise i b L"
  shows "\<exists>lv. (\<forall>x \<in> m_FromNode ` set L. (b, x, lv x) \<in> proms (\<sigma> i))
    \<and> picks (m_FromNode ` set L) lv (value_to_propose (findHighestAccepted L) v)"
proof -
  define lv where "lv x = report_of (m_AcceptedBallot (inv_into (set L) m_FromNode x)) (m_AcceptedValue (inv_into (set L) m_FromNode x))" for x
  have lv: "lv (m_FromNode m) = report_of (m_AcceptedBallot m) (m_AcceptedValue m)" if "m \<in> set L" for m
    by (simp add: lv_def inv_into_f_f [OF inj that])
  have pr: "(b, m_FromNode m, lv (m_FromNode m)) \<in> proms (\<sigma> i)
      \<and> (if m_AcceptedBallot m = 0 then m_AcceptedValue m = None else 0 < slice_len (m_AcceptedValue m))" if "m \<in> set L" for m
  proof -
    have "is_Promise m" "response_key m = Some (i, b)" "msg_ok M \<sigma> m" using L that by (auto simp: votes_ok_def)
    then show ?thesis using lv [OF that] by (cases m) auto
  qed
  have "picks (m_FromNode ` set L) lv (value_to_propose (findHighestAccepted L) v)"
  proof (cases rule: findHighestAccepted_cases [of L])
    case none
    then show ?thesis using lv by (auto simp: picks_def report_of_def)
  next
    case (some m)
    then have "m_AcceptedValue m \<noteq> None" using pr [OF some(1)] by (cases "m_AcceptedValue m") (auto split: if_splits)
    then have v: "value_to_propose (findHighestAccepted L) v = m_AcceptedValue m" by (simp add: value_to_propose_def some(4))
    have "lv (m_FromNode m) = Some (m_AcceptedBallot m, m_AcceptedValue m)" using lv [OF some(1)] some(2) by (auto simp: report_of_def)
    moreover have "m' \<le> m_AcceptedBallot m" if "x \<in> set L" "lv (m_FromNode x) = Some (m', v')" for x m' v'
      using that some(3) lv [OF that(1)] by (auto simp: report_of_def split: if_splits)
    ultimately show ?thesis unfolding picks_def v using some(1) by blast
  qed
  with pr show ?thesis by blast
qed

lemma picks_value:
  assumes "picks Q lv w" "\<forall>x \<in> Q. (b, x, lv x) \<in> proms p" "spec_inv (majority M) p"
  shows "(\<forall>x \<in> Q. lv x = None) \<or> (\<exists>m. proposal p m = Some w)"
  using assms(1)
  unfolding picks_def
proof
  assume "\<exists>a \<in> Q. \<exists>m. lv a = Some (m, w) \<and> (\<forall>a' \<in> Q. \<forall>m' v'. lv a' = Some (m', v') \<longrightarrow> m' \<le> m)"
  then obtain a m where "a \<in> Q" "lv a = Some (m, w)" by blast
  with assms(2) have "promise_ok p b a (Some (m, w))" using spec_invD(4) [OF assms(3)] by metis
  then show ?thesis by (auto simp: promise_ok_def)
qed blast

lemma promise_answers:
  "votes_ok M \<sigma> is_Promise i b L \<Longrightarrow> m \<in> set L \<Longrightarrow> answer_token m = Some (Phase1, b, i, m_FromNode m) \<and> m_FromNode m \<in> M"
  by (cases m) (auto simp: votes_ok_def)

lemma accepted_answers:
  "votes_ok M \<sigma> is_Accepted i b L \<Longrightarrow> m \<in> set L \<Longrightarrow> answer_token m = Some (Phase2, b, i, m_FromNode m)
     \<and> m_FromNode m \<in> M \<and> votes (\<sigma> i) (m_FromNode m) b \<noteq> None"
  by (cases m) (auto simp: votes_ok_def)

lemma queued_ok:
  assumes "node_R saved logged ok M V \<sigma> a n pr" "pending (proposer n) i = Some st" "responses st = m # ms"
  shows "response_key m = Some (i, ps_ballot st)" "msg_ok M \<sigma> m"
  using node_R_D(7) [OF assms(1)] assms(2,3) unfolding queue_ok_def votes_ok_def by fastforce+

text \<open>Phase 1 of a proposal succeeds: the specification proposes the value.\<close>

lemma phase1_won_R:
  assumes R: "R saved logged ok M V \<sigma> s" and aM: "a \<in> M" and pc: "procs s a i = Some (Phase1Wait ps)" and i: "i \<noteq> 0"
    and st: "pending (proposer (nodes s a)) i = Some st" "responses st = m # ms" and m: "is_Promise m"
    and q: "quorum_of_peers (card M - 1) \<le> length (ps @ [m])"
    and w: "w = value_to_propose (findHighestAccepted (ps @ [m])) (ps_value st)"
    and s': "s' = set_pc a i (Some Phase2Own) (upd_node a ((nodes s a)\<lparr>proposer := (proposer (nodes s a))\<lparr>pending :=
      (pending (proposer (nodes s a)))(i \<mapsto> st\<lparr>responses := ms, ps_value := w\<rparr>)\<rparr>\<rparr>) s)"
  shows "\<exists>\<sigma>'. moves M a \<sigma> \<sigma>' \<and> R saved logged ok M V \<sigma>' s'"
proof -
  let ?n = "nodes s a" and ?st = "st\<lparr>responses := ms, ps_value := w\<rparr>" and ?b = "ps_ballot st" and ?L = "ps @ [m]"
  let ?p = "(proposer ?n)\<lparr>pending := (pending (proposer ?n))(i \<mapsto> ?st)\<rparr>"
  let ?Q = "m_FromNode ` set ?L"
  note nR = R_D(4) [OF R aM]
  note own = R_proc [OF R aM pc st(1), simplified]
  from own(4) have none: "proposal (\<sigma> i) ?b = None" and v: "ps_value st \<in> V" "0 < slice_len (ps_value st)" using i by simp_all
  have L: "votes_ok M \<sigma> is_Promise i ?b ?L"
    using own(4) queued_ok [OF nR st] m by (simp add: votes_ok_def)
  have "majority M ?Q" and inj: "inj_on m_FromNode (set ?L)"
    using voters_majority [OF R aM pc _ st, of Phase1] promise_answers [OF L] q by simp_all
  obtain lv where lv: "\<forall>x \<in> ?Q. (?b, x, lv x) \<in> proms (\<sigma> i)" "picks ?Q lv w"
    using picks_promises [OF inj L] unfolding w by blast
  define p where "p = (\<sigma> i)\<lparr>proposal := (proposal (\<sigma> i))(?b \<mapsto> w)\<rparr>"
  have "spec_step (majority M) (\<sigma> i) p"
    unfolding p_def by (rule spec_step.propose [where Q = ?Q and lv = lv]) (use none own(3) \<open>majority M ?Q\<close> lv in blast)+
  then have mv: "moves M a \<sigma> (\<sigma>(i := p))" by (rule moves.move) (use own(1) in \<open>auto simp: p_def\<close>)
  note le = moves_inv(2) [OF mv R_D(3) [OF R]]
  have wok: "w \<in> V \<and> 0 < slice_len w"
  proof (cases rule: findHighestAccepted_cases [of ?L])
    case none
    then show ?thesis using v by (simp add: w value_to_propose_def)
  next
    case (some x)
    have "is_Promise x" "response_key x = Some (i, ?b)" "msg_ok M \<sigma> x" using L some(1) unfolding votes_ok_def by blast+
    then have "promise_ok (\<sigma> i) ?b (m_FromNode x) (Some (m_AcceptedBallot x, m_AcceptedValue x))"
      and "0 < slice_len (m_AcceptedValue x)"
      using some(2) spec_invD(4) [OF R_D(3) [OF R], of ?b _ _ i] by (cases x; auto simp: report_of_def split: if_splits)+
    moreover from this have "w = m_AcceptedValue x" using some(4) by (auto simp: w value_to_propose_def)
    ultimately show ?thesis using R_D(6) [OF R] by (auto simp: promise_ok_def fresh_R_def)
  qed
  have rounds: "currentRound (proposer (nodes s' x)) = currentRound (proposer (nodes s x))" for x by (simp add: s')
  have other: "proposal ((\<sigma>(i := p)) j) c = proposal (\<sigma> j) c" if "(j, c) \<noteq> (i, ?b)" for j c
    using that by (auto simp: p_def)
  have "data_ok saved logged ok M (\<sigma>(i := p)) a ?n"
    using node_R_D(6) [OF nR] learned_mono [OF le] unfolding data_ok_def acc_rel_def by (auto simp: p_def)
  moreover have "proc_ok M V (\<sigma>(i := p)) (proposer ?n) j pc" if "((procs s a)(i := None)) j = Some pc" for j pc
    using proc_ok_mono [OF le _ node_R_D(8) [OF nR, of j pc]] other that by (auto split: if_splits)
  ultimately have "node_R saved logged ok M V (\<sigma>(i := p)) a ?n ((procs s a)(i := None))"
    using node_R_D(5) [OF nR] queue_ok_mono [OF le node_R_D(7) [OF nR]] by (simp add: node_R_def)
  moreover have "proc_ok M V (\<sigma>(i := p)) ?p i Phase2Own"
    using own node_R_D(3) [OF nR] by (simp add: proc_ok_def p_def)
  ultimately have "node_R saved logged ok M V (\<sigma>(i := p)) a (?n\<lparr>proposer := ?p\<rparr>) (procs s' a)"
    using node_R_recv [of saved logged ok M V "\<sigma>(i := p)" a ?n "(procs s a)(i := None)" i st m ?st ?p Phase2Own] st by (simp add: s')
  moreover have "tok_R M s'"
    by (rule tok_recv [OF R aM pc st(1), of m ?st s' "?n\<lparr>proposer := ?p\<rparr>" Phase2Own]) (use st in \<open>simp_all add: s'\<close>)
  moreover have "fresh_R M V (\<sigma>(i := p)) (nodes s')"
      using R_D(6) [OF R] own(1,2) aM wok unfolding fresh_R_def rounds p_def by auto
  ultimately have "R saved logged ok M V (\<sigma>(i := p)) s'"
    using R_update [OF R mv, of s' "?n\<lparr>proposer := ?p\<rparr>"] net_R_mono [OF le R_D(5) [OF R]] by (simp add: s')
  with mv show ?thesis by blast
qed

lemma recv1_R:
  assumes R: "R saved logged ok M V \<sigma> s" and e: "exec S M (EvRecv1 a i) s = Some s'"
  shows "\<exists>\<sigma>'. moves M a \<sigma> \<sigma>' \<and> R saved logged ok M V \<sigma>' s'"
proof -
  from e obtain ps m s1 where aM: "a \<in> M" and pc: "procs s a i = Some (Phase1Wait ps)" and t: "take_response a i s = Some (m, s1)"
    and s': "s' = after_phase1 a i (phase1_recv (quorumSize (proposer (nodes s a))) ps m) Phase1Wait s1"
    by (auto split: option.splits pc.splits if_splits)
  from t obtain st ms where st: "pending (proposer (nodes s a)) i = Some st" "responses st = m # ms"
    and s1: "s1 = upd_node a ((nodes s a)\<lparr>proposer := (proposer (nodes s a))\<lparr>pending :=
      (pending (proposer (nodes s a)))(i \<mapsto> st\<lparr>responses := ms\<rparr>)\<rparr>\<rparr>) s"
    by (rule take_response_Some)
  note nR = R_D(4) [OF R aM]
  let ?r = "phase1_recv (quorumSize (proposer (nodes s a))) ps m"
  have same: ?thesis if "s' = set_pc a i (Some pc') s1" "pc' \<in> {Phase1Wait ps, Returning, ElectionWon} \<or> pc' = Phase1Wait (ps @ [m]) \<and> is_Promise m" for pc'
  proof -
    have "R saved logged ok M V \<sigma> s'"
      by (rule recv_same_R [OF R aM pc _ st, of s' pc']) (use that s1 queued_ok [OF nR st] in \<open>auto simp: votes_ok_def\<close>)
    then show ?thesis by (blast intro: moves.stay)
  qed
  show ?thesis
  proof (cases "is_Promise m \<and> quorum_of_peers (card M - 1) \<le> length (ps @ [m]) \<and> i \<noteq> 0")
    case True
    then have "?r = Return (Inr (findHighestAccepted (ps @ [m])))"
      using node_R_D(4) [OF nR] by (cases m) (simp_all add: phase1_recv_def)
    then have "s' = set_pc a i (Some Phase2Own) (upd_node a ((nodes s a)\<lparr>proposer := (proposer (nodes s a))\<lparr>pending :=
      (pending (proposer (nodes s a)))(i \<mapsto> st\<lparr>responses := ms,
         ps_value := value_to_propose (findHighestAccepted (ps @ [m])) (ps_value st)\<rparr>)\<rparr>\<rparr>) s)"
      using True by (simp add: s' s1 after_phase1_def Let_def upd_node_def)
    then show ?thesis using True by (intro phase1_won_R [OF R aM pc _ st _ _ refl]) simp_all
  next
    case False
    then show ?thesis using node_R_D(4) [OF nR] same
      by (cases m) (auto simp: s' phase1_recv_def after_phase1_def Let_def split: if_splits)
  qed
qed

lemma chosen_if_voted:
  assumes "spec_inv (majority M) p" "proposal p b = Some v" "majority M Q" "\<And>x. x \<in> Q \<Longrightarrow> votes p x b \<noteq> None"
  shows "chosen (majority M) p b v"
proof -
  have "votes p x b = Some v" if "x \<in> Q" for x
    using assms(4) [OF that] spec_invD(1) [OF assms(1)] assms(2) by fastforce
  with assms(3) show ?thesis unfolding chosen_def by blast
qed

lemma recv2_R:
  assumes R: "R saved logged ok M V \<sigma> s" and e: "exec S M (EvRecv2 a i) s = Some s'"
  shows "R saved logged ok M V \<sigma> s'"
proof -
  from e obtain ps m s1 where aM: "a \<in> M" and pc: "procs s a i = Some (Phase2Wait ps)" and t: "take_response a i s = Some (m, s1)"
    and s': "s' = after_phase2 a i (phase2_recv (quorumSize (proposer (nodes s a))) ps m) Phase2Wait s1"
    by (auto split: option.splits pc.splits if_splits)
  from t obtain st ms where st: "pending (proposer (nodes s a)) i = Some st" "responses st = m # ms"
    and s1: "s1 = upd_node a ((nodes s a)\<lparr>proposer := (proposer (nodes s a))\<lparr>pending :=
      (pending (proposer (nodes s a)))(i \<mapsto> st\<lparr>responses := ms\<rparr>)\<rparr>\<rparr>) s"
    by (rule take_response_Some)
  note nR = R_D(4) [OF R aM]
  let ?L = "ps @ [m]" and ?b = "ps_ballot st"
  have ok: "proposal (\<sigma> i) ?b = Some (ps_value st)" "votes_ok M \<sigma> is_Accepted i ?b ps"
    using R_proc(4) [OF R aM pc st(1)] by simp_all
  define pc' where "pc' = (case phase2_recv (quorumSize (proposer (nodes s a))) ps m of
    Waiting ps \<Rightarrow> Phase2Wait ps | Return (Inl e) \<Rightarrow> Returning | Return (Inr _) \<Rightarrow> CommitOwn)"
  have "pc' \<in> {Phase2Wait ps, Returning} \<or> pc' = Phase2Wait ?L \<and> is_Accepted m
      \<or> pc' = CommitOwn \<and> is_Accepted m \<and> quorum_of_peers (card M - 1) \<le> length ?L"
    using node_R_D(4) [OF nR] by (cases m) (auto simp: pc'_def phase2_recv_def Let_def)
  moreover have "chosen (majority M) (\<sigma> i) ?b (ps_value st)" if "is_Accepted m" "quorum_of_peers (card M - 1) \<le> length ?L"
  proof -
    have L: "votes_ok M \<sigma> is_Accepted i ?b ?L" using ok(2) queued_ok [OF nR st] that(1) by (simp add: votes_ok_def)
    have "majority M (m_FromNode ` set ?L)"
      using voters_majority(1) [OF R aM pc _ st, of Phase2] accepted_answers [OF L] that(2) by simp
    then show ?thesis using accepted_answers [OF L] by (intro chosen_if_voted [OF R_D(3) [OF R] ok(1)]) auto
  qed
  ultimately show ?thesis
    by (intro recv_same_R [OF R aM pc _ st, of s' pc'])
       (use R_values [OF R] queued_ok [OF nR st] ok in \<open>auto simp: s' s1 pc'_def after_phase2_def votes_ok_def\<close>)
qed

section \<open>Requests and commits\<close>

text \<open>Events that change the data of one node but not its proposer, and send at most the vote
  that a removed request stood for.\<close>

lemma R_data:
  assumes R: "R saved logged ok M V \<sigma> s" and aM: "a \<in> M" and mv: "moves M a \<sigma> \<sigma>'" and same: "same_proposals \<sigma> \<sigma>'"
    and ns: "nodes s' = (nodes s)(a := n')" and ps: "\<And>c. c \<noteq> a \<Longrightarrow> procs s' c = procs s c"
    and p: "proposer n' = proposer (nodes s a)" and pr: "\<And>i. procs s' a i \<in> {procs s a i, Some CommitCast}"
    and n': "node_R saved logged ok M V \<sigma>' a n' (procs s' a)"
    and net: "net_R M \<sigma>' (net s')" and nt: "\<And>k. net_tokens (net s') k \<le> net_tokens (net s) k"
  shows "R saved logged ok M V \<sigma>' s'"
proof -
  have own: "own_tokens (proposer n') (procs s' a) (ph, b, i, x) \<le> own_tokens (proposer (nodes s a)) (procs s a) (ph, b, i, x)" for ph b i x
    by (rule own_tokens_le) (use pr [of i] p in auto)
  have tk: "tokens s' k \<le> tokens s k" for k
  proof -
    obtain ph b i x where k: "k = (ph, b, i, x)" by (metis prod_cases4)
    show ?thesis using tokens_le [OF ns ps, of k 0 0 0] nt own [of ph b i x] by (simp add: k)
  qed
  have "tok_R M s'"
  proof (rule tok_quiet [OF R aM ns ps _ tk])
    show "currentRound (proposer (nodes s a)) \<le> currentRound (proposer n')" by (simp add: p)
    fix i pc st
    assume pcs: "procs s' a i = Some pc" "pending (proposer n') i = Some st"
    show "unsent (tokens s') a i (ps_ballot st) pc \<or> carried s a i (ps_ballot st) pc {}"
    proof (cases "pc = CommitCast")
      case False
      with pr [of i] pcs p have "carried s a i (ps_ballot st) pc {}" by (intro carried_same) auto
      then show ?thesis ..
    qed simp
  qed
  moreover have "fresh_R M V \<sigma>' (nodes s')" by (rule fresh_R_mono [OF R_D(6) [OF R] same]) (simp add: ns p)
  ultimately show ?thesis using R_update [OF R mv ns ps n' net] by simp
qed

context storage_contract
begin

lemma commit_node_R:
  assumes nR: "node_R saved logged inv M V \<sigma> a n pr" and ch: "chosen (majority M) (\<sigma> i) b v" "0 < slice_len v"
  shows "node_R saved logged inv M V \<sigma> a (handleCommit S b i v n) pr"
proof (cases "committed n i = None")
  case False
  then show ?thesis using nR by simp
next
  case True
  let ?n' = "handleCommit S b i v n" and ?e = "\<lparr>le_Instance = i, le_Ballot = b, le_Value = v\<rparr>"
  have l: "learned M (\<sigma> i) v" using ch by (auto simp: learned_def)
  have d: "data_ok saved logged inv M \<sigma> a n" by (rule node_R_D(6) [OF nR])
  then have inv: "inv (storage n)" by (simp add: data_ok_def node_stored_def)
  have "logged (storage ?n') j = Some e \<Longrightarrow> learned M (\<sigma> j) (le_Value e)" for j e
  proof -
    assume e: "logged (storage ?n') j = Some e"
    obtain r sto where a: "AppendLog S (storage n) ?e = (r, sto)" by fastforce
    show ?thesis
    proof (cases r)
      case None
      with append_ok [OF inv, of ?e sto] a e d l ch(2) show ?thesis
        by (auto simp: handleCommit_new True data_ok_def slice_copy_id split: if_splits)
    next
      case (Some x)
      with append_err [OF inv, of ?e x sto] a e d show ?thesis by (auto simp: handleCommit_new True data_ok_def)
    qed
  qed
  moreover have "acc_rel (acceptor ?n') j (\<sigma> j) a" if "committed ?n' j = None" for j
    using that d by (auto simp: handleCommit_new True data_ok_def acc_rel_def ForgetInstance_def GetPromised_def go_get_def go_delete_apply split: if_splits)
  ultimately have "data_ok saved logged inv M \<sigma> a ?n'"
    using d l node_stored_commit [of n b i v] append_saved [OF inv]
    by (auto simp: handleCommit_new True data_ok_def split: if_splits)
  moreover have "node_ids M a ?n'"
    using node_R_D(5) [OF nR] by (auto simp: node_ids_def handleCommit_new True ForgetInstance_def)
  ultimately show ?thesis using nR by (simp add: node_R_def)
qed

lemma commitOwn_R:
  assumes R: "R saved logged inv M V \<sigma> s" and e: "exec S M (EvCommitOwn a i) s = Some s'"
  shows "R saved logged inv M V \<sigma> s'"
proof -
  from e obtain st where aM: "a \<in> M" and pc: "procs s a i = Some CommitOwn" and st: "pending (proposer (nodes s a)) i = Some st"
    and s': "s' = set_pc a i (Some CommitCast) (upd_node a (handleCommit S (ps_ballot st) i (ps_value st) (nodes s a)) s)"
    by (auto split: option.splits pc.splits if_splits)
  note nR = R_D(4) [OF R aM]
  let ?n' = "handleCommit S (ps_ballot st) i (ps_value st) (nodes s a)"
  have ch: "chosen (majority M) (\<sigma> i) (ps_ballot st) (ps_value st)" "0 < slice_len (ps_value st)"
    using R_proc(4) [OF R aM pc st] by simp_all
  have "proc_ok M V \<sigma> (proposer (nodes s a)) i CommitCast"
    using node_R_D(8) [OF nR pc] st by (rule proc_ok_step) (use ch in simp_all)
  then have "node_R saved logged inv M V \<sigma> a ?n' (procs s' a)"
    using node_R_pc [OF commit_node_R [OF nR ch]] by (simp add: s')
  then show ?thesis
    by (intro R_data [OF R aM moves.stay same_proposals_refl, of s' ?n']) (use R_D(5) [OF R] in \<open>auto simp: s'\<close>)
qed

end

section \<open>Delivery\<close>

lemma net_R_in: "net_R M \<sigma> ps \<Longrightarrow> (f, t, m) \<in> set ps \<Longrightarrow> msg_ok M \<sigma> m"
  unfolding net_R_def by blast

text \<open>An answer replaces the request it answers.\<close>

lemma answer_packets:
  assumes "length ds \<le> 1" "answer_token r = None \<or> answer_token r = Some kt" "\<not> is_Prepare r" "\<not> is_Accept r" "wire r = r"
  shows "net_tokens (packets a ds r) k \<le> (if k = kt then 1 else 0)"
proof -
  have t: "token (x, y, r) = answer_token r" for x y using assms(3,4) by (cases r) simp_all
  consider "ds = []" | d where "ds = [d]" using assms(1) by (cases ds) auto
  then show ?thesis
    by cases (use assms(2,5) in \<open>auto simp: packets_def transmit_iff net_tokens_def t\<close>)
qed

lemma answer_R:
  assumes R: "R saved logged ok M V \<sigma> s" and aM: "a \<in> M" and mv: "moves M a \<sigma> \<sigma>'" and same: "same_proposals \<sigma> \<sigma>'"
    and pkt: "pkt \<in> set (net s)" "token pkt = Some kt"
    and r: "msg_ok M \<sigma>' r" "answer_token r = None \<or> answer_token r = Some kt" "\<not> is_Prepare r" "\<not> is_Accept r" and ds: "length ds \<le> 1"
    and n': "node_R saved logged ok M V \<sigma>' a n' (procs s a)" and p: "proposer n' = proposer (nodes s a)"
    and s': "s' = send a ds r (upd_node a n' (s\<lparr>net := remove1 pkt (net s)\<rparr>))"
  shows "R saved logged ok M V \<sigma>' s'"
proof (rule R_data [OF R aM mv same, of s' n'])
  note le = moves_inv(2) [OF mv R_D(3) [OF R]]
  show "net_R M \<sigma>' (net s')"
    using net_R_packets [OF r(1)] net_R_remove [OF net_R_mono [OF le R_D(5) [OF R]]] by (simp add: s')
  show "net_tokens (net s') k \<le> net_tokens (net s) k" for k
    using net_tokens_remove [OF pkt(1), of k] answer_packets [OF ds r(2-4) msg_ok_wire [OF r(1)], of a k] pkt(2)
    by (cases "k = kt") (simp_all add: s')
qed (use n' p in \<open>simp_all add: s'\<close>)

text \<open>A response goes to the queue of its proposal, or nowhere.\<close>

lemma HandleResponse_cases:
  obtains (ignored) "HandleResponse m p = p"
  | (queued) i b st where "response_key m = Some (i, b)" "pending p i = Some st" "ps_ballot st = b"
      "HandleResponse m p = p\<lparr>pending := (pending p)(i \<mapsto> st\<lparr>responses := responses st @ [m]\<rparr>)\<rparr>"
proof (cases "HandleResponse m p = p")
  case False
  then obtain i b where k: "response_key m = Some (i, b)" by (cases "response_key m") (auto simp: HandleResponse_def)
  with False obtain st where st: "pending p i = Some st" by (cases "pending p i") (auto simp: HandleResponse_def)
  with False k have "ps_ballot st = b" by (auto simp: HandleResponse_def split: if_splits)
  with False k st show thesis by (intro queued) (auto simp: HandleResponse_def split: if_splits)
qed

lemma response_R:
  assumes R: "R saved logged ok M V \<sigma> s" and aM: "a \<in> M" and pkt: "(f, a, m) \<in> set (net s)" and m: "response_key m \<noteq> None"
    and s': "s' = upd_node a ((nodes s a)\<lparr>proposer := HandleResponse m (proposer (nodes s a))\<rparr>) (s\<lparr>net := remove1 (f, a, m) (net s)\<rparr>)"
  shows "R saved logged ok M V \<sigma> s'"
proof (cases rule: HandleResponse_cases [of m "proposer (nodes s a)"])
  case ignored
  show ?thesis
    by (rule R_internal [OF R aM, of s' "nodes s a"])
       (use ignored net_R_remove [OF R_D(5) [OF R]] net_tokens_remove [OF pkt] in \<open>simp_all add: s'\<close>)
next
  case (queued i b st)
  let ?n = "nodes s a" and ?st = "st\<lparr>responses := responses st @ [m]\<rparr>" and ?pkt = "(f, a, m)"
  let ?p = "(proposer ?n)\<lparr>pending := (pending (proposer ?n))(i \<mapsto> ?st)\<rparr>"
  let ?n' = "?n\<lparr>proposer := ?p\<rparr>"
  note nR = R_D(4) [OF R aM]
  have mok: "msg_ok M \<sigma> m" by (rule net_R_in [OF R_D(5) [OF R] pkt])
  have t: "token ?pkt = answer_token m" using m by (cases m) simp_all
  have ns: "nodes s' = (nodes s)(a := ?n')" and ps: "\<And>c. c \<noteq> a \<Longrightarrow> procs s' c = procs s c"
    using queued(4) by (simp_all add: s')
  have q: "queue_ok M \<sigma> ?p"
    using node_R_D(7) [OF nR] queued mok unfolding queue_ok_def by (auto simp: votes_ok_def)
  have pk: "proc_ok M V \<sigma> ?p j pc" if "procs s a j = Some pc" for j pc
    using node_R_D(8) [OF nR that] queued(2) by (auto simp: proc_ok_def)
  have n': "node_R saved logged ok M V \<sigma> a ?n' (procs s' a)"
    by (rule node_R_proposer [OF nR]) (use q pk in \<open>simp_all add: same_data_def s'\<close>)
  have own: "own_tokens ?p (procs s' a) k \<le> own_tokens (proposer ?n) (procs s a) k + (if answer_token m = Some k then 1 else 0)" for k
  proof -
    obtain ph c j x where k: "k = (ph, c, j, x)" by (metis prod_cases4)
    show ?thesis using queued(2) by (cases "j = i") (auto simp: k s' split: option.splits)
  qed
  have tk: "tokens s' k \<le> tokens s k" for k
    using net_tokens_remove [OF pkt, of k] own [of k] t ns by (cases "token_owner k = a") (auto simp: tokens_def s')
  have "tok_R M s'"
  proof (rule tok_quiet [OF R aM ns ps _ tk])
    show "currentRound (proposer (nodes s a)) \<le> currentRound (proposer ?n')" by simp
    fix j pc st'
    assume pcs: "procs s' a j = Some pc" "pending (proposer ?n') j = Some st'"
    have "carried s a j (ps_ballot st') pc {}"
      using pcs queued(2) by (cases "j = i") (auto simp: s' intro!: carried_same)
    then show "unsent (tokens s') a j (ps_ballot st') pc \<or> carried s a j (ps_ballot st') pc {}" ..
  qed
  then show ?thesis using R_same [OF R ns ps n'] net_R_remove [OF R_D(5) [OF R]] by (simp add: s')
qed

context storage_contract
begin

lemma deliver_R:
  assumes R: "R saved logged inv M V \<sigma> s" and c: "careful S V s (EvDeliver (f, a, m) now rnd up)"
    and e: "exec S M (EvDeliver (f, a, m) now rnd up) s = Some s'"
  shows "\<exists>\<sigma>'. moves M a \<sigma> \<sigma>' \<and> R saved logged inv M V \<sigma>' s'"
proof -
  let ?n = "nodes s a" and ?s = "s\<lparr>net := remove1 (f, a, m) (net s)\<rparr>"
  from e obtain n' out where aM: "a \<in> M" and pkt: "(f, a, m) \<in> set (net s)"
    and h: "handleMessage S now rnd f m ?n = Some (n', out)"
    and s': "s' = fold (\<lambda>(d, r). send a (if up then [d] else []) r) out (upd_node a n' ?s)"
    by (auto split: if_splits)
  note nR = R_D(4) [OF R aM] and net = net_R_remove [OF R_D(5) [OF R], of "(f, a, m)"]
  have mok: "msg_ok M \<sigma> m" by (rule net_R_in [OF R_D(5) [OF R] pkt])
  have quiet: ?thesis if "R saved logged inv M V \<sigma> s'" using that by (blast intro: moves.stay)
  have response: ?thesis if "response_key m \<noteq> None" "n' = ?n\<lparr>proposer := HandleResponse m (proposer ?n)\<rparr>" "out = []"
    by (rule quiet, rule response_R [OF R aM pkt that(1)]) (simp add: s' that)
  show ?thesis
  proof (cases m)
    case (Prepare b i)
    obtain r acc sto where hp: "HandlePrepare (Some S) b i (acceptor ?n) (storage ?n) = (r, acc, sto)" by (metis prod_cases3)
    obtain \<sigma>' where sim: "moves M a \<sigma> \<sigma>'" "same_proposals \<sigma> \<sigma>'" "msg_ok M \<sigma>' r"
        "node_R saved logged inv M V \<sigma>' a (?n\<lparr>acceptor := acc, storage := sto\<rparr>) (procs s a)"
      using prepare_sim [OF nR aM R_D(3) [OF R] R_values [OF R] _ hp] c Prepare by auto
    have "R saved logged inv M V \<sigma>' s'"
      by (rule answer_R [OF R aM sim(1,2) pkt _ sim(3) _ _ _ _ sim(4), where kt = "(Phase1, b, i, a)" and ds = "if up then [f] else []"])
         (use h hp Prepare node_R_D(2) [OF nR] in \<open>auto simp: handleMessage_def s' elim: HandlePrepare_cases\<close>)
    with sim(1) show ?thesis by blast
  next
    case (Accept b i v)
    obtain r acc sto where hp: "HandleAccept (Some S) b i v (acceptor ?n) (storage ?n) = (r, acc, sto)" by (metis prod_cases3)
    obtain \<sigma>' where sim: "moves M a \<sigma> \<sigma>'" "same_proposals \<sigma> \<sigma>'" "msg_ok M \<sigma>' r"
        "node_R saved logged inv M V \<sigma>' a (?n\<lparr>acceptor := acc, storage := sto\<rparr>) (procs s a)"
      using accept_sim [OF nR aM R_D(3) [OF R] _ _ hp] mok c Accept by auto
    have "R saved logged inv M V \<sigma>' s'"
      by (rule answer_R [OF R aM sim(1,2) pkt _ sim(3) _ _ _ _ sim(4), where kt = "(Phase2, b, i, a)" and ds = "if up then [f] else []"])
         (use h hp Accept node_R_D(2) [OF nR] in \<open>auto simp: handleMessage_def s' elim: HandleAccept_cases\<close>)
    with sim(1) show ?thesis by blast
  next
    case (Commit b i v)
    with h have n': "n' = handleCommit S b i v ?n" "out = []" by (simp_all add: handleMessage_def)
    have "node_R saved logged inv M V \<sigma> a n' (procs s a)"
      unfolding n' by (rule commit_node_R [OF nR]) (use mok Commit in simp_all)
    then show ?thesis
      by (intro quiet R_data [OF R aM moves.stay same_proposals_refl, of s' n'])
         (use net net_tokens_remove [OF pkt] n' in \<open>auto simp: s'\<close>)
  next
    case (Heartbeat b l i)
    with h have hb: "handleHeartbeat b l now rnd ?n = Some n'" and out: "out = []" by (auto simp: handleMessage_def)
    from hb have "same_data ?n n'" "same_proposer (proposer ?n) (proposer n')" "pending (proposer n') = pending (proposer ?n)"
      by (auto elim!: handleHeartbeat_cases simp: same_data_def same_proposer_def StepDown_def)
    then show ?thesis
      by (intro quiet R_internal [OF R aM, of s' n']) (use net net_tokens_remove [OF pkt] out in \<open>simp_all add: s'\<close>)
  qed (use h response in \<open>simp_all add: handleMessage_def\<close>)
qed

end

section \<open>Restarts and initial states\<close>

lemma WithDefaults_frame [simp]:
  "cfg_NodeID (WithDefaults c) = cfg_NodeID c" "cfg_Peers (WithDefaults c) = cfg_Peers c"
  by (simp_all add: WithDefaults_def Let_def)

lemma NewNode_split:
  assumes "NewNode S st cfg = Inr n"
  obtains n0 acc where "Validate (WithDefaults cfg) = None" "NewAcceptor (cfg_NodeID cfg) (Some S) st = Inr acc"
    "recoverLog S n0 = Inr n" "committed n0 = Map.empty" "storage n0 = st" "acceptor n0 = acc"
  using assms by (cases "NewAcceptor (cfg_NodeID cfg) (Some S) st")
    (auto simp: NewNode_def Let_def split: option.splits)

text \<open>A fresh proposer: no proposals, round 0.\<close>

lemma NewNode_ids:
  assumes "NewNode S st cfg = Inr n" "cfg_NodeID cfg = a" "length (cfg_Peers cfg) + 1 = card M"
  shows "node_ids M a n" "pending (proposer n) = Map.empty" "currentRound (proposer n) = 0" "2 \<le> card M"
proof -
  from assms(1) obtain acc where v: "Validate (WithDefaults cfg) = None" and acc: "NewAcceptor (cfg_NodeID (WithDefaults cfg)) (Some S) st = Inr acc"
    and n: "acceptor n = acc" "config n = WithDefaults cfg" "nodeID n = cfg_NodeID (WithDefaults cfg)"
      "proposer n = SetTimeouts (PrepareTimeout (WithDefaults cfg)) (AcceptTimeout (WithDefaults cfg))
         (NewProposer (nodeID n) (quorum_of_peers (length (cfg_Peers (WithDefaults cfg)))) (length (cfg_Peers (WithDefaults cfg))))"
    by (rule NewNode_cases)
  have "acc_nodeID acc = a" using acc assms(2) by (auto simp: NewAcceptor_Some split: prod.splits if_splits)
  moreover have "card M - 1 = length (cfg_Peers cfg)" using assms(3) by simp
  ultimately show "node_ids M a n" "pending (proposer n) = Map.empty" "currentRound (proposer n) = 0"
    using n assms(2,3) by (simp_all add: node_ids_def SetTimeouts_def NewProposer_def)
  show "2 \<le> card M" using v assms(3) by (cases "cfg_Peers cfg") (auto simp: Validate_def split: if_splits)
qed

context storage_contract
begin

lemma recoverLog_sound:
  assumes "inv (storage n)" "committed n = Map.empty" "recoverLog S n = Inr n'" "committed n' i = Some cv"
  shows "\<exists>e. logged (storage n) i = Some e \<and> cv_Value cv = le_Value e"
proof -
  have *: "\<exists>e \<in> set es. le_Instance e = i \<and> cv = cv_of e" if "committed (foldl recover_entry n es) i = Some cv" for es
    using that by (induction es rule: rev_induct) (auto simp: assms(2) split: if_splits)
  obtain l err where l: "GetLastInstance S (storage n) = (l, err)" by fastforce
  obtain es err' where r: "GetLogRange S (storage n) 1 (l + 1) = (es, err')" by fastforce
  have "n' \<noteq> n" using assms(2,4) by auto
  with assms(3) l r have es: "GetLogRange S (storage n) 1 (l + 1) = (es, None)" "n' = foldl recover_entry n es"
    by (simp_all add: recoverLog_def split: if_splits option.splits)
  with * [of es] assms(4) obtain e where e: "e \<in> set es" "le_Instance e = i" "cv = cv_of e" by auto
  from e(1) range_ok [OF assms(1) es(1)] obtain j where j: "logged (storage n) j = Some e"
    by (auto simp: map_filter_def)
  with logged_key [OF assms(1) j] e show ?thesis by (auto simp: cv_of_def)
qed

lemma loaded_inv:
  assumes "NewAcceptor x (Some S) st = Inr acc" "inv st" "saved_inv (saved st)"
  shows "acc_inv acc"
proof -
  obtain state err where l: "LoadAcceptorState S st = (state, err)" by fastforce
  with assms(1) consider "err = None" | "err = Some ErrNotFound" by (auto simp: NewAcceptor_Some split: if_splits)
  then show ?thesis
  proof cases
    case 1
    then have "acc = \<lparr>acc_nodeID = x, promised = deref_map (PromisedBallot (saved st)),
        acceptedBallot = deref_map (AcceptedBallot (saved st)), acceptedValue = deref_map (AcceptedValue (saved st))\<rparr>"
      using l load_ok [OF assms(2)] assms(1) by (auto simp: NewAcceptor_Some)
    then show ?thesis using assms(3) by (simp add: acc_inv_def saved_inv_def GetPromised_def)
  next
    case 2
    then show ?thesis using l load_none [OF assms(2)] assms(1)
      by (auto simp: NewAcceptor_Some acc_inv_def zero_AcceptorState_def)
  qed
qed

lemma restart_data:
  assumes d: "data_ok saved logged inv M \<sigma> a n" and sinv: "\<And>i. spec_inv (majority M) (\<sigma> i)"
    and vals: "\<forall>i b v. proposal (\<sigma> i) b = Some v \<longrightarrow> 0 < slice_len v"
    and new: "NewNode S (storage n) cfg = Inr n'" and dom: "dom (committed n) \<subseteq> dom (committed n')"
  shows "data_ok saved logged inv M \<sigma> a n'"
proof -
  from new obtain n0 acc where acc: "NewAcceptor (cfg_NodeID cfg) (Some S) (storage n) = Inr acc"
    and n0: "recoverLog S n0 = Inr n'" "committed n0 = Map.empty" "storage n0 = storage n" "acceptor n0 = acc"
    by (rule NewNode_split)
  have n': "acceptor n' = acc" "storage n' = storage n" using recoverLog_frame [OF n0(1)] n0 by simp_all
  have inv: "inv (storage n)" "acc_inv (acceptor n)" "saved_inv (saved (storage n))"
    using d by (simp_all add: data_ok_def node_stored_def)
  have at: "lockstep_at i acc (saved (storage n)) \<and> acc_rel acc i (\<sigma> i) a" if "committed n' i = None" for i
  proof -
    have none: "committed n i = None" using that dom by blast
    then have ls: "lockstep_at i (acceptor n) (saved (storage n))" and rel: "acc_rel (acceptor n) i (\<sigma> i) a"
      using d by (auto simp: data_ok_def node_stored_def)
    note rc = recover_at [OF inv(1) ls inv(2) acc]
    have "slice_copy v = v" if "acceptedValue (acceptor n) i = Some v" "acceptedBallot (acceptor n) i = Some b" for b v
    proof (rule slice_copy_id)
      have "lastVote (\<sigma> i) a = Some (b, v)" using rel that by (simp add: acc_rel_def go_get_def)
      then have "proposal (\<sigma> i) b = Some v"
        using spec_invD(1) [OF sinv, of i a b] spec_invD(3) [OF sinv, of i a] by (simp add: last_ok_def)
      with vals show "0 < slice_len v" by blast
    qed
    moreover have "acceptedBallot (acceptor n) i \<noteq> None" if "acceptedValue (acceptor n) i \<noteq> None"
      using that inv(2) unfolding acc_inv_def by (metis domIff)
    ultimately have "map_option slice_copy (acceptedValue (acceptor n) i) = acceptedValue (acceptor n) i"
      by (cases "acceptedValue (acceptor n) i") auto
    with rc ls rel show ?thesis by (simp add: lockstep_at_def acc_rel_def GetPromised_def go_get_def)
  qed
  have "learned M (\<sigma> i) (cv_Value cv)" if "committed n' i = Some cv" for i cv
    using recoverLog_sound [OF _ n0(2,1) that] inv(1) d n0(3) by (auto simp: data_ok_def)
  then show ?thesis using at d inv loaded_inv [OF acc inv(1,3)] by (simp add: data_ok_def node_stored_def n')
qed

lemma restart_R:
  assumes R: "R saved logged inv M V \<sigma> s" and c: "careful S V s (EvRestart a)" and e: "exec S M (EvRestart a) s = Some s'"
  shows "R saved logged inv M V \<sigma> s'"
proof -
  let ?n = "nodes s a"
  from e obtain n' where aM: "a \<in> M" and new: "NewNode S (storage ?n) (config ?n) = Inr n'"
    and s': "s' = (upd_node a n' s)\<lparr>procs := (procs s)(a := (\<lambda>_. None)), running := (running s)(a := False)\<rparr>"
    by (auto simp: Let_def split: if_splits sum.splits)
  from c new have c: "currentRound (proposer ?n) = 0" "dom (committed ?n) \<subseteq> dom (committed n')" by simp_all
  note nR = R_D(4) [OF R aM]
  have cfg: "cfg_NodeID (config ?n) = a" "length (cfg_Peers (config ?n)) + 1 = card M"
    using node_R_D(5) [OF nR] by (simp_all add: node_ids_def)
  note ids = NewNode_ids [OF new cfg]
  have "data_ok saved logged inv M \<sigma> a n'"
    by (rule restart_data [OF node_R_D(6) [OF nR] R_D(3) [OF R] R_values [OF R] new c(2)])
  then have n': "node_R saved logged inv M V \<sigma> a n' (procs s' a)"
    using ids by (simp add: node_R_def queue_ok_def s')
  have ns: "nodes s' = (nodes s)(a := n')" and ps: "\<And>x. x \<noteq> a \<Longrightarrow> procs s' x = procs s x" by (simp_all add: s')
  have tk: "tokens s' k \<le> tokens s k" for k
  proof -
    obtain ph b i x where k: "k = (ph, b, i, x)" by (metis prod_cases4)
    show ?thesis using tokens_le [OF ns ps, of k 0 0 0] ids(2) by (simp add: k s')
  qed
  have "tok_R M s'" by (rule tok_quiet [OF R aM ns ps _ tk]) (use c ids in \<open>simp_all add: s'\<close>)
  then show ?thesis using R_same [OF R ns ps n'] R_D(5) [OF R] c ids by (simp add: s')
qed

end

text \<open>A storage that nothing was written to.\<close>

definition blank :: "('s \<Rightarrow> AcceptorState) \<Rightarrow> ('s \<Rightarrow> Instance \<rightharpoonup> LogEntry) \<Rightarrow> ('s \<Rightarrow> bool) \<Rightarrow> 's \<Rightarrow> bool" where
  "blank saved logged ok st \<longleftrightarrow> ok st \<and> deref_map (PromisedBallot (saved st)) = Map.empty
     \<and> deref_map (AcceptedBallot (saved st)) = Map.empty \<and> deref_map (AcceptedValue (saved st)) = Map.empty
     \<and> logged st = Map.empty"

context storage_contract
begin

lemma init_data:
  assumes "NewNode S st cfg = Inr n" "blank saved logged inv st"
  shows "data_ok saved logged inv M (\<lambda>_. spec_init) a n"
proof -
  from assms(1) obtain n0 acc where acc: "NewAcceptor (cfg_NodeID cfg) (Some S) st = Inr acc"
    and n0: "recoverLog S n0 = Inr n" "committed n0 = Map.empty" "storage n0 = st" "acceptor n0 = acc"
    by (rule NewNode_split)
  have n: "acceptor n = acc" "storage n = st" using recoverLog_frame [OF n0(1)] n0 by simp_all
  have inv: "inv st" and lg: "logged st = Map.empty" using assms(2) by (simp_all add: blank_def)
  obtain state err where l: "LoadAcceptorState S st = (state, err)" by fastforce
  with acc consider "err = None" | "err = Some ErrNotFound" by (auto simp: NewAcceptor_Some split: if_splits)
  then have "promised acc = Map.empty \<and> acceptedBallot acc = Map.empty \<and> acceptedValue acc = Map.empty"
    by cases (use l acc assms(2) load_ok [OF inv] load_none [OF inv] in \<open>auto simp: NewAcceptor_Some blank_def zero_AcceptorState_def\<close>)
  moreover have "committed n i = None" for i
    using recoverLog_sound [OF _ n0(2,1), of i] inv lg n0(3) by (cases "committed n i") auto
  ultimately show ?thesis using assms(2)
    by (simp add: data_ok_def node_stored_def n blank_def acc_inv_def lockstep_at_def saved_inv_def acc_rel_def
        GetPromised_def spec_init_def go_get_def)
qed

lemma init_R:
  assumes init: "cluster_init S (blank saved logged inv) M s" and ne: "M \<noteq> {}"
  shows "R saved logged inv M V (\<lambda>_. spec_init) s"
proof -
  have node: "node_R saved logged inv M V (\<lambda>_. spec_init) a (nodes s a) (procs s a) \<and> 2 \<le> card M
      \<and> pending (proposer (nodes s a)) = Map.empty" if "a \<in> M" for a
  proof -
    from init that obtain cfg st where "blank saved logged inv st" "NewNode S st cfg = Inr (nodes s a)"
      "cfg_NodeID cfg = a" "length (cfg_Peers cfg) + 1 = card M" "\<And>i. procs s a i = None"
      unfolding cluster_init_def by blast
    then show ?thesis using init_data [of st cfg "nodes s a" M a] NewNode_ids [of S st cfg "nodes s a" a M]
      by (simp add: node_R_def queue_ok_def)
  qed
  have p: "procs s a i = None" "net s = []" "finite M" for a i using init by (simp_all add: cluster_init_def)
  have pend: "pending (proposer (nodes s a)) = Map.empty" for a
    using node [of a] init by (cases "a \<in> M") (simp_all add: cluster_init_def)
  have "tokens s k = 0" for k
  proof -
    obtain ph b i x where k: "k = (ph, b, i, x)" by (metis prod_cases4)
    show ?thesis by (simp add: tokens_def k p pend)
  qed
  then have "tok_R M s" by (simp add: tok_R_def p)
  moreover have "fresh_R M V (\<lambda>_. spec_init) (nodes s)" by (simp add: fresh_R_def spec_init_def)
  ultimately show ?thesis using node ne p by (auto simp: R_def net_R_def spec_inv_init)
qed

section \<open>Refinement\<close>

lemma step_R:
  assumes R: "R saved logged inv M V \<sigma> s" and c: "careful S V s e" and x: "exec S M e s = Some s'"
  shows "\<exists>a \<sigma>'. moves M a \<sigma> \<sigma>' \<and> R saved logged inv M V \<sigma>' s'"
proof -
  have stay: ?thesis if "R saved logged inv M V \<sigma> s'" using that by (blast intro: moves.stay)
  show ?thesis
  proof (cases e)
    case (EvDeliver pkt now rnd up)
    obtain f a m where "pkt = (f, a, m)" by (metis prod_cases3)
    with EvDeliver deliver_R [OF R, of f a m now rnd up s'] c x show ?thesis by blast
  next
    case (EvOwn1 a i)
    with own1_R [OF R, of a i s'] c x show ?thesis by blast
  next
    case (EvOwn2 a i)
    with own2_R [OF R, of a i s'] c x show ?thesis by blast
  next
    case (EvRecv1 a i)
    with recv1_R [OF R, of S a i s'] x show ?thesis by blast
  next
    case EvStart
    with x show ?thesis by (intro stay) (simp only:, rule start_R [OF R])
  next
    case EvPropose
    with x c show ?thesis by (intro stay) (simp only:, rule propose_R [OF R])
  next
    case EvElect
    with x c show ?thesis by (intro stay) (simp only:, rule elect_R [OF R])
  next
    case EvCast1
    with x show ?thesis by (intro stay) (simp only:, rule cast1_R [OF R])
  next
    case EvCast2
    with x show ?thesis by (intro stay) (simp only:, rule cast2_R [OF R])
  next
    case EvRecv2
    with x show ?thesis by (intro stay) (simp only:, rule recv2_R [OF R])
  next
    case EvCommitOwn
    with x show ?thesis by (intro stay) (simp only:, rule commitOwn_R [OF R])
  next
    case EvCommitCast
    with x show ?thesis by (intro stay) (simp only:, rule commitCast_R [OF R])
  next
    case EvTimeout
    with x show ?thesis by (intro stay) (simp only:, rule timeout_R [OF R])
  next
    case EvReturn
    with x show ?thesis by (intro stay) (simp only:, rule return_R [OF R])
  next
    case EvLead
    with x show ?thesis by (intro stay) (simp only:, rule lead_R [OF R])
  next
    case (EvUpdate a now rnd)
    with election_R [OF R x, of a now rnd] show ?thesis by (intro stay) simp
  next
    case (EvBeat a ds)
    with election_R [OF R x, of a _ _ ds] show ?thesis by (intro stay) simp
  next
    case (EvBackoff a now rnd)
    with election_R [OF R x, of a now rnd] show ?thesis by (intro stay) simp
  next
    case (EvElected a)
    with election_R [OF R x, of a] show ?thesis by (intro stay) simp
  next
    case EvDrop
    with x show ?thesis by (intro stay) (simp only:, rule drop_R [OF R])
  next
    case EvTick
    with x show ?thesis by (intro stay) (simp only:, rule tick_R [OF R])
  next
    case EvReceive
    with x show ?thesis by (intro stay) (simp only:, rule receive_R [OF R])
  next
    case EvRestart
    with x c show ?thesis by (intro stay) (simp only:, rule restart_R [OF R])
  qed
qed

lemma run_R:
  assumes "careful_run S M V s s'" "R saved logged inv M V \<sigma> s"
  shows "\<exists>\<sigma>'. (\<forall>i. (spec_step (majority M))\<^sup>*\<^sup>* (\<sigma> i) (\<sigma>' i)) \<and> R saved logged inv M V \<sigma>' s'"
  using assms
proof (induction rule: careful_run.induct)
  case (more s s1 e s2)
  then obtain \<sigma>1 where 1: "\<forall>i. (spec_step (majority M))\<^sup>*\<^sup>* (\<sigma> i) (\<sigma>1 i)" "R saved logged inv M V \<sigma>1 s1" by blast
  obtain a \<sigma>2 where 2: "moves M a \<sigma>1 \<sigma>2" "R saved logged inv M V \<sigma>2 s2" using step_R [OF 1(2) more.hyps(2,3)] by blast
  have "(spec_step (majority M))\<^sup>*\<^sup>* (\<sigma> i) (\<sigma>2 i)" for i
    using 1(1) moves_steps [OF 2(1)] by (meson rtranclp_trans)
  with 2(2) show ?case by blast
qed blast

lemma careful_run_refines:
  assumes "cluster_init S (blank saved logged inv) M s0" "careful_run S M V s0 s" "M \<noteq> {}"
  obtains \<sigma> where "\<And>i. (spec_step (majority M))\<^sup>*\<^sup>* spec_init (\<sigma> i)" "R saved logged inv M V \<sigma> s"
  using run_R [OF assms(2) init_R [OF assms(1,3)]] by blast

end

lemma R_learned:
  assumes "R saved logged ok M V \<sigma> s" "a \<in> M" "committed (nodes s a) i = Some cv"
  shows "learned M (\<sigma> i) (cv_Value cv)"
  using node_R_D(6) [OF R_D(4) [OF assms(1,2)]] assms(3) by (simp add: data_ok_def)

lemma learned_proposed:
  assumes "R saved logged ok M V \<sigma> s" "learned M (\<sigma> i) v"
  shows "\<exists>b. proposal (\<sigma> i) b = Some v"
proof -
  obtain b Q where Q: "majority M Q" "\<forall>a \<in> Q. votes (\<sigma> i) a b = Some v" using assms(2) unfolding learned_def chosen_def by blast
  have "Q \<noteq> {}" using Q(1) by (auto simp: majority_def quorum_of_peers_def Let_def)
  then obtain a where "votes (\<sigma> i) a b = Some v" using Q(2) by blast
  then show ?thesis using spec_invD(1) [OF R_D(3) [OF assms(1)]] by blast
qed

end
