(* ===== verification/Cluster_Safety.thy ===== *)
theory Cluster_Safety
  imports Cluster_Refinement
begin

text \<open>
  What the cluster as a whole guarantees: careful runs satisfy agreement and validity and
  refine the abstract specification.
\<close>

section \<open>Runs that can be evaluated\<close>

fun careful_events :: "'s Storage \<Rightarrow> NodeID set \<Rightarrow> Value set \<Rightarrow> event list \<Rightarrow> 's cluster \<Rightarrow> bool" where
  "careful_events S M V [] s = True"
| "careful_events S M V (e # es) s =
     (careful S V s e \<and> (case exec S M e s of None \<Rightarrow> False | Some s' \<Rightarrow> careful_events S M V es s'))"

lemma careful_run_trans: "careful_run S M V s1 s2 \<Longrightarrow> careful_run S M V s s1 \<Longrightarrow> careful_run S M V s s2"
  by (induction rule: careful_run.induct) (auto intro: careful_run.more)

lemma careful_events_run:
  "run S M es s = Some s' \<Longrightarrow> careful_events S M V es s \<Longrightarrow> careful_run S M V s s'"
proof (induction es arbitrary: s)
  case Nil
  then show ?case by (simp add: careful_run.none)
next
  case (Cons e es)
  then obtain s1 where e: "exec S M e s = Some s1" and es: "careful S V s e" "careful_run S M V s1 s'"
    by (auto split: option.splits)
  have "careful_run S M V s s1" by (rule careful_run.more [OF careful_run.none es(1) e])
  with es(2) show ?case by (rule careful_run_trans)
qed

text \<open>The cluster of the examples: three new nodes on in-memory storages.\<close>

definition fresh_node :: "NodeID \<Rightarrow> MemoryStorage Node" where
  "fresh_node a = (let cfg = WithDefaults (three_nodes a) in
     \<lparr>config = cfg, nodeID = a, storage = NewMemoryStorage,
      acceptor = \<lparr>acc_nodeID = a, promised = Map.empty, acceptedBallot = Map.empty, acceptedValue = Map.empty\<rparr>,
      proposer = SetTimeouts (PrepareTimeout cfg) (AcceptTimeout cfg) (NewProposer a (quorum_of_peers 2) 2),
      committed = Map.empty, lastCommitted = 0, commitCh = [], currentLeader = 0, nd_leaderBallot = 0,
      electionDeadline = 0, electing = False, started = False\<rparr>)"

definition three :: "MemoryStorage cluster" where
  "three = \<lparr>nodes = fresh_node, procs = (\<lambda>_ _. None), running = (\<lambda>_. False), net = []\<rparr>"

lemma fresh_node_new: "a \<noteq> 0 \<Longrightarrow> NewNode memory_storage NewMemoryStorage (three_nodes a) = Inr (fresh_node a)"
  using three_nodes_valid [of a]
  by (simp add: NewNode_def Let_def fresh_node_def NewAcceptor_Some mem_LoadAcceptorState_def recoverLog_def
      mem_GetLastInstance_def NewMemoryStorage_def zero_AcceptorState_def three_nodes_def WithDefaults_def numeral_2_eq_2)

lemma blank_memory: "blank acceptorState log mem_inv NewMemoryStorage"
  using mem_inv_new by (simp add: blank_def NewMemoryStorage_def)

lemma three_init: "cluster_init memory_storage (blank acceptorState log mem_inv) {1, 2, 3} three"
proof -
  have "\<exists>cfg st. blank acceptorState log mem_inv st \<and> NewNode memory_storage st cfg = Inr (nodes three a)
      \<and> cfg_NodeID cfg = a \<and> length (cfg_Peers cfg) + 1 = card {1, 2, 3 :: NodeID}" if "a \<noteq> 0" for a
    using blank_memory fresh_node_new [OF that]
    by (intro exI [of _ "three_nodes a"] exI [of _ NewMemoryStorage]) (simp add: three_def three_nodes_def)
  then show ?thesis
    by (simp add: cluster_init_def) (simp add: three_def fresh_node_def Let_def SetTimeouts_def NewProposer_def)
qed

lemma small_frames [simp]:
  "frame_fits (Prepare b i)" "frame_fits (Accepted b i n)" "frame_fits (Promise b i n ab None)"
  "frame_fits (Accept b i (Some []))" "frame_fits (Commit b i (Some []))"
  "frame_fits (Promise b i n ab (Some [x]))" "frame_fits (Accept b i (Some [x]))" "frame_fits (Commit b i (Some [x]))"
  by (simp_all add: frame_fits_def encode_defs put_value_def slice_len_def)

lemmas cluster_eval =
  quorum_of_peers_def MakeBallot_def three_def fresh_node_def three_nodes_def WithDefaults_def SetTimeouts_def
  NewProposer_def Second_def Millisecond_def NewMemoryStorage_def packets_def peers_ok_def after_phase1_def
  after_phase2_def take_response_def transmit_iff Start_def resetElectionDeadline_def randomElectionTimeout_def
  begin_proposal_def end_proposal_def phase1_local_def phase2_local_def phase1_recv_def phase2_recv_def
  HandlePrepare_def HandleAccept_def persist_def acceptor_snapshot_def handleCommit_def handleMessage_def
  HandleResponse_def responseBufferSize_def findHighestAccepted_def value_to_propose_def ForgetInstance_def
  mem_AppendLog_def mem_SaveAcceptorState_def deep_copy_def commitCh_capacity_def go_get_def go_delete_def
  wire_value_def slice_copy_def Let_def upd_node_def set_pc_def send_def finish_def

text \<open>All three nodes start; a proposal of \<open>a\<close> for instance 1 reaches \<open>c\<close> while the messages to
  \<open>d\<close> are still on their way, is committed by \<open>a\<close> and returns.\<close>

definition round_events :: "NodeID \<Rightarrow> Ballot \<Rightarrow> Value \<Rightarrow> NodeID \<Rightarrow> NodeID \<Rightarrow> event list" where
  "round_events a b v c d =
     [EvStart a None 0 0, EvStart c None 0 0, EvStart d None 0 0, EvPropose a v, EvOwn1 a 1, EvCast1 a 1 [c, d],
      EvDeliver (a, c, Prepare b 1) 0 0 True, EvDeliver (c, a, Promise b 1 c 0 None) 0 0 True, EvRecv1 a 1, EvOwn2 a 1,
      EvCast2 a 1 [c, d], EvDeliver (a, c, Accept b 1 v) 0 0 True, EvDeliver (c, a, Accepted b 1 c) 0 0 True, EvRecv2 a 1,
      EvCommitOwn a 1, EvCommitCast a 1 [c, d], EvReturn a 1]"

lemma round_run:
  obtains s where "careful_run memory_storage {1, 2, 3} {Some [7]} three s"
    "committed (nodes s 1) 1 = Some \<lparr>cv_Instance = 1, cv_Value = Some [7], cv_Ballot = 65537\<rparr>"
    "committed (nodes s 2) 1 = Some \<lparr>cv_Instance = 1, cv_Value = Some [7], cv_Ballot = 65537\<rparr>"
proof -
  let ?es = "round_events 1 65537 (Some [7]) 2 3 @ [EvDeliver (1, 2, Commit 65537 1 (Some [7])) 0 0 True]" and ?cv = "\<lparr>cv_Instance = 1, cv_Value = Some [7], cv_Ballot = 65537\<rparr>"
  have "\<exists>s. run memory_storage {1, 2, 3} ?es three = Some s \<and> committed (nodes s 1) 1 = Some ?cv \<and> committed (nodes s 2) 1 = Some ?cv"
    by (simp add: cluster_eval round_events_def)
  moreover have "careful_events memory_storage {1, 2, 3} {Some [7]} ?es three"
    by (simp add: cluster_eval round_events_def)
  ultimately show thesis using careful_events_run that by blast
qed

lemma value_frames:
  assumes "slice_len v < 2 ^ 31"
  shows "frame_fits (Accept b i v)" "frame_fits (Commit b i v)"
  using assms by (cases v, simp_all add: frame_fits_def encode_defs put_value_def slice_len_def)+

text \<open>Events that are no fault: nothing is lost, no call times out, no node restarts, every call of
  \<open>Start\<close> can listen and every response finds its connection up.\<close>

fun faultless :: "event \<Rightarrow> bool" where
  "faultless (EvStart _ err _ _) = (err = None)"
| "faultless (EvDeliver _ _ _ up) = up"
| "faultless (EvDrop _) = False"
| "faultless (EvTimeout _ _) = False"
| "faultless (EvRestart _) = False"
| "faultless _ = True"

section \<open>Properties of the cluster\<close>

text \<open>C1. Agreement.  Take any cluster of nodes created on blank storages that keep the storage
  contract, and any careful run: however messages are lost, delayed and reordered, whatever
  storage writes fail, whoever proposes, if a node has committed a value for an instance at
  some moment and a node has committed a value for that instance at the same or a later moment,
  the two values are equal.\<close>

theorem cluster_agreement:
  assumes "storage_contract S saved logged ok" "cluster_init S (blank saved logged ok) M s0"
    "careful_run S M V s0 s1" "careful_run S M V s1 s2" "a \<in> M" "c \<in> M"
    "committed (nodes s1 a) i = Some cv" "committed (nodes s2 c) i = Some cv'"
  shows "cv_Value cv = cv_Value cv'"
proof -
  have ne: "M \<noteq> {}" using assms(5) by blast
  obtain \<sigma>1 where 1: "\<And>i. (spec_step (majority M))\<^sup>*\<^sup>* spec_init (\<sigma>1 i)" "R saved logged ok M V \<sigma>1 s1"
    using storage_contract.careful_run_refines [OF assms(1-3) ne] by blast
  obtain \<sigma>2 where 2: "\<And>i. (spec_step (majority M))\<^sup>*\<^sup>* (\<sigma>1 i) (\<sigma>2 i)" "R saved logged ok M V \<sigma>2 s2"
    using storage_contract.run_R [OF assms(1,4) 1(2)] by blast
  have "spec_le (\<sigma>1 i) (\<sigma>2 i)" using maj.steps_inv [OF 2(1) R_D(3) [OF 1(2)]] by blast
  with R_learned [OF 1(2) assms(5,7)] obtain b where "chosen (majority M) (\<sigma>2 i) b (cv_Value cv)"
    by (auto simp: learned_def intro: chosen_mono)
  moreover obtain b' where "chosen (majority M) (\<sigma>2 i) b' (cv_Value cv')"
    using R_learned [OF 2(2) assms(6,8)] by (auto simp: learned_def)
  ultimately show ?thesis using maj.agreement [OF R_D(3) [OF 2(2)]] by blast
qed

theorem cluster_agreement_witness:
  "\<exists>s. careful_run memory_storage {1, 2, 3} {Some [7]} three s \<and> committed (nodes s 1) 1 \<noteq> None
     \<and> map_option cv_Value (committed (nodes s 1) 1) = map_option cv_Value (committed (nodes s 2) 1)"
proof -
  obtain s where s: "careful_run memory_storage {1, 2, 3} {Some [7]} three s"
    and c: "committed (nodes s 1) 1 = Some \<lparr>cv_Instance = 1, cv_Value = Some [7], cv_Ballot = 65537\<rparr>"
      "committed (nodes s 2) 1 = Some \<lparr>cv_Instance = 1, cv_Value = Some [7], cv_Ballot = 65537\<rparr>" by (rule round_run)
  from cluster_agreement [OF mem.storage_contract_axioms three_init s careful_run.none _ _ c] s c show ?thesis by auto
qed

text \<open>C2. Refinement.  Every careful run implements the abstract specification, instance by
  instance: there are reachable states of the specification, one for each instance, whose
  acceptors have the promises and last votes that the nodes' acceptors have (for the instances
  a node has not committed) and in which every committed value is chosen by a majority.\<close>

theorem cluster_refines_spec:
  assumes "storage_contract S saved logged ok" "cluster_init S (blank saved logged ok) M s0"
    "careful_run S M V s0 s" "M \<noteq> {}"
  shows "\<exists>\<sigma>. (\<forall>i. (spec_step (majority M))\<^sup>*\<^sup>* spec_init (\<sigma> i))
    \<and> (\<forall>a \<in> M. \<forall>i. committed (nodes s a) i = None \<longrightarrow>
         maxBal (\<sigma> i) a = GetPromised (acceptor (nodes s a)) i
       \<and> lastVote (\<sigma> i) a = (case acceptedBallot (acceptor (nodes s a)) i of None \<Rightarrow> None
            | Some b \<Rightarrow> Some (b, go_get None (acceptedValue (acceptor (nodes s a))) i)))
    \<and> (\<forall>a \<in> M. \<forall>i cv. committed (nodes s a) i = Some cv \<longrightarrow> (\<exists>b. chosen (majority M) (\<sigma> i) b (cv_Value cv)))"
proof -
  obtain \<sigma> where \<sigma>: "\<And>i. (spec_step (majority M))\<^sup>*\<^sup>* spec_init (\<sigma> i)" "R saved logged ok M V \<sigma> s"
    using storage_contract.careful_run_refines [OF assms] by blast
  have "acc_rel (acceptor (nodes s a)) i (\<sigma> i) a" if "a \<in> M" "committed (nodes s a) i = None" for a i
    using node_R_D(6) [OF R_D(4) [OF \<sigma>(2) that(1)]] that(2) by (simp add: data_ok_def)
  then show ?thesis using \<sigma>(1) R_learned [OF \<sigma>(2)]
    by (intro exI [of _ \<sigma>]) (auto simp: acc_rel_def learned_def split: option.splits)
qed

theorem cluster_refines_spec_witness:
  "\<exists>s (\<sigma> :: abstract). careful_run memory_storage {1, 2, 3} {Some [7]} three s
     \<and> (spec_step (majority {1, 2, 3}))\<^sup>*\<^sup>* spec_init (\<sigma> 1) \<and> (\<exists>b. chosen (majority {1, 2, 3}) (\<sigma> 1) b (Some [7]))"
proof -
  obtain s where s: "careful_run memory_storage {1, 2, 3} {Some [7]} three s"
    and c: "committed (nodes s 1) 1 = Some \<lparr>cv_Instance = 1, cv_Value = Some [7], cv_Ballot = 65537\<rparr>" by (rule round_run)
  from cluster_refines_spec [OF mem.storage_contract_axioms three_init s insert_not_empty] obtain \<sigma> :: abstract
    where \<sigma>: "\<forall>i. (spec_step (majority {1, 2, 3}))\<^sup>*\<^sup>* spec_init (\<sigma> i)"
      and ch: "\<forall>a \<in> {1, 2, 3}. \<forall>i cv. committed (nodes s a) i = Some cv \<longrightarrow> (\<exists>b. chosen (majority {1, 2, 3}) (\<sigma> i) b (cv_Value cv))"
    by (elim exE conjE) (rule that)
  have "\<exists>b. chosen (majority {1, 2, 3}) (\<sigma> 1) b (Some [7])" using ch c by fastforce
  with s \<sigma> show ?thesis by blast
qed

text \<open>C3. Validity.  In a careful run only proposed values are committed: a committed value is
  one of the values that clients gave to \<open>Propose\<close>.\<close>

theorem cluster_validity:
  assumes "storage_contract S saved logged ok" "cluster_init S (blank saved logged ok) M s0"
    "careful_run S M V s0 s" "a \<in> M" "committed (nodes s a) i = Some cv"
  shows "cv_Value cv \<in> V"
proof -
  have ne: "M \<noteq> {}" using assms(4) by blast
  obtain \<sigma> where \<sigma>: "R saved logged ok M V \<sigma> s"
    using storage_contract.careful_run_refines [OF assms(1-3) ne] by blast
  obtain b where "proposal (\<sigma> i) b = Some (cv_Value cv)"
    using learned_proposed [OF \<sigma> R_learned [OF \<sigma> assms(4,5)]] by blast
  then show ?thesis using R_D(6) [OF \<sigma>] by (auto simp: fresh_R_def)
qed

theorem cluster_validity_witness:
  "\<exists>s cv. careful_run memory_storage {1, 2, 3} {Some [7]} three s \<and> committed (nodes s 2) 1 = Some cv \<and> cv_Value cv \<in> {Some [7]}"
proof -
  obtain s where s: "careful_run memory_storage {1, 2, 3} {Some [7]} three s"
    and c: "committed (nodes s 2) 1 = Some \<lparr>cv_Instance = 1, cv_Value = Some [7], cv_Ballot = 65537\<rparr>" by (rule round_run)
  from cluster_validity [OF mem.storage_contract_axioms three_init s _ c] s c show ?thesis by blast
qed

end
