(* ===== verification/Go_Text.thy ===== *)
theory Go_Text
  imports Paxos_Prelude
begin

text \<open>
  What the example programs use of Go's \<^verbatim>\<open>strings\<close>, \<^verbatim>\<open>strconv\<close> and
  \<^verbatim>\<open>encoding/json\<close> packages.  A Go string is a list of bytes, one HOL character for each.
  The functions are those of the library on ASCII text: bytes from 128 on are ordinary
  characters here, where the library decodes UTF-8 (and knows Unicode spaces, letter case and
  ill-formed sequences).  The JSON reader has no bound on nesting; the library refuses more
  than 10000 levels.
\<close>

section \<open>Bytes and characters\<close>

abbreviation code :: "char \<Rightarrow> nat" where "code c \<equiv> of_char c"

definition ascii :: "string \<Rightarrow> bool" where
  "ascii s \<longleftrightarrow> (\<forall>c \<in> set s. code c < 128)"

definition to_bytes :: "string \<Rightarrow> 8 word list" where
  "to_bytes = map of_char"

definition of_bytes :: "8 word list \<Rightarrow> string" where
  "of_bytes = map (\<lambda>b. char_of (unat b))"

lemma of_bytes_to_bytes [simp]: "of_bytes (to_bytes s) = s"
proof -
  have "unat (of_char c :: 8 word) = code c" for c
  proof -
    have "(of_char c :: 8 word) = of_nat (code c)" by (simp add: of_nat_of_char)
    then show ?thesis by (simp only: unat_of_nat) (simp add: take_bit_eq_mod)
  qed
  then show ?thesis by (simp add: to_bytes_def of_bytes_def comp_def)
qed

section \<open>Package strings\<close>

definition is_space :: "char \<Rightarrow> bool" where
  "is_space c \<longleftrightarrow> code c \<in> {9, 10, 11, 12, 13, 32}"

definition TrimSpace :: "string \<Rightarrow> string" where
  "TrimSpace s = rev (dropWhile is_space (rev (dropWhile is_space s)))"

definition lower :: "char \<Rightarrow> char" where
  "lower c = (if 65 \<le> code c \<and> code c \<le> 90 then char_of (code c + 32) else c)"

definition ToLower :: "string \<Rightarrow> string" where
  "ToLower = map lower"

fun Split :: "char \<Rightarrow> string \<Rightarrow> string list" where
  "Split sep [] = [[]]"
| "Split sep (c # cs) =
     (if c = sep then [] # Split sep cs
      else (case Split sep cs of [] \<Rightarrow> [[c]] | w # ws \<Rightarrow> (c # w) # ws))"

fun SplitN :: "nat \<Rightarrow> char \<Rightarrow> string \<Rightarrow> string list" where
  "SplitN 0 sep s = []"
| "SplitN (Suc 0) sep s = [s]"
| "SplitN (Suc (Suc n)) sep s =
     (case dropWhile (\<lambda>c. c \<noteq> sep) s of
        [] \<Rightarrow> [s]
      | _ # rest \<Rightarrow> takeWhile (\<lambda>c. c \<noteq> sep) s # SplitN (Suc n) sep rest)"

lemma dropWhile_hd_space: "dropWhile P s = c # cs \<Longrightarrow> \<not> P c \<and> length cs < length s"
  by (induction s) (auto split: if_splits)

function Fields :: "string \<Rightarrow> string list" where
  "Fields s =
     (case dropWhile is_space s of
        [] \<Rightarrow> []
      | c # cs \<Rightarrow> takeWhile (\<lambda>c. \<not> is_space c) (c # cs) # Fields (dropWhile (\<lambda>c. \<not> is_space c) cs))"
  by pat_completeness auto

termination
  by (relation "measure length")
     (auto dest!: dropWhile_hd_space intro: le_less_trans [OF length_dropWhile_le])

declare Fields.simps [simp del]

section \<open>Package strconv\<close>

definition digit :: "nat \<Rightarrow> char" where
  "digit d = char_of (48 + d)"

fun decimal :: "nat \<Rightarrow> string" where
  "decimal n = (if n < 10 then [digit n] else decimal (n div 10) @ [digit (n mod 10)])"

declare decimal.simps [simp del]

definition FormatInt :: "int \<Rightarrow> string" where
  "FormatInt n = (if n < 0 then CHR ''-'' # decimal (nat (- n)) else decimal (nat n))"

definition digit_val :: "char \<Rightarrow> nat option" where
  "digit_val c = (if 48 \<le> code c \<and> code c \<le> 57 then Some (code c - 48) else None)"

fun read_decimal :: "nat \<Rightarrow> string \<Rightarrow> nat option" where
  "read_decimal acc [] = Some acc"
| "read_decimal acc (c # cs) =
     (case digit_val c of None \<Rightarrow> None | Some d \<Rightarrow> read_decimal (10 * acc + d) cs)"

text \<open>\<open>ParseInt(s, 10, 64)\<close>: \<^term>\<open>None\<close> for both kinds of error.\<close>

definition ParseUint :: "string \<Rightarrow> nat option" where
  "ParseUint s = (if s = [] then None else read_decimal 0 s)"

definition ParseInt :: "string \<Rightarrow> int option" where
  "ParseInt s =
     (let neg = (s \<noteq> [] \<and> hd s = CHR ''-'');
          s' = (if s \<noteq> [] \<and> (hd s = CHR ''-'' \<or> hd s = CHR ''+'') then tl s else s)
      in case ParseUint s' of
           None \<Rightarrow> None
         | Some n \<Rightarrow>
             if neg then (if n \<le> 2 ^ 63 then Some (- int n) else None)
             else (if n < 2 ^ 63 then Some (int n) else None))"

lemma digit_val_digit [simp]: "d < 10 \<Longrightarrow> digit_val (digit d) = Some d"
  by (simp add: digit_val_def digit_def)

lemma read_decimal_append:
  "read_decimal acc (xs @ ys) = Option.bind (read_decimal acc xs) (\<lambda>a. read_decimal a ys)"
  by (induction xs arbitrary: acc) (auto split: option.splits)

lemma read_decimal_decimal: "read_decimal 0 (decimal n) = Some n"
proof (induction n rule: decimal.induct)
  case (1 n)
  show ?case
  proof (cases "n < 10")
    case True
    then show ?thesis by (simp add: decimal.simps [of n])
  next
    case False
    with 1 show ?thesis by (subst decimal.simps) (simp add: read_decimal_append)
  qed
qed

lemma decimal_digits: "c \<in> set (decimal n) \<Longrightarrow> 48 \<le> code c \<and> code c \<le> 57"
proof (induction n rule: decimal.induct)
  case (1 n)
  then show ?case by (cases "n < 10") (auto simp: decimal.simps [of n] digit_def)
qed

lemma decimal_not_Nil [simp]: "decimal n \<noteq> []"
  by (subst decimal.simps) simp

lemma decimal_hd: "decimal n = c # cs \<Longrightarrow> 48 \<le> code c \<and> code c \<le> 57"
  using decimal_digits [of c n] by simp

text \<open>No leading zeros.\<close>

lemma decimal_zero: "decimal n = CHR ''0'' # cs \<Longrightarrow> n = 0 \<and> cs = []"
proof (induction n arbitrary: cs rule: decimal.induct)
  case (1 n)
  show ?case
  proof (cases "n < 10")
    case True
    then show ?thesis using 1(2) by (auto simp: decimal.simps [of n] digit_def char_of_eq_iff take_bit_eq_mod)
  next
    case False
    then obtain ds where "decimal (n div 10) = CHR ''0'' # ds"
      using 1(2) by (subst (asm) decimal.simps) (cases "decimal (n div 10)", auto)
    then have "n div 10 = 0" using 1(1) False by blast
    with False show ?thesis by simp
  qed
qed

text \<open>Reading what was printed, for every 64-bit integer.\<close>

lemma ParseInt_FormatInt: "ParseInt (FormatInt n) = (if - (2 ^ 63) \<le> n \<and> n < 2 ^ 63 then Some n else None)"
proof (cases "n < 0")
  case True
  have "nat (- n) \<le> 2 ^ 63 \<longleftrightarrow> - (2 ^ 63) \<le> n" by auto
  then show ?thesis using True by (simp add: FormatInt_def ParseInt_def ParseUint_def read_decimal_decimal)
next
  case False
  obtain c cs where d: "decimal (nat n) = c # cs" by (cases "decimal (nat n)") auto
  then have "c \<noteq> CHR ''-''" "c \<noteq> CHR ''+''" using decimal_hd [OF d] by auto
  moreover have "nat n < 2 ^ 63 \<longleftrightarrow> n < 2 ^ 63" using False by auto
  ultimately show ?thesis
    using False d read_decimal_decimal [of "nat n"] by (simp add: FormatInt_def ParseInt_def ParseUint_def Let_def)
qed

end
