(* ===== verification/Go_Json.thy ===== *)
theory Go_Json
  imports Go_Text
begin

text \<open>
  The part of \<^verbatim>\<open>encoding/json\<close> that the example programs use: the quoted form of a
  string, a reader for JSON texts, and the rule by which a member of an object finds its
  struct field.  The reader has fuel, twice the length of the text, which is more than it can
  use: a call that does not consume a character is followed by one that does.
\<close>

section \<open>Writing strings\<close>

definition hex_digit :: "nat \<Rightarrow> char" where
  "hex_digit d = char_of (if d < 10 then 48 + d else 87 + d)"

abbreviation "quotation \<equiv> CHR 0x22"
abbreviation "backslash \<equiv> CHR 0x5C"

text \<open>\<open>Marshal\<close> also escapes the characters that are special in HTML.\<close>

definition escape :: "char \<Rightarrow> string" where
  "escape c =
     (if c = quotation \<or> c = backslash then [backslash, c]
      else if code c = 10 then [backslash, CHR ''n'']
      else if code c = 13 then [backslash, CHR ''r'']
      else if code c = 9 then [backslash, CHR ''t'']
      else if code c < 32 \<or> c = CHR ''<'' \<or> c = CHR ''>'' \<or> c = CHR ''&''
      then [backslash, CHR ''u'', CHR ''0'', CHR ''0'', hex_digit (code c div 16), hex_digit (code c mod 16)]
      else [c])"

definition quote :: "string \<Rightarrow> string" where
  "quote s = quotation # concat (map escape s) @ [quotation]"

section \<open>Reading strings\<close>

definition hex_val :: "char \<Rightarrow> nat option" where
  "hex_val c =
     (if 48 \<le> code c \<and> code c \<le> 57 then Some (code c - 48)
      else if 97 \<le> code c \<and> code c \<le> 102 then Some (code c - 87)
      else if 65 \<le> code c \<and> code c \<le> 70 then Some (code c - 55)
      else None)"

fun read_hex4 :: "string \<Rightarrow> (nat \<times> string) option" where
  "read_hex4 (a # b # c # d # rest) =
     (case (hex_val a, hex_val b, hex_val c, hex_val d) of
        (Some w, Some x, Some y, Some z) \<Rightarrow> Some (((w * 16 + x) * 16 + y) * 16 + z, rest)
      | _ \<Rightarrow> None)"
| "read_hex4 _ = None"

text \<open>The UTF-8 form of a code point.\<close>

definition utf8 :: "nat \<Rightarrow> string" where
  "utf8 r =
     (if r < 0x80 then [char_of r]
      else if r < 0x800 then [char_of (0xC0 + r div 64), char_of (0x80 + r mod 64)]
      else if r < 0x10000 then [char_of (0xE0 + r div 4096), char_of (0x80 + r div 64 mod 64), char_of (0x80 + r mod 64)]
      else [char_of (0xF0 + r div 262144), char_of (0x80 + r div 4096 mod 64), char_of (0x80 + r div 64 mod 64),
            char_of (0x80 + r mod 64)])"

text \<open>A first half of a surrogate pair needs its second half; a lone half is replaced.\<close>

definition read_unicode :: "string \<Rightarrow> (string \<times> string) option" where
  "read_unicode s =
     (case read_hex4 s of
        None \<Rightarrow> None
      | Some (r, rest) \<Rightarrow>
          if 0xD800 \<le> r \<and> r < 0xE000 then
            (case rest of
               a # b # rest2 \<Rightarrow>
                 (case (if a = backslash \<and> b = CHR ''u'' then read_hex4 rest2 else None) of
                    Some (r2, rest3) \<Rightarrow>
                      if r < 0xDC00 \<and> 0xDC00 \<le> r2 \<and> r2 < 0xE000
                      then Some (utf8 ((r - 0xD800) * 1024 + (r2 - 0xDC00) + 0x10000), rest3)
                      else Some (utf8 0xFFFD, rest)
                  | None \<Rightarrow> Some (utf8 0xFFFD, rest))
             | _ \<Rightarrow> Some (utf8 0xFFFD, rest))
          else Some (utf8 r, rest))"

fun read_escape :: "string \<Rightarrow> (string \<times> string) option" where
  "read_escape [] = None"
| "read_escape (c # cs) =
     (if c = quotation \<or> c = backslash \<or> c = CHR ''/'' then Some ([c], cs)
      else if c = CHR ''b'' then Some ([CHR 0x08], cs)
      else if c = CHR ''f'' then Some ([CHR 0x0C], cs)
      else if c = CHR ''n'' then Some ([CHR 0x0A], cs)
      else if c = CHR ''r'' then Some ([CHR 0x0D], cs)
      else if c = CHR ''t'' then Some ([CHR 0x09], cs)
      else if c = CHR ''u'' then read_unicode cs
      else None)"

lemma read_hex4_shorter: "read_hex4 s = Some (n, rest) \<Longrightarrow> length rest < length s"
  by (induction s rule: read_hex4.induct) (auto split: option.splits)

lemma read_unicode_shorter: "read_unicode s = Some (t, rest) \<Longrightarrow> length rest < length s"
  unfolding read_unicode_def
  by (auto split: option.splits if_splits list.splits dest!: read_hex4_shorter)

lemma read_escape_shorter: "read_escape s = Some (t, rest) \<Longrightarrow> length rest < length s"
  by (cases s) (auto split: if_splits dest: read_unicode_shorter)

text \<open>The rest of a string literal after its opening quotation mark.\<close>

function read_string :: "string \<Rightarrow> (string \<times> string) option" where
  "read_string [] = None"
| "read_string (c # cs) =
     (if c = quotation then Some ([], cs)
      else if c = backslash then
        (case read_escape cs of
           None \<Rightarrow> None
         | Some (x, rest) \<Rightarrow> map_option (\<lambda>(s, r). (x @ s, r)) (read_string rest))
      else if code c < 32 then None
      else map_option (\<lambda>(s, r). (c # s, r)) (read_string cs))"
  by pat_completeness auto

termination
  by (relation "measure length") (auto dest: read_escape_shorter)

lemma hex_val_digit [simp]: "d < 16 \<Longrightarrow> hex_val (hex_digit d) = Some d"
  by (auto simp: hex_val_def hex_digit_def)

lemma read_escape_escape:
  assumes "escape c \<noteq> [c]"
  shows "\<exists>t. escape c = backslash # t \<and> read_escape (t @ rest) = Some ([c], rest)"
proof -
  have hex: "read_escape ([CHR ''u'', CHR ''0'', CHR ''0'', hex_digit (code c div 16), hex_digit (code c mod 16)] @ rest) = Some ([c], rest)"
    if "code c < 128"
  proof -
    have "hex_val (CHR ''0'') = Some 0" by (simp add: hex_val_def)
    moreover have "code c div 16 * 16 + code c mod 16 = code c" by simp
    ultimately show ?thesis using that by (simp add: read_unicode_def utf8_def)
  qed
  have eq: "c = CHR 0x0A" if "code c = 10" using that by (intro of_char_eqI [where 'a = nat]) simp
  have eq2: "c = CHR 0x0D" if "code c = 13" using that by (intro of_char_eqI [where 'a = nat]) simp
  have eq3: "c = CHR 0x09" if "code c = 9" using that by (intro of_char_eqI [where 'a = nat]) simp
  show ?thesis using assms hex eq eq2 eq3 by (auto simp: escape_def split: if_splits)
qed

lemma escape_plain: "escape c = [c] \<Longrightarrow> c \<noteq> quotation \<and> c \<noteq> backslash \<and> 32 \<le> code c"
  by (auto simp: escape_def split: if_splits)

text \<open>What was quoted is read back.\<close>

lemma read_string_quoted: "read_string (concat (map escape s) @ quotation # rest) = Some (s, rest)"
proof (induction s)
  case (Cons c cs)
  show ?case
  proof (cases "escape c = [c]")
    case True
    then show ?thesis using Cons escape_plain [OF True] by simp
  next
    case False
    then obtain t where t: "escape c = backslash # t"
      "read_escape (t @ concat (map escape cs) @ quotation # rest) = Some ([c], concat (map escape cs) @ quotation # rest)"
      using read_escape_escape [of c "concat (map escape cs) @ quotation # rest"] by blast
    then show ?thesis using Cons by simp
  qed
qed simp

section \<open>Reading values\<close>

datatype json =
    JNull | JBool bool | JNumber string | JString string | JArray "json list" | JObject "(string \<times> json) list"

fun skip_space :: "string \<Rightarrow> string" where
  "skip_space [] = []"
| "skip_space (c # cs) = (if code c \<in> {9, 10, 13, 32} then skip_space cs else c # cs)"

definition is_digit :: "char \<Rightarrow> bool" where
  "is_digit c \<longleftrightarrow> 48 \<le> code c \<and> code c \<le> 57"

text \<open>The parts of a number, each with the text that follows it: the digits before the point,
  the fraction and the exponent.\<close>

definition read_digits1 :: "string \<Rightarrow> (string \<times> string) option" where
  "read_digits1 s = (case takeWhile is_digit s of [] \<Rightarrow> None | ds \<Rightarrow> Some (ds, dropWhile is_digit s))"

definition read_whole :: "string \<Rightarrow> (string \<times> string) option" where
  "read_whole s = (case s of c # cs \<Rightarrow> if c = CHR ''0'' then Some ([c], cs) else read_digits1 s | [] \<Rightarrow> None)"

definition read_fraction :: "string \<Rightarrow> (string \<times> string) option" where
  "read_fraction s =
     (case s of c # cs \<Rightarrow> if c = CHR ''.'' then map_option (apfst ((#) c)) (read_digits1 cs) else Some ([], s)
      | [] \<Rightarrow> Some ([], s))"

definition read_sign :: "string \<Rightarrow> string \<times> string" where
  "read_sign s = (case s of c # cs \<Rightarrow> if c = CHR ''+'' \<or> c = CHR ''-'' then ([c], cs) else ([], s) | [] \<Rightarrow> ([], s))"

definition read_exponent :: "string \<Rightarrow> (string \<times> string) option" where
  "read_exponent s =
     (case s of
        c # cs \<Rightarrow>
          if c = CHR ''e'' \<or> c = CHR ''E''
          then (case read_sign cs of (sg, rest) \<Rightarrow> map_option (apfst (\<lambda>ds. c # sg @ ds)) (read_digits1 rest))
          else Some ([], s)
      | [] \<Rightarrow> Some ([], s))"

definition read_number :: "string \<Rightarrow> (string \<times> string) option" where
  "read_number s =
     (let (sg, s1) = (case s of c # cs \<Rightarrow> if c = CHR ''-'' then ([c], cs) else ([], s) | [] \<Rightarrow> ([], s)) in
      case read_whole s1 of
        None \<Rightarrow> None
      | Some (w, s2) \<Rightarrow>
          (case read_fraction s2 of
             None \<Rightarrow> None
           | Some (f, s3) \<Rightarrow> map_option (apfst (\<lambda>e. sg @ w @ f @ e)) (read_exponent s3)))"

definition read_literal :: "string \<Rightarrow> 'a \<Rightarrow> string \<Rightarrow> ('a \<times> string) option" where
  "read_literal w x s = (if take (length w) s = w then Some (x, drop (length w) s) else None)"

fun read_value :: "nat \<Rightarrow> string \<Rightarrow> (json \<times> string) option"
  and read_members :: "nat \<Rightarrow> string \<Rightarrow> ((string \<times> json) list \<times> string) option"
  and read_elements :: "nat \<Rightarrow> string \<Rightarrow> (json list \<times> string) option"
where
  "read_value 0 s = None"
| "read_value (Suc n) s =
     (case skip_space s of
        [] \<Rightarrow> None
      | c # cs \<Rightarrow>
          if c = quotation then map_option (apfst JString) (read_string cs)
          else if c = CHR ''{'' then
            (case skip_space cs of
               [] \<Rightarrow> None
             | d # ds \<Rightarrow> if d = CHR ''}'' then Some (JObject [], ds)
                        else map_option (apfst JObject) (read_members n (d # ds)))
          else if c = CHR ''['' then
            (case skip_space cs of
               [] \<Rightarrow> None
             | d # ds \<Rightarrow> if d = CHR '']'' then Some (JArray [], ds)
                        else map_option (apfst JArray) (read_elements n (d # ds)))
          else if c = CHR ''t'' then read_literal ''true'' (JBool True) (c # cs)
          else if c = CHR ''f'' then read_literal ''false'' (JBool False) (c # cs)
          else if c = CHR ''n'' then read_literal ''null'' JNull (c # cs)
          else map_option (apfst JNumber) (read_number (c # cs)))"
| "read_members 0 s = None"
| "read_members (Suc n) s =
     (case skip_space s of
        [] \<Rightarrow> None
      | c # cs \<Rightarrow>
          if c \<noteq> quotation then None
          else
            (case read_string cs of
               None \<Rightarrow> None
             | Some (k, s1) \<Rightarrow>
                 (case skip_space s1 of
                    [] \<Rightarrow> None
                  | d # s2 \<Rightarrow>
                      if d \<noteq> CHR '':'' then None
                      else
                        (case read_value n s2 of
                           None \<Rightarrow> None
                         | Some (v, s3) \<Rightarrow>
                             (case skip_space s3 of
                                [] \<Rightarrow> None
                              | e # s4 \<Rightarrow>
                                  if e = CHR ''}'' then Some ([(k, v)], s4)
                                  else if e = CHR '','' then map_option (apfst ((#) (k, v))) (read_members n s4)
                                  else None)))))"
| "read_elements 0 s = None"
| "read_elements (Suc n) s =
     (case read_value n s of
        None \<Rightarrow> None
      | Some (v, s1) \<Rightarrow>
          (case skip_space s1 of
             [] \<Rightarrow> None
           | e # s2 \<Rightarrow>
               if e = CHR '']'' then Some ([v], s2)
               else if e = CHR '','' then map_option (apfst ((#) v)) (read_elements n s2)
               else None))"

text \<open>A whole text: one value and nothing but space after it.\<close>

definition read_json :: "string \<Rightarrow> json option" where
  "read_json s =
     (case read_value (2 * length s + 2) s of
        None \<Rightarrow> None
      | Some (v, rest) \<Rightarrow> if skip_space rest = [] then Some v else None)"

text \<open>A member belongs to the field whose name it has, whatever its letter case.\<close>

definition names_field :: "string \<Rightarrow> string \<Rightarrow> bool" where
  "names_field f k \<longleftrightarrow> ToLower k = ToLower f"

section \<open>The fuel is enough\<close>

lemma skip_space_le: "length (skip_space s) \<le> length s"
  by (induction s) auto

lemma skip_space_Cons: "skip_space s = c # cs \<Longrightarrow> length cs < length s"
  using skip_space_le [of s] by simp

lemma read_string_shorter: "read_string s = Some (t, rest) \<Longrightarrow> length rest < length s"
proof (induction s arbitrary: t rest rule: read_string.induct)
  case (2 c cs)
  then show ?case
    by (auto split: if_splits option.splits dest!: read_escape_shorter) (fastforce dest: less_trans)+
qed simp

lemma read_digits1_shorter: "read_digits1 s = Some (t, rest) \<Longrightarrow> length rest < length s"
proof -
  assume *: "read_digits1 s = Some (t, rest)"
  then have "rest = dropWhile is_digit s" "takeWhile is_digit s \<noteq> []" by (auto simp: read_digits1_def split: list.splits)
  moreover have "length (takeWhile is_digit s) + length (dropWhile is_digit s) = length s"
    by (metis length_append takeWhile_dropWhile_id)
  ultimately show ?thesis by (cases "takeWhile is_digit s") auto
qed

lemma read_number_shorter: "read_number s = Some (t, rest) \<Longrightarrow> length rest < length s"
proof -
  assume n: "read_number s = Some (t, rest)"
  obtain sg s1 where sg: "(case s of c # cs \<Rightarrow> if c = CHR ''-'' then ([c], cs) else ([], s) | [] \<Rightarrow> ([], s)) = (sg, s1)" by fastforce
  with n obtain w s2 f s3 e where r: "read_whole s1 = Some (w, s2)" "read_fraction s2 = Some (f, s3)" "read_exponent s3 = Some (e, rest)"
    by (auto simp: read_number_def split: option.splits)
  have "length s1 \<le> length s" using sg by (auto split: list.splits if_splits)
  moreover have "length s2 < length s1" using r(1) by (auto simp: read_whole_def split: list.splits if_splits dest: read_digits1_shorter)
  moreover have "length s3 \<le> length s2"
    using r(2) by (auto simp: read_fraction_def split: list.splits if_splits dest!: read_digits1_shorter)
  moreover have "length rest \<le> length s3"
    using r(3) by (auto simp: read_exponent_def read_sign_def split: list.splits if_splits dest!: read_digits1_shorter)
  ultimately show ?thesis by linarith
qed

lemma read_literal_shorter: "read_literal w x s = Some (y, rest) \<Longrightarrow> w \<noteq> [] \<Longrightarrow> length rest < length s"
  by (cases w; cases s) (auto simp: read_literal_def split: if_splits)

lemma read_members_Some:
  assumes "read_members (Suc n) s = Some (ms, r)"
  obtains cs k s1 s2 v s3 e s4 where "skip_space s = quotation # cs" "read_string cs = Some (k, s1)"
    "skip_space s1 = CHR '':'' # s2" "read_value n s2 = Some (v, s3)" "skip_space s3 = e # s4"
    "e = CHR ''}'' \<and> ms = [(k, v)] \<and> r = s4
     \<or> e = CHR '','' \<and> (\<exists>ms'. read_members n s4 = Some (ms', r) \<and> ms = (k, v) # ms')"
  using assms by (simp split: list.splits option.splits if_splits prod.splits) fastforce+

lemma read_elements_Some:
  assumes "read_elements (Suc n) s = Some (es, r)"
  obtains v s1 e s2 where "read_value n s = Some (v, s1)" "skip_space s1 = e # s2"
    "e = CHR '']'' \<and> r = s2 \<or> e = CHR '','' \<and> (\<exists>es'. read_elements n s2 = Some (es', r))"
  using assms by (simp split: list.splits option.splits if_splits prod.splits) fastforce+

lemma read_value_Some:
  assumes "read_value (Suc n) s = Some (v, r)"
  obtains c cs where "skip_space s = c # cs"
    "length r < length (c # cs) \<or> (\<exists>ds ms. length ds \<le> length cs \<and> read_members n ds = Some (ms, r))
     \<or> (\<exists>ds es. length ds \<le> length cs \<and> read_elements n ds = Some (es, r))"
proof -
  note goal = that
  obtain c cs where c: "skip_space s = c # cs" using assms by (cases "skip_space s") auto
  have nested: thesis if "skip_space cs = d # ds" "r = ds \<or> (\<exists>ms. read_members n (d # ds) = Some (ms, r))
      \<or> (\<exists>es. read_elements n (d # ds) = Some (es, r))" for d ds
    using that c skip_space_le [of cs] by (intro goal [OF c]) auto
  consider "c = quotation" | "c = CHR ''{''" | "c = CHR ''[''" | "c = CHR ''t''" | "c = CHR ''f''" | "c = CHR ''n''"
    | "c \<noteq> quotation" "c \<noteq> CHR ''{''" "c \<noteq> CHR ''[''" "c \<noteq> CHR ''t''" "c \<noteq> CHR ''f''" "c \<noteq> CHR ''n''" by blast
  then show thesis
  proof cases
    case 1
    then show thesis using assms c by (intro goal [OF c]) (auto dest!: read_string_shorter)
  next
    case 2
    with assms c show thesis by (cases "skip_space cs") (auto split: if_splits intro: nested)
  next
    case 3
    with assms c show thesis by (cases "skip_space cs") (auto split: if_splits intro: nested)
  next
    case 7
    then show thesis using assms c by (intro goal [OF c]) (auto dest!: read_number_shorter)
  qed (use assms c goal in \<open>auto dest!: read_literal_shorter\<close>)
qed

lemma reads_shorter:
  "(\<forall>s v r. read_value n s = Some (v, r) \<longrightarrow> length r < length s)
   \<and> (\<forall>s ms r. read_members n s = Some (ms, r) \<longrightarrow> length r < length s)
   \<and> (\<forall>s es r. read_elements n s = Some (es, r) \<longrightarrow> length r < length s)"
proof (induction n)
  case (Suc n)
  have v: "length r < length s" if h: "read_value (Suc n) s = Some (v, r)" for s v r
  proof -
    from h obtain c cs where c: "skip_space s = c # cs"
      "length r < length (c # cs) \<or> (\<exists>ds ms. length ds \<le> length cs \<and> read_members n ds = Some (ms, r))
       \<or> (\<exists>ds es. length ds \<le> length cs \<and> read_elements n ds = Some (es, r))"
      by (rule read_value_Some)
    have "length (c # cs) \<le> length s" using skip_space_le [of s] c(1) by simp
    moreover have "length r < length (c # cs)" using c(2) Suc.IH by fastforce
    ultimately show ?thesis by simp
  qed
  have m: "length r < length s" if h: "read_members (Suc n) s = Some (ms, r)" for s ms r
  proof -
    from h obtain cs k s1 s2 w s3 e s4 where p: "skip_space s = quotation # cs" "read_string cs = Some (k, s1)"
      "skip_space s1 = CHR '':'' # s2" "read_value n s2 = Some (w, s3)" "skip_space s3 = e # s4"
      "r = s4 \<or> (\<exists>ms'. read_members n s4 = Some (ms', r))" by (rule read_members_Some) blast
    have "length s3 < length s2" using Suc.IH p(4) by blast
    moreover have "length r \<le> length s4" using Suc.IH p(6) by (auto intro: less_imp_le)
    ultimately show ?thesis
      using skip_space_Cons [OF p(1)] read_string_shorter [OF p(2)] skip_space_Cons [OF p(3)] skip_space_Cons [OF p(5)] by linarith
  qed
  have "length r < length s" if h: "read_elements (Suc n) s = Some (es, r)" for s es r
  proof -
    from h obtain w s1 e s2 where p: "read_value n s = Some (w, s1)" "skip_space s1 = e # s2"
      "r = s2 \<or> (\<exists>es'. read_elements n s2 = Some (es', r))" by (rule read_elements_Some) blast
    have "length s1 < length s" using Suc.IH p(1) by blast
    moreover have "length r \<le> length s2" using Suc.IH p(3) by (auto intro: less_imp_le)
    ultimately show ?thesis using skip_space_Cons [OF p(2)] by linarith
  qed
  with v m show ?case by blast
qed simp

lemma reads_stable:
  "(\<forall>s. 2 * length s + 1 \<le> n \<longrightarrow> read_value (Suc n) s = read_value n s)
   \<and> (\<forall>s. 2 * length s + 2 \<le> n \<longrightarrow> read_members (Suc n) s = read_members n s)
   \<and> (\<forall>s. 2 * length s + 2 \<le> n \<longrightarrow> read_elements (Suc n) s = read_elements n s)"
proof (induction n)
  case (Suc n)
  then have IH: "2 * length s + 1 \<le> n \<Longrightarrow> read_value (Suc n) s = read_value n s"
    "2 * length s + 2 \<le> n \<Longrightarrow> read_members (Suc n) s = read_members n s"
    "2 * length s + 2 \<le> n \<Longrightarrow> read_elements (Suc n) s = read_elements n s" for s by blast+
  have short: "read_value n s = Some (v, r) \<Longrightarrow> length r < length s" for s v r using reads_shorter [of n] by blast
  have "read_value (Suc (Suc n)) s = read_value (Suc n) s" if l: "2 * length s + 1 \<le> Suc n" for s
  proof (cases "skip_space s")
    case (Cons c cs)
    note c = skip_space_Cons [OF Cons]
    show ?thesis
    proof (cases "skip_space cs")
      case Nil
      then show ?thesis by (simp add: Cons)
    next
      case (Cons d ds)
      then have "2 * length (d # ds) + 2 \<le> n" using skip_space_le [of cs] c l by simp
      from IH(2,3) [OF this] show ?thesis using Cons \<open>skip_space s = c # cs\<close>
        by (simp only: read_value.simps list.case)
    qed
  qed simp
  moreover have "read_members (Suc (Suc n)) s = read_members (Suc n) s" if l: "2 * length s + 2 \<le> Suc n" for s
  proof -
    have rest: "read_members (Suc n) s4 = read_members n s4" if "length s4 < length s" for s4
      using that l by (intro IH(2)) simp
    have val: "read_value (Suc n) s2 = read_value n s2" if "length s2 < length s" for s2
      using that l by (intro IH(1)) simp
    show ?thesis
    proof (cases "\<exists>c cs k s1 d s2. skip_space s = c # cs \<and> c = quotation \<and> read_string cs = Some (k, s1) \<and> skip_space s1 = d # s2")
      case True
      then obtain cs k s1 d s2 where p: "skip_space s = quotation # cs" "read_string cs = Some (k, s1)" "skip_space s1 = d # s2" by blast
      have s2: "length s2 < length s" using skip_space_Cons [OF p(1)] read_string_shorter [OF p(2)] skip_space_Cons [OF p(3)] by linarith
      have "read_members (Suc n) s4 = read_members n s4" if "read_value n s2 = Some (v, s3)" "skip_space s3 = e # s4" for v s3 e s4
        using short [OF that(1)] skip_space_Cons [OF that(2)] s2 by (intro rest) linarith
      then show ?thesis using p val [OF s2]
        by (simp only: read_members.simps list.case option.case prod.case) (simp split: option.split list.split prod.split)
    next
      case False
      have "read_members (Suc k) s = None" for k
      proof (cases "skip_space s")
        case (Cons c cs)
        show ?thesis
        proof (cases "read_string cs")
          case (Some p)
          then show ?thesis using False Cons by (cases p; cases "skip_space (snd p)") auto
        qed (simp add: Cons)
      qed simp
      then show ?thesis by (simp only:)
    qed
  qed
  moreover have "read_elements (Suc (Suc n)) s = read_elements (Suc n) s" if l: "2 * length s + 2 \<le> Suc n" for s
  proof -
    have val: "read_value (Suc n) s = read_value n s" using l by (intro IH(1)) simp
    have "read_elements (Suc n) s2 = read_elements n s2" if "read_value n s = Some (v, s1)" "skip_space s1 = e # s2" for v s1 e s2
      using short [OF that(1)] skip_space_Cons [OF that(2)] l by (intro IH(3)) linarith
    then show ?thesis using val by (simp only: read_elements.simps) (simp split: option.split list.split prod.split)
  qed
  ultimately show ?case by blast
qed simp

text \<open>More fuel than \<open>read_json\<close> gives changes nothing.\<close>

lemma read_value_fuel: "2 * length s + 2 \<le> n \<Longrightarrow> read_value n s = read_value (2 * length s + 2) s"
proof (induction n rule: dec_induct)
  case (step n)
  then show ?case using reads_stable [of n] by simp
qed simp

section \<open>Reading numbers\<close>

lemma read_digits1_decimal:
  assumes "\<not> is_digit c"
  shows "read_digits1 (decimal n @ c # rest) = Some (decimal n, c # rest)"
proof -
  have d: "\<forall>x \<in> set (decimal n). is_digit x" using decimal_digits by (auto simp: is_digit_def)
  have "takeWhile is_digit (decimal n @ c # rest) = decimal n" "dropWhile is_digit (decimal n @ c # rest) = c # rest"
    using d assms by (simp_all add: takeWhile_append2 dropWhile_append2)
  then show ?thesis by (cases "decimal n") (simp_all add: read_digits1_def)
qed

lemma read_number_FormatInt: "read_number (FormatInt i @ CHR ''}'' # rest) = Some (FormatInt i, CHR ''}'' # rest)"
proof -
  have brace: "\<not> is_digit (CHR ''}'')" by (simp add: is_digit_def)
  have w: "read_whole (decimal n @ CHR ''}'' # rest) = Some (decimal n, CHR ''}'' # rest)" for n
  proof (cases "decimal n")
    case (Cons c cs)
    then show ?thesis using decimal_zero [of n cs] read_digits1_decimal [OF brace, of n rest]
      by (cases "c = CHR ''0''") (auto simp: read_whole_def)
  qed simp
  have e: "read_fraction (CHR ''}'' # rest) = Some ([], CHR ''}'' # rest)" "read_exponent (CHR ''}'' # rest) = Some ([], CHR ''}'' # rest)"
    by (simp_all add: read_fraction_def read_exponent_def)
  show ?thesis
  proof (cases "i < 0")
    case True
    then show ?thesis using w e by (simp add: FormatInt_def read_number_def)
  next
    case False
    obtain c cs where d: "decimal (nat i) = c # cs" by (cases "decimal (nat i)") auto
    then have "c \<noteq> CHR ''-''" using decimal_hd [OF d] by auto
    then show ?thesis using False w [of "nat i"] e d by (simp add: FormatInt_def read_number_def)
  qed
qed

lemma read_value_FormatInt:
  "read_value (Suc n) (FormatInt i @ CHR ''}'' # rest) = Some (JNumber (FormatInt i), CHR ''}'' # rest)"
proof -
  obtain c cs where c: "FormatInt i = c # cs" "c = CHR ''-'' \<or> 48 \<le> code c \<and> code c \<le> 57"
    using decimal_hd by (cases "i < 0"; cases "decimal (nat i)") (auto simp: FormatInt_def)
  then have "skip_space (FormatInt i @ CHR ''}'' # rest) = c # cs @ CHR ''}'' # rest" by auto
  moreover have "c \<notin> {quotation, CHR ''{'', CHR ''['', CHR ''t'', CHR ''f'', CHR ''n''}" using c(2) by auto
  ultimately show ?thesis using read_number_FormatInt [of i rest] c(1) by simp
qed

end
