(* ===== verification/Replicas.thy ===== *)
theory Replicas
  imports Paxos_Node Go_Json
begin

text \<open>
  The two example programs, \<^verbatim>\<open>examples/kv-store\<close> and \<^verbatim>\<open>examples/counter\<close>: their
  replicated state, the JSON form of an operation, the goroutine that applies committed
  values, the command line, and the configuration they build.  Printing is output only; where
  it answers a command the model returns the text.
\<close>

section \<open>Operations and their JSON form\<close>

record Operation =
  op_Type :: string
  op_Key :: string
  op_Value :: string

definition OpSet :: string where "OpSet = ''SET''"
definition OpDel :: string where "OpDel = ''DEL''"

definition zero_Operation :: Operation where
  "zero_Operation = \<lparr>op_Type = [], op_Key = [], op_Value = []\<rparr>"

definition member :: "string \<Rightarrow> string \<Rightarrow> string" where
  "member f text = quote f @ CHR '':'' # text"

definition MarshalOperation :: "Operation \<Rightarrow> string" where
  "MarshalOperation op =
     CHR ''{'' # member ''type'' (quote (op_Type op)) @ CHR '','' # member ''key'' (quote (op_Key op))
     @ (if op_Value op = [] then [] else CHR '','' # member ''value'' (quote (op_Value op))) @ [CHR ''}'']"

text \<open>A string field takes a JSON string; \<open>null\<close> leaves it alone; anything else is an error,
  reported after the remaining members were decoded.\<close>

definition string_field :: "json \<Rightarrow> (string \<Rightarrow> 'a \<Rightarrow> 'a) \<Rightarrow> 'a \<times> bool \<Rightarrow> 'a \<times> bool" where
  "string_field v upd x =
     (case v of JString s \<Rightarrow> apfst (upd s) x | JNull \<Rightarrow> x | _ \<Rightarrow> (fst x, False))"

definition operation_member :: "string \<times> json \<Rightarrow> Operation \<times> bool \<Rightarrow> Operation \<times> bool" where
  "operation_member m x =
     (case m of (k, v) \<Rightarrow>
        if names_field ''type'' k then string_field v (\<lambda>s op. op\<lparr>op_Type := s\<rparr>) x
        else if names_field ''key'' k then string_field v (\<lambda>s op. op\<lparr>op_Key := s\<rparr>) x
        else if names_field ''value'' k then string_field v (\<lambda>s op. op\<lparr>op_Value := s\<rparr>) x
        else x)"

definition UnmarshalOperation :: "Value \<Rightarrow> Operation option" where
  "UnmarshalOperation data =
     (case read_json (of_bytes (slice_bytes data)) of
        Some JNull \<Rightarrow> Some zero_Operation
      | Some (JObject ms) \<Rightarrow>
          (case fold operation_member ms (zero_Operation, True) of (op, ok) \<Rightarrow> if ok then Some op else None)
      | _ \<Rightarrow> None)"

record Delta =
  Amount :: "64 word"

definition MarshalDelta :: "Delta \<Rightarrow> string" where
  "MarshalDelta d = CHR ''{'' # member ''amount'' (FormatInt (sint (Amount d))) @ [CHR ''}'']"

definition delta_member :: "string \<times> json \<Rightarrow> Delta \<times> bool \<Rightarrow> Delta \<times> bool" where
  "delta_member m x =
     (case m of (k, v) \<Rightarrow>
        if names_field ''amount'' k then
          (case v of
             JNumber t \<Rightarrow>
               (case ParseInt t of Some n \<Rightarrow> (fst x)\<lparr>Amount := word_of_int n\<rparr> | None \<Rightarrow> fst x, snd x \<and> ParseInt t \<noteq> None)
           | JNull \<Rightarrow> x
           | _ \<Rightarrow> (fst x, False))
        else x)"

definition UnmarshalDelta :: "Value \<Rightarrow> Delta option" where
  "UnmarshalDelta data =
     (case read_json (of_bytes (slice_bytes data)) of
        Some JNull \<Rightarrow> Some \<lparr>Amount = 0\<rparr>
      | Some (JObject ms) \<Rightarrow>
          (case fold delta_member ms (\<lparr>Amount = 0\<rparr>, True) of (d, ok) \<Rightarrow> if ok then Some d else None)
      | _ \<Rightarrow> None)"

section \<open>The replicated state\<close>

type_synonym KVStore = "string \<rightharpoonup> string"

definition NewKVStore :: KVStore where
  "NewKVStore = Map.empty"

definition kv_Apply :: "Operation \<Rightarrow> KVStore \<Rightarrow> KVStore" where
  "kv_Apply op kv =
     (if op_Type op = OpSet then kv(op_Key op \<mapsto> op_Value op)
      else if op_Type op = OpDel then go_delete (op_Key op) kv
      else kv)"

definition kv_Get :: "KVStore \<Rightarrow> string \<Rightarrow> string \<times> bool" where
  "kv_Get kv key = (go_get [] kv key, kv key \<noteq> None)"

text \<open>A counter is its \<open>int64\<close> value; addition wraps around.\<close>

type_synonym Counter = "64 word"

definition counter_Apply :: "Delta \<Rightarrow> Counter \<Rightarrow> Counter" where
  "counter_Apply d c = c + Amount d"

definition counter_Value :: "Counter \<Rightarrow> int" where
  "counter_Value c = sint c"

text \<open>The goroutine that applies what the subscription delivers; what cannot be decoded is
  logged and skipped.\<close>

definition kv_deliver :: "CommittedValue \<Rightarrow> KVStore \<Rightarrow> KVStore" where
  "kv_deliver cv kv = (case UnmarshalOperation (cv_Value cv) of None \<Rightarrow> kv | Some op \<Rightarrow> kv_Apply op kv)"

definition counter_deliver :: "CommittedValue \<Rightarrow> Counter \<Rightarrow> Counter" where
  "counter_deliver cv c = (case UnmarshalDelta (cv_Value cv) of None \<Rightarrow> c | Some d \<Rightarrow> counter_Apply d c)"

section \<open>The command line\<close>

datatype reaction =
    Proposes "8 word list"
  | Prints string
  | PrintsStatus
  | Exits
  | Nothing

definition kv_command :: "KVStore \<Rightarrow> string \<Rightarrow> reaction" where
  "kv_command kv text =
     (let line = TrimSpace text in
      if line = [] then Nothing
      else
        let parts = SplitN 3 (CHR '' '') line; cmd = ToLower (parts ! 0) in
        if cmd = ''set'' then
          if length parts < 3 then Prints ''Usage: set <key> <value>''
          else Proposes (to_bytes (MarshalOperation \<lparr>op_Type = OpSet, op_Key = parts ! 1, op_Value = parts ! 2\<rparr>))
        else if cmd = ''get'' then
          if length parts < 2 then Prints ''Usage: get <key>''
          else (case kv_Get kv (parts ! 1) of (value, ok) \<Rightarrow>
                  Prints (if ok then parts ! 1 @ '' = '' @ value else ''Key '' @ [CHR 0x27] @ parts ! 1 @ [CHR 0x27] @ '' not found''))
        else if cmd = ''del'' then
          if length parts < 2 then Prints ''Usage: del <key>''
          else Proposes (to_bytes (MarshalOperation \<lparr>op_Type = OpDel, op_Key = parts ! 1, op_Value = []\<rparr>))
        else if cmd = ''status'' then PrintsStatus
        else if cmd = ''quit'' \<or> cmd = ''exit'' then Exits
        else Prints (''Unknown command: '' @ cmd))"

definition counter_propose :: "int \<Rightarrow> reaction" where
  "counter_propose amount = Proposes (to_bytes (MarshalDelta \<lparr>Amount = word_of_int amount\<rparr>))"

definition counter_command :: "Counter \<Rightarrow> string \<Rightarrow> reaction" where
  "counter_command c text =
     (let line = TrimSpace text in
      if line = [] then Nothing
      else
        let parts = Fields line; cmd = ToLower (parts ! 0) in
        if cmd = ''add'' then
          if length parts < 2 then Prints ''Usage: add <n>''
          else (case ParseInt (parts ! 1) of
                  None \<Rightarrow> Prints (''Invalid number: '' @ parts ! 1)
                | Some n \<Rightarrow> counter_propose n)
        else if cmd = ''inc'' then counter_propose 1
        else if cmd = ''dec'' then counter_propose (- 1)
        else if cmd = ''get'' then Prints (''counter = '' @ FormatInt (counter_Value c))
        else if cmd = ''status'' then PrintsStatus
        else if cmd = ''quit'' \<or> cmd = ''exit'' then Exits
        else Prints (''Unknown command: '' @ cmd))"

section \<open>Configuration\<close>

text \<open>Both programs turn their flags into the same configuration; \<open>id\<close> is a Go \<open>int\<close>, cut to
  16 bits by the conversion to \<open>NodeID\<close>.\<close>

definition example_peers :: "string \<Rightarrow> string list" where
  "example_peers peersStr = (if peersStr \<noteq> [] then Split (CHR '','') peersStr else [])"

definition example_config :: "int \<Rightarrow> string \<Rightarrow> string \<Rightarrow> Config" where
  "example_config ident addr peersStr =
     \<lparr>cfg_NodeID = word_of_int ident, cfg_Address = addr, cfg_Peers = example_peers peersStr,
      PrepareTimeout = 0, AcceptTimeout = 0, HeartbeatInterval = 200 * Millisecond, ElectionTimeout = 1 * Second,
      MaxInFlightInstances = 0\<rparr>"

section \<open>The programs\<close>

text \<open>A program has its node and its replica.  A line of input may call \<open>Propose\<close>, with what
  the network answers, or \<open>Close\<close>; the applying goroutine takes one notification at a time.\<close>

record ('s, 'r) app =
  app_node :: "'s Node"
  app_replica :: 'r

definition app_line ::
  "'s Storage \<Rightarrow> ('r \<Rightarrow> string \<Rightarrow> reaction) \<Rightarrow> (Message \<Rightarrow> error option) \<Rightarrow> Message list \<Rightarrow> Message list \<Rightarrow> error option
     \<Rightarrow> string \<Rightarrow> ('s, 'r) app \<Rightarrow> reaction \<times> Instance result option \<times> ('s, 'r) app" where
  "app_line S command bcast msgs1 msgs2 closeErr line a =
     (let r = command (app_replica a) line in
      case r of
        Proposes d \<Rightarrow>
          (case node_Propose S bcast (Some d) msgs1 msgs2 (app_node a) of
             (res, sent, n) \<Rightarrow> (r, Some res, a\<lparr>app_node := n\<rparr>))
      | Exits \<Rightarrow> (r, None, a\<lparr>app_node := snd (node_Close S closeErr (app_node a))\<rparr>)
      | _ \<Rightarrow> (r, None, a))"

definition app_receive :: "(CommittedValue \<Rightarrow> 'r \<Rightarrow> 'r) \<Rightarrow> ('s, 'r) app \<Rightarrow> ('s, 'r) app option" where
  "app_receive deliver a =
     map_option (\<lambda>(cv, n). a\<lparr>app_node := n, app_replica := deliver cv (app_replica a)\<rparr>) (Subscribe_recv (app_node a))"

section \<open>Reading what was written\<close>

lemma skip_quote [simp]: "skip_space (quote s @ rest) = quote s @ rest"
  by (simp add: quote_def)

lemma read_quote: "quote s @ rest = quotation # (concat (map escape s) @ quotation # rest)"
  by (simp add: quote_def)

lemma read_value_quote: "read_value (Suc n) (quote s @ rest) = Some (JString s, rest)"
  by (simp add: read_quote read_string_quoted)

lemma read_members_last:
  assumes "read_value n (text @ CHR ''}'' # rest) = Some (v, CHR ''}'' # rest)"
  shows "read_members (Suc n) (member f text @ CHR ''}'' # rest) = Some ([(f, v)], rest)"
  using assms by (simp add: member_def read_quote read_string_quoted)

lemma read_members_more:
  assumes "read_value n (text @ CHR '','' # rest) = Some (v, CHR '','' # rest)"
  shows "read_members (Suc n) (member f text @ CHR '','' # rest) =
    map_option (apfst ((#) (f, v))) (read_members n rest)"
  using assms by (simp add: member_def read_quote read_string_quoted)

lemma read_object: "read_value (Suc n) (CHR ''{'' # member f text @ rest) = map_option (apfst JObject) (read_members n (member f text @ rest))"
  by (simp add: member_def quote_def)

text \<open>The fuel that \<open>read_json\<close> gives is at least the few steps needed here.\<close>

lemma read_json_object:
  assumes "\<And>n. read_members (Suc (Suc (Suc (Suc n)))) (member f text @ rest) = Some (ms, [])"
  shows "read_json (CHR ''{'' # member f text @ rest) = Some (JObject ms)"
proof -
  have "4 \<le> length (CHR ''{'' # member f text @ rest)" by (simp add: member_def quote_def)
  then obtain k where k: "2 * length (CHR ''{'' # member f text @ rest) + 2 = Suc (Suc (Suc (Suc (Suc k))))"
    by (metis add.commute add_2_eq_Suc less_eqE mult_2 numeral_Bit0 one_add_one add_Suc add.left_neutral)
  show ?thesis unfolding read_json_def k read_object assms by simp
qed

lemma read_operation:
  "read_json (MarshalOperation op) = Some (JObject ([(''type'', JString (op_Type op)), (''key'', JString (op_Key op))]
     @ (if op_Value op = [] then [] else [(''value'', JString (op_Value op))])))"
proof (cases "op_Value op = []")
  case True
  then have m: "MarshalOperation op = CHR ''{'' # member ''type'' (quote (op_Type op))
      @ (CHR '','' # member ''key'' (quote (op_Key op)) @ [CHR ''}''])" by (simp add: MarshalOperation_def)
  show ?thesis unfolding m
    by (subst read_json_object) (simp_all add: read_members_more read_members_last read_value_quote True del: read_value.simps read_members.simps)
next
  case False
  then have m: "MarshalOperation op = CHR ''{'' # member ''type'' (quote (op_Type op))
      @ (CHR '','' # member ''key'' (quote (op_Key op)) @ CHR '','' # member ''value'' (quote (op_Value op)) @ [CHR ''}''])"
    by (simp add: MarshalOperation_def)
  show ?thesis unfolding m
    by (subst read_json_object) (simp_all add: read_members_more read_members_last read_value_quote False del: read_value.simps read_members.simps)
qed

lemma Unmarshal_Marshal_Operation: "UnmarshalOperation (Some (to_bytes (MarshalOperation op))) = Some op"
  unfolding UnmarshalOperation_def slice_bytes_simps of_bytes_to_bytes read_operation
  by (cases op) (simp add: operation_member_def string_field_def names_field_def ToLower_def lower_def zero_Operation_def)

lemma Unmarshal_Marshal_Delta: "UnmarshalDelta (Some (to_bytes (MarshalDelta d))) = Some d"
proof -
  have r: "read_json (MarshalDelta d) = Some (JObject [(''amount'', JNumber (FormatInt (sint (Amount d))))])"
    unfolding MarshalDelta_def
    by (subst read_json_object) (simp_all add: read_members_last read_value_FormatInt del: read_value.simps read_members.simps)
  have "ParseInt (FormatInt (sint (Amount d))) = Some (sint (Amount d))"
    using sint_greater_eq [of "Amount d"] sint_less [of "Amount d"] by (simp add: ParseInt_FormatInt)
  then show ?thesis unfolding UnmarshalDelta_def slice_bytes_simps of_bytes_to_bytes r
    by (cases d) (simp add: delta_member_def names_field_def)
qed

section \<open>Convergence of replicas\<close>

text \<open>A replica whose next state depends on the committed value only.\<close>

locale value_replica =
  fixes deliver :: "CommittedValue \<Rightarrow> 'r \<Rightarrow> 'r"
  assumes by_value: "cv_Value x = cv_Value y \<Longrightarrow> deliver x = deliver y"
begin

lemma fold_values:
  "fold deliver xs r = fold (\<lambda>v. deliver \<lparr>cv_Instance = 0, cv_Value = v, cv_Ballot = 0\<rparr>) (map cv_Value xs) r"
proof (induction xs arbitrary: r)
  case (Cons x xs)
  have "deliver x = deliver \<lparr>cv_Instance = 0, cv_Value = cv_Value x, cv_Ballot = 0\<rparr>" by (rule by_value) simp
  with Cons show ?case by simp
qed simp

text \<open>Replicas that see the same instances in the same order.\<close>

lemma same_order:
  assumes "map cv_Instance xs = map cv_Instance ys"
    "\<And>x y. x \<in> set xs \<Longrightarrow> y \<in> set ys \<Longrightarrow> cv_Instance x = cv_Instance y \<Longrightarrow> cv_Value x = cv_Value y"
  shows "fold deliver xs r = fold deliver ys r"
proof -
  have "length xs = length ys" using assms(1) by (metis length_map)
  then have "map cv_Value xs = map cv_Value ys"
    using assms by (metis (mono_tags, lifting) length_map nth_equalityI nth_map nth_mem)
  then show ?thesis by (simp add: fold_values)
qed

end

text \<open>A replica on which the order of the operations does not matter.\<close>

locale commuting_replica = value_replica +
  assumes commute: "deliver x (deliver y r) = deliver y (deliver x r)"
begin

lemma same_multiset:
  assumes "mset (map cv_Value xs) = mset (map cv_Value ys)"
  shows "fold deliver xs r = fold deliver ys r"
proof -
  have "fold (\<lambda>v. deliver \<lparr>cv_Instance = 0, cv_Value = v, cv_Ballot = 0\<rparr>) (map cv_Value xs) =
      fold (\<lambda>v. deliver \<lparr>cv_Instance = 0, cv_Value = v, cv_Ballot = 0\<rparr>) (map cv_Value ys)"
    by (rule fold_multiset_equiv [OF _ assms]) (simp add: fun_eq_iff commute)
  then show ?thesis by (simp add: fold_values [of xs] fold_values [of ys])
qed

text \<open>Replicas that see the same instances, in whatever order.\<close>

lemma same_instances:
  assumes "distinct (map cv_Instance xs)" "distinct (map cv_Instance ys)"
    "cv_Instance ` set xs = cv_Instance ` set ys"
    "\<And>x y. x \<in> set xs \<Longrightarrow> y \<in> set ys \<Longrightarrow> cv_Instance x = cv_Instance y \<Longrightarrow> cv_Value x = cv_Value y"
  shows "fold deliver xs r = fold deliver ys r"
proof (rule same_multiset)
  define f where "f i = cv_Value (SOME x. x \<in> set xs \<and> cv_Instance x = i)" for i
  have x: "cv_Value x = f (cv_Instance x)" if "x \<in> set xs" for x
  proof -
    let ?z = "SOME z. z \<in> set xs \<and> cv_Instance z = cv_Instance x"
    have "?z \<in> set xs \<and> cv_Instance ?z = cv_Instance x" by (rule someI [of _ x]) (simp add: that)
    then have "?z = x" using assms(1) that by (auto simp: distinct_map dest: inj_onD)
    then show ?thesis by (simp add: f_def)
  qed
  have y: "cv_Value y = f (cv_Instance y)" if "y \<in> set ys" for y
  proof -
    from that assms(3) obtain x0 where "x0 \<in> set xs" "cv_Instance x0 = cv_Instance y" by (metis image_iff)
    then show ?thesis using x [of x0] assms(4) [of x0 y] that by simp
  qed
  have "mset (map cv_Instance xs) = mset (map cv_Instance ys)"
    using assms(1-3) by (metis mset_set_set set_map)
  then have "image_mset f (mset (map cv_Instance xs)) = image_mset f (mset (map cv_Instance ys))" by simp
  moreover have "map cv_Value xs = map f (map cv_Instance xs)" "map cv_Value ys = map f (map cv_Instance ys)"
    using x y by simp_all
  ultimately show "mset (map cv_Value xs) = mset (map cv_Value ys)" by (metis mset_map)
qed

end

interpretation kv: value_replica kv_deliver
  by unfold_locales (simp add: kv_deliver_def fun_eq_iff)

interpretation ctr: commuting_replica counter_deliver
  by unfold_locales (simp_all add: counter_deliver_def counter_Apply_def fun_eq_iff ac_simps split: option.splits)

section \<open>Properties\<close>

lemma TrimSpace_id:
  assumes "s \<noteq> []" "\<not> is_space (hd s)" "\<not> is_space (last s)"
  shows "TrimSpace s = s"
proof -
  obtain ys y where "s = ys @ [y]" using assms(1) by (cases s rule: rev_exhaust) auto
  moreover have "dropWhile is_space s = s" using assms(1,2) by (cases s) simp_all
  ultimately show ?thesis using assms(3) by (simp add: TrimSpace_def)
qed

lemma SplitN_word:
  assumes "sep \<notin> set w"
  shows "SplitN (Suc (Suc n)) sep (w @ sep # rest) = w # SplitN (Suc n) sep rest"
proof -
  have "dropWhile (\<lambda>c. c \<noteq> sep) (w @ sep # rest) = sep # rest" "takeWhile (\<lambda>c. c \<noteq> sep) (w @ sep # rest) = w"
    using assms by (induction w) auto
  then show ?thesis by simp
qed

lemma set_line:
  assumes "CHR '' '' \<notin> set k" "v \<noteq> []" "\<not> is_space (last v)"
  shows "TrimSpace (''set '' @ k @ '' '' @ v) = ''set '' @ k @ '' '' @ v"
    "SplitN 3 (CHR '' '') (''set '' @ k @ '' '' @ v) = [''set'', k, v]"
proof -
  define line where "line = ''set'' @ CHR '' '' # k @ CHR '' '' # v"
  have "TrimSpace line = line"
    using assms(2,3) unfolding line_def by (intro TrimSpace_id) (simp_all add: is_space_def)
  moreover have "SplitN (Suc (Suc (Suc 0))) (CHR '' '') line = [''set'', k, v]"
    unfolding line_def by (subst SplitN_word) (simp_all add: SplitN_word [OF assms(1)] del: SplitN.simps(3))
  moreover have "line = ''set '' @ k @ '' '' @ v" by (simp add: line_def)
  ultimately show "TrimSpace (''set '' @ k @ '' '' @ v) = ''set '' @ k @ '' '' @ v"
    "SplitN 3 (CHR '' '') (''set '' @ k @ '' '' @ v) = [''set'', k, v]" unfolding numeral_3_eq_3 by simp_all
qed

lemma kv_set_command:
  assumes "CHR '' '' \<notin> set k" "v \<noteq> []" "\<not> is_space (last v)"
  shows "kv_command kv (''set '' @ k @ '' '' @ v) = Proposes (to_bytes (MarshalOperation \<lparr>op_Type = OpSet, op_Key = k, op_Value = v\<rparr>))"
  unfolding kv_command_def Let_def set_line [OF assms] by (simp add: ToLower_def lower_def)

text \<open>C39. From a command to the replicas: a \<open>set\<close> command with any key without spaces and any
  value that does not end in space proposes bytes which, once committed and delivered to a
  replica in whatever state, make \<open>Get\<close> return exactly that value for exactly that key and
  leave every other key alone.\<close>

theorem kv_set_then_get:
  assumes "ascii k" "ascii v" "CHR '' '' \<notin> set k" "v \<noteq> []" "\<not> is_space (last v)"
  shows "\<exists>d. kv_command kv (''set '' @ k @ '' '' @ v) = Proposes d
    \<and> (\<forall>kv' i b. kv_Get (kv_deliver \<lparr>cv_Instance = i, cv_Value = Some d, cv_Ballot = b\<rparr> kv') k = (v, True)
        \<and> (\<forall>k'. k' \<noteq> k \<longrightarrow> kv_Get (kv_deliver \<lparr>cv_Instance = i, cv_Value = Some d, cv_Ballot = b\<rparr> kv') k' = kv_Get kv' k'))"
  using kv_set_command [OF assms(3-5)]
  by (simp add: kv_deliver_def Unmarshal_Marshal_Operation kv_Apply_def kv_Get_def go_get_def)

theorem kv_set_then_get_witness:
  "\<exists>d. kv_command NewKVStore ''set color dark blue'' = Proposes d
     \<and> kv_Get (kv_deliver \<lparr>cv_Instance = 1, cv_Value = Some d, cv_Ballot = 65537\<rparr> NewKVStore) ''color'' = (''dark blue'', True)"
  using kv_set_then_get [of "''color''" "''dark blue''" NewKVStore] by (simp add: ascii_def is_space_def) blast

text \<open>JSON form of the replicated operations: what \<open>Marshal\<close> writes for an operation with
  ASCII strings, or for any delta, \<open>Unmarshal\<close> reads back exactly, quotation marks, control
  characters and negative numbers included.\<close>

theorem replicated_json_round_trip:
  assumes "ascii (op_Type op)" "ascii (op_Key op)" "ascii (op_Value op)"
  shows "UnmarshalOperation (Some (to_bytes (MarshalOperation op))) = Some op
    \<and> UnmarshalDelta (Some (to_bytes (MarshalDelta d))) = Some d"
  by (simp add: Unmarshal_Marshal_Operation Unmarshal_Marshal_Delta)

theorem replicated_json_round_trip_witness:
  "UnmarshalOperation (Some (to_bytes (MarshalOperation \<lparr>op_Type = OpDel, op_Key = [CHR 0x22, CHR 0x0A, CHR ''<''], op_Value = []\<rparr>)))
     = Some \<lparr>op_Type = OpDel, op_Key = [CHR 0x22, CHR 0x0A, CHR ''<''], op_Value = []\<rparr>"
  using replicated_json_round_trip [of "\<lparr>op_Type = OpDel, op_Key = [CHR 0x22, CHR 0x0A, CHR ''<''], op_Value = []\<rparr>"]
  by (simp add: ascii_def OpDel_def)

lemma Fields_two:
  assumes "w \<noteq> []" "s \<noteq> []" "\<forall>c \<in> set w. \<not> is_space c" "\<forall>c \<in> set s. \<not> is_space c"
  shows "Fields (w @ CHR '' '' # s) = [w, s]"
proof -
  have sp: "is_space (CHR '' '')" by (simp add: is_space_def)
  obtain a w' where w: "w = a # w'" using assms(1) by (cases w) auto
  obtain c s' where s: "s = c # s'" using assms(2) by (cases s) auto
  have all: "takeWhile (\<lambda>c. \<not> is_space c) s' = s'" "dropWhile (\<lambda>c. \<not> is_space c) s' = []" using assms(4) s by auto
  have one: "Fields (CHR '' '' # s) = [s]"
    using assms(4) s sp by (subst Fields.simps) (simp add: all Fields.simps [of "[]"])
  have "dropWhile (\<lambda>c. \<not> is_space c) (w' @ CHR '' '' # s) = CHR '' '' # s"
    "takeWhile (\<lambda>c. \<not> is_space c) (w' @ CHR '' '' # s) = w'"
    using assms(3) w sp by (induction w') (auto simp: takeWhile_append2 dropWhile_append2)
  then show ?thesis using assms(3) w one by (subst Fields.simps) simp
qed

text \<open>The counter's \<open>add\<close> command: for every number that fits into 64 bits, in decimal with
  its sign, the command proposes bytes that add it, modulo 2^64, to any replica they are
  delivered to; a number that does not fit is reported as invalid and nothing is proposed.\<close>

theorem counter_add_command:
  "counter_command c (''add '' @ FormatInt n) =
     (if - (2 ^ 63) \<le> n \<and> n < 2 ^ 63
      then Proposes (to_bytes (MarshalDelta \<lparr>Amount = word_of_int n\<rparr>))
      else Prints (''Invalid number: '' @ FormatInt n))
   \<and> counter_deliver \<lparr>cv_Instance = i, cv_Value = Some (to_bytes (MarshalDelta \<lparr>Amount = word_of_int n\<rparr>)), cv_Ballot = b\<rparr> c'
       = c' + word_of_int n"
proof -
  define line where "line = ''add'' @ CHR '' '' # FormatInt n"
  have nsp: "\<not> is_space x" if "x \<in> set (FormatInt n)" for x
    using that decimal_digits by (force simp: FormatInt_def is_space_def split: if_splits)
  have ne: "FormatInt n \<noteq> []" by (simp add: FormatInt_def)
  have t: "TrimSpace line = line"
    using nsp ne unfolding line_def by (intro TrimSpace_id) (simp_all add: is_space_def)
  have f: "Fields line = [''add'', FormatInt n]"
    using ne nsp unfolding line_def by (intro Fields_two) (auto simp: is_space_def)
  have "line \<noteq> []" by (simp add: line_def)
  then have "counter_command c line = (if - (2 ^ 63) \<le> n \<and> n < 2 ^ 63
      then Proposes (to_bytes (MarshalDelta \<lparr>Amount = word_of_int n\<rparr>)) else Prints (''Invalid number: '' @ FormatInt n))"
    by (simp add: counter_command_def t f counter_propose_def ToLower_def lower_def ParseInt_FormatInt)
  then show ?thesis
    by (simp add: line_def counter_deliver_def Unmarshal_Marshal_Delta counter_Apply_def)
qed

text \<open>The configuration the example programs build from their flags is valid exactly if the
  identifier is not a multiple of 65536, the address is not empty and at least one peer is
  named; without peers the node is refused, although the programs announce that they run as a
  single node.\<close>

theorem example_config_valid:
  "Validate (WithDefaults (example_config ident addr peersStr)) =
     (if ident mod 65536 = 0 then Some ErrInvalidNodeID
      else if addr = [] then Some ErrInvalidAddress
      else if peersStr = [] then Some ErrNoPeers
      else None)"
proof -
  have "(word_of_int ident :: NodeID) = 0 \<longleftrightarrow> ident mod 65536 = 0"
    by (simp add: word_of_int_eq_0_iff mod_eq_0_iff_dvd)
  moreover have "Split sep s \<noteq> []" for sep s by (cases s) (auto split: list.splits)
  ultimately show ?thesis
    by (simp add: Validate_def example_config_def example_peers_def WithDefaults_def Millisecond_def Second_def)
qed

end
