(* ===== verification/Cluster_Replicas.thy ===== *)
theory Cluster_Replicas
  imports Cluster_Safety Replicas
begin

text \<open>
  The example programs on a cluster: a replica at each node applies what the node's
  subscription delivers during a run.  Counters converge in whatever order the committed
  values arrive; key-value stores converge only if they arrive in the same order, which the
  subscription does not guarantee.
\<close>

section \<open>What a subscription delivers\<close>

fun deliveries :: "'s Storage \<Rightarrow> NodeID set \<Rightarrow> NodeID \<Rightarrow> event list \<Rightarrow> 's cluster \<Rightarrow> CommittedValue list" where
  "deliveries S M a [] s = []"
| "deliveries S M a (e # es) s =
     (case exec S M e s of
        None \<Rightarrow> []
      | Some s' \<Rightarrow>
          (if e = EvReceive a then (case Subscribe_recv (nodes s a) of None \<Rightarrow> [] | Some (cv, _) \<Rightarrow> [cv]) else [])
          @ deliveries S M a es s')"

definition kv_replica :: "'s Storage \<Rightarrow> NodeID set \<Rightarrow> NodeID \<Rightarrow> event list \<Rightarrow> 's cluster \<Rightarrow> KVStore" where
  "kv_replica S M a es s = fold kv_deliver (deliveries S M a es s) NewKVStore"

definition counter_replica :: "'s Storage \<Rightarrow> NodeID set \<Rightarrow> NodeID \<Rightarrow> event list \<Rightarrow> 's cluster \<Rightarrow> Counter" where
  "counter_replica S M a es s = fold counter_deliver (deliveries S M a es s) 0"

text \<open>Everything delivered or waiting is committed, and no instance comes twice.\<close>

definition history_ok :: "CommittedValue list \<Rightarrow> 's Node \<Rightarrow> bool" where
  "history_ok h n \<longleftrightarrow> distinct (map cv_Instance (h @ commitCh n))
     \<and> (\<forall>cv \<in> set (h @ commitCh n). committed n (cv_Instance cv) = Some cv)"

definition same_learner :: "'s Node \<Rightarrow> 's Node \<Rightarrow> bool" where
  "same_learner n n' \<longleftrightarrow> committed n' = committed n \<and> commitCh n' = commitCh n"

lemma same_learner_refl [simp]: "same_learner n n"
  by (simp add: same_learner_def)

lemma history_okD: "history_ok h n \<Longrightarrow> cv \<in> set h \<Longrightarrow> committed n (cv_Instance cv) = Some cv"
  by (simp add: history_ok_def)

lemma history_cong: "same_learner n n' \<Longrightarrow> history_ok h n \<Longrightarrow> history_ok h n'"
  by (simp add: same_learner_def history_ok_def)

lemma history_commit: "history_ok h n \<Longrightarrow> history_ok h (handleCommit S b i v n)"
proof (cases "committed n i = None")
  case True
  assume h: "history_ok h n"
  have "i \<notin> cv_Instance ` set (h @ commitCh n)"
  proof
    assume "i \<in> cv_Instance ` set (h @ commitCh n)"
    then obtain cv where "cv \<in> set (h @ commitCh n)" "cv_Instance cv = i" by blast
    then have "committed n i = Some cv" using h by (auto simp: history_ok_def)
    with True show False by simp
  qed
  then show ?thesis using h True by (auto simp: history_ok_def handleCommit_new)
qed simp

text \<open>What one event does to the learner of a node.\<close>

lemma handleMessage_learner:
  assumes "handleMessage S now rnd f m n = Some (n', out)"
  shows "same_learner n n' \<or> (\<exists>b i v. n' = handleCommit S b i v n)"
  using assms
  by (cases m) (auto simp: handleMessage_def same_learner_def split: prod.splits elim!: handleHeartbeat_cases)

lemma fold_send_nodes [simp]: "nodes (fold (send a ds) out s) = nodes s"
  by (induction out arbitrary: s) simp_all

lemma fold_reply_nodes [simp]: "nodes (fold (\<lambda>(d, r). send a (g d) r) out s) = nodes s"
  by (induction out arbitrary: s) auto

lemma after_phase_learner:
  "same_learner (nodes s c) (nodes (after_phase1 a i r w s) c)" "same_learner (nodes s c) (nodes (after_phase2 a i r2 w s) c)"
  by (auto simp: after_phase1_def after_phase2_def same_learner_def Let_def split: progress.splits sum.splits option.splits)

lemma exec_learner:
  assumes x: "exec S M e s = Some s'" and r: "\<And>a. e \<noteq> EvRestart a" and c: "e \<noteq> EvReceive c"
  shows "same_learner (nodes s c) (nodes s' c) \<or> (\<exists>b i v. same_learner (handleCommit S b i v (nodes s c)) (nodes s' c))"
proof (cases e)
  case (EvDeliver pkt now rnd up)
  obtain f a m where p: "pkt = (f, a, m)" by (metis prod_cases3)
  then obtain n' out where h: "handleMessage S now rnd f m (nodes s a) = Some (n', out)" and ns: "nodes s' = (nodes s)(a := n')"
    using x EvDeliver by (auto split: if_splits)
  show ?thesis
  proof (cases "c = a")
    case True
    then show ?thesis using handleMessage_learner [OF h] ns by (metis fun_upd_same same_learner_refl)
  qed (simp add: ns)
next
  case (EvOwn1 a i)
  then obtain r acc sto where "s' = after_phase1 a i r Phase1Cast (upd_node a ((nodes s a)\<lparr>acceptor := acc, storage := sto\<rparr>) s)"
    using x by (auto simp: Let_def split: option.splits pc.splits if_splits prod.splits)
  then show ?thesis using after_phase_learner(1) [of "upd_node a ((nodes s a)\<lparr>acceptor := acc, storage := sto\<rparr>) s" c a i r Phase1Cast]
    by (auto simp: same_learner_def)
next
  case (EvOwn2 a i)
  then obtain r acc sto where "s' = after_phase2 a i r Phase2Cast (upd_node a ((nodes s a)\<lparr>acceptor := acc, storage := sto\<rparr>) s)"
    using x by (auto simp: Let_def split: option.splits pc.splits if_splits prod.splits)
  then show ?thesis using after_phase_learner(2) [of "upd_node a ((nodes s a)\<lparr>acceptor := acc, storage := sto\<rparr>) s" c a i r Phase2Cast]
    by (auto simp: same_learner_def)
next
  case (EvRecv1 a i)
  then obtain r m s1 where t: "take_response a i s = Some (m, s1)" and s': "s' = after_phase1 a i r Phase1Wait s1"
    using x by (auto split: option.splits pc.splits if_splits)
  have "same_learner (nodes s c) (nodes s1 c)" by (rule take_response_Some [OF t]) (simp add: same_learner_def)
  then show ?thesis using after_phase_learner(1) [of s1 c a i r Phase1Wait] s' by (simp add: same_learner_def)
next
  case (EvRecv2 a i)
  then obtain r m s1 where t: "take_response a i s = Some (m, s1)" and s': "s' = after_phase2 a i r Phase2Wait s1"
    using x by (auto split: option.splits pc.splits if_splits)
  have "same_learner (nodes s c) (nodes s1 c)" by (rule take_response_Some [OF t]) (simp add: same_learner_def)
  then show ?thesis using after_phase_learner(2) [of s1 c a i r Phase2Wait] s' by (simp add: same_learner_def)
next
  case (EvStart a err now rnd)
  then show ?thesis using x
    by (auto simp: same_learner_def Start_def Let_def dest!: resetElectionDeadline_Some split: if_splits option.splits)
next
  case (EvUpdate a now rnd)
  then show ?thesis using x by (auto simp: same_learner_def take_leadership_def dest!: resetElectionDeadline_Some split: if_splits)
next
  case (EvBackoff a now rnd)
  then show ?thesis using x by (auto simp: same_learner_def dest!: resetElectionDeadline_Some split: if_splits)
next
  case (EvLead a)
  then show ?thesis using x by (auto simp: same_learner_def Let_def split: if_splits option.splits pc.splits)
next
  case (EvTick a now rnd ds)
  then show ?thesis using x
    by (auto simp: same_learner_def Let_def checkLeaderAndHeartbeat_def dest!: resetElectionDeadline_Some split: if_splits)
next
  case (EvCommitOwn a i)
  then obtain st where "pending (proposer (nodes s a)) i = Some st" "s' = set_pc a i (Some CommitCast) (upd_node a (handleCommit S (ps_ballot st) i (ps_value st) (nodes s a)) s)"
    using x by (auto split: option.splits pc.splits if_splits)
  then have ns: "nodes s' = (nodes s)(a := handleCommit S (ps_ballot st) i (ps_value st) (nodes s a))" by simp
  show ?thesis
  proof (cases "c = a")
    case True
    then show ?thesis using ns by (metis fun_upd_same same_learner_refl)
  qed (simp add: ns)
next
  case (EvReceive a)
  then show ?thesis using x c by (auto split: if_splits)
next
  case (EvPropose a v)
  then show ?thesis using x by (auto simp: same_learner_def Let_def split: if_splits prod.splits)
next
  case (EvElect a)
  then show ?thesis using x by (auto simp: same_learner_def Let_def split: if_splits prod.splits)
next
  case (EvRestart a)
  with r show ?thesis by blast
qed (use x in \<open>auto simp: same_learner_def split: option.splits pc.splits if_splits\<close>)

lemma deliveries_ok:
  assumes "run S M es s = Some s'" "\<And>a. EvRestart a \<notin> set es" "history_ok h (nodes s c)"
  shows "history_ok (h @ deliveries S M c es s) (nodes s' c)"
  using assms
proof (induction es arbitrary: s h)
  case (Cons e es)
  from Cons.prems(1) obtain s1 where e: "exec S M e s = Some s1" and es: "run S M es s1 = Some s'" by (auto split: option.splits)
  have nr: "\<And>a. e \<noteq> EvRestart a" "\<And>a. EvRestart a \<notin> set es" using Cons.prems(2) by auto
  show ?case
  proof (cases "e = EvReceive c")
    case True
    with e obtain cv n where r: "Subscribe_recv (nodes s c) = Some (cv, n)" "nodes s1 c = n" by (auto split: if_splits)
    from r(1) have "commitCh (nodes s c) = cv # commitCh n" "committed n = committed (nodes s c)"
      by (auto simp: Subscribe_recv_def split: list.splits)
    then have "history_ok (h @ [cv]) (nodes s1 c)" using Cons.prems(3) r(2) by (simp add: history_ok_def)
    from Cons.IH [OF es nr(2) this] show ?thesis using e r True by simp
  next
    case False
    have "history_ok h (nodes s1 c)"
      using exec_learner [OF e nr(1) False] Cons.prems(3) by (blast intro: history_cong history_commit)
    from Cons.IH [OF es nr(2) this] show ?thesis using e False by simp
  qed
qed simp

section \<open>Convergence\<close>

lemma init_history:
  assumes "cluster_init S fresh M s" "a \<in> M"
  shows "history_ok [] (nodes s a)"
proof -
  from assms obtain st cfg where "NewNode S st cfg = Inr (nodes s a)" by (auto simp: cluster_init_def)
  then have "commitCh (nodes s a) = []" by (rule NewNode_cases)
  then show ?thesis by (simp add: history_ok_def)
qed

lemma R_agree:
  assumes R: "R saved logged ok M V \<sigma> s" and "a \<in> M" "c \<in> M"
    "committed (nodes s a) i = Some x" "committed (nodes s c) i = Some y"
  shows "cv_Value x = cv_Value y"
  using R_learned [OF R assms(2,4)] R_learned [OF R assms(3,5)] maj.agreement [OF R_D(3) [OF R]]
  by (auto simp: learned_def)

lemma deliveries_agree:
  assumes contract: "storage_contract S saved logged ok" and init: "cluster_init S (blank saved logged ok) M s0"
    and run: "run S M es s0 = Some s" "careful_events S M V es s0" "\<And>a. EvRestart a \<notin> set es"
    and aM: "a \<in> M" "c \<in> M"
  shows "distinct (map cv_Instance (deliveries S M a es s0))"
    and "x \<in> set (deliveries S M a es s0) \<Longrightarrow> y \<in> set (deliveries S M c es s0) \<Longrightarrow> cv_Instance x = cv_Instance y
      \<Longrightarrow> cv_Value x = cv_Value y"
proof -
  have h: "history_ok (deliveries S M b es s0) (nodes s b)" if "b \<in> M" for b
    using deliveries_ok [OF run(1,3) init_history [OF init that]] by simp
  show "distinct (map cv_Instance (deliveries S M a es s0))" using h [OF aM(1)] by (simp add: history_ok_def)
  assume xy: "x \<in> set (deliveries S M a es s0)" "y \<in> set (deliveries S M c es s0)" "cv_Instance x = cv_Instance y"
  have "M \<noteq> {}" using aM by blast
  then obtain \<sigma> where R: "R saved logged ok M V \<sigma> s"
    using storage_contract.careful_run_refines [OF contract init careful_events_run [OF run(1,2)]] by blast
  show "cv_Value x = cv_Value y"
    using R_agree [OF R aM history_okD [OF h [OF aM(1)] xy(1)]] history_okD [OF h [OF aM(2)] xy(2)] xy(3) by simp
qed

text \<open>C10. Replicated programs converge.  In a careful run without restarts, two counter replicas
  whose subscriptions have delivered the same instances have the same value, whatever the order
  of delivery; two key-value replicas whose subscriptions have delivered the same instances in
  the same order have the same contents.\<close>

theorem replicas_converge:
  assumes "storage_contract S saved logged ok" "cluster_init S (blank saved logged ok) M s0"
    "run S M es s0 = Some s" "careful_events S M V es s0" "\<forall>a. EvRestart a \<notin> set es" "a \<in> M" "c \<in> M"
  shows "(cv_Instance ` set (deliveries S M a es s0) = cv_Instance ` set (deliveries S M c es s0) \<longrightarrow>
      counter_replica S M a es s0 = counter_replica S M c es s0)
    \<and> (map cv_Instance (deliveries S M a es s0) = map cv_Instance (deliveries S M c es s0) \<longrightarrow>
      kv_replica S M a es s0 = kv_replica S M c es s0)"
proof -
  have nr: "\<And>a. EvRestart a \<notin> set es" using assms(5) by blast
  note ag = deliveries_agree [OF assms(1-4) nr]
  show ?thesis
    unfolding counter_replica_def kv_replica_def
  proof (intro conjI impI)
    assume "cv_Instance ` set (deliveries S M a es s0) = cv_Instance ` set (deliveries S M c es s0)"
    then show "fold counter_deliver (deliveries S M a es s0) 0 = fold counter_deliver (deliveries S M c es s0) 0"
      by (rule ctr.same_instances [OF ag(1) [OF assms(6,7)] ag(1) [OF assms(7,6)]]) (rule ag(2) [OF assms(6,7)])
  next
    assume "map cv_Instance (deliveries S M a es s0) = map cv_Instance (deliveries S M c es s0)"
    then show "fold kv_deliver (deliveries S M a es s0) NewKVStore = fold kv_deliver (deliveries S M c es s0) NewKVStore"
      by (rule kv.same_order) (rule ag(2) [OF assms(6,7)])
  qed
qed

section \<open>Two proposals at once\<close>

text \<open>All nodes start.  Node 1 runs proposals for instances 1 and 2 at the same time.  It commits instance 1
  first, but its broadcast for instance 2 comes first, so node 2 learns them in the other
  order.\<close>

definition phase_events :: "Instance \<Rightarrow> Ballot \<Rightarrow> Value \<Rightarrow> event list" where
  "phase_events i b v =
     [EvOwn1 1 i, EvCast1 1 i [2, 3], EvDeliver (1, 2, Prepare b i) 0 0 True,
      EvDeliver (2, 1, Promise b i 2 0 None) 0 0 True, EvRecv1 1 i, EvOwn2 1 i, EvCast2 1 i [2, 3],
      EvDeliver (1, 2, Accept b i v) 0 0 True, EvDeliver (2, 1, Accepted b i 2) 0 0 True, EvRecv2 1 i]"

definition crossing_events :: "Value \<Rightarrow> Value \<Rightarrow> event list" where
  "crossing_events v w =
     [EvStart 1 None 0 0, EvStart 2 None 0 0, EvStart 3 None 0 0, EvPropose 1 v, EvPropose 1 w] @ phase_events 1 65537 v @ phase_events 2 131073 w
     @ [EvCommitOwn 1 1, EvCommitOwn 1 2, EvCommitCast 1 2 [2, 3], EvCommitCast 1 1 [2, 3],
        EvDeliver (1, 2, Commit 131073 2 w) 0 0 True, EvDeliver (1, 2, Commit 65537 1 v) 0 0 True, EvReturn 1 1, EvReturn 1 2,
        EvReceive 1, EvReceive 1, EvReceive 2, EvReceive 2]"

lemma crossing_run:
  assumes v: "0 < slice_len v" "slice_len v < 2 ^ 31" and w: "0 < slice_len w" "slice_len w < 2 ^ 31"
  shows "\<exists>s. run memory_storage {1, 2, 3} (crossing_events v w) three = Some s"
    "careful_events memory_storage {1, 2, 3} {v, w} (crossing_events v w) three"
    "deliveries memory_storage {1, 2, 3} 1 (crossing_events v w) three =
       [\<lparr>cv_Instance = 1, cv_Value = v, cv_Ballot = 65537\<rparr>, \<lparr>cv_Instance = 2, cv_Value = w, cv_Ballot = 131073\<rparr>]"
    "deliveries memory_storage {1, 2, 3} 2 (crossing_events v w) three =
       [\<lparr>cv_Instance = 2, cv_Value = w, cv_Ballot = 131073\<rparr>, \<lparr>cv_Instance = 1, cv_Value = v, cv_Ballot = 65537\<rparr>]"
  using assms(1,3) value_frames [OF assms(2)] value_frames [OF assms(4)]
  by (simp_all add: cluster_eval crossing_events_def phase_events_def Subscribe_recv_def)

lemma crossing_faultless: "list_all faultless (crossing_events v w)"
  by (simp add: crossing_events_def phase_events_def)

lemma MarshalOperation_nonempty: "0 < length (to_bytes (MarshalOperation op))"
  by (simp add: MarshalOperation_def to_bytes_def)

lemmas json_eval = MarshalOperation_def MarshalDelta_def member_def quote_def escape_def OpSet_def to_bytes_def
  FormatInt_def decimal.simps

theorem replicas_converge_witness:
  "let v = Some (to_bytes (MarshalDelta \<lparr>Amount = 5\<rparr>)); w = Some (to_bytes (MarshalDelta \<lparr>Amount = 7\<rparr>)) in
   deliveries memory_storage {1, 2, 3} 1 (crossing_events v w) three \<noteq> deliveries memory_storage {1, 2, 3} 2 (crossing_events v w) three
   \<and> counter_replica memory_storage {1, 2, 3} 1 (crossing_events v w) three = counter_replica memory_storage {1, 2, 3} 2 (crossing_events v w) three"
proof -
  let ?v = "to_bytes (MarshalDelta \<lparr>Amount = 5\<rparr>)" and ?w = "to_bytes (MarshalDelta \<lparr>Amount = 7\<rparr>)"
  have l: "length ?v < 1000" "0 < length ?v" "length ?w < 1000" "0 < length ?w" by (simp_all add: json_eval)
  obtain s where s: "run memory_storage {1, 2, 3} (crossing_events (Some ?v) (Some ?w)) three = Some s"
    using crossing_run(1) [of "Some ?v" "Some ?w"] l by auto
  have c: "careful_events memory_storage {1, 2, 3} {Some ?v, Some ?w} (crossing_events (Some ?v) (Some ?w)) three"
    and d: "deliveries memory_storage {1, 2, 3} 1 (crossing_events (Some ?v) (Some ?w)) three =
       [\<lparr>cv_Instance = 1, cv_Value = Some ?v, cv_Ballot = 65537\<rparr>, \<lparr>cv_Instance = 2, cv_Value = Some ?w, cv_Ballot = 131073\<rparr>]"
    "deliveries memory_storage {1, 2, 3} 2 (crossing_events (Some ?v) (Some ?w)) three =
       [\<lparr>cv_Instance = 2, cv_Value = Some ?w, cv_Ballot = 131073\<rparr>, \<lparr>cv_Instance = 1, cv_Value = Some ?v, cv_Ballot = 65537\<rparr>]"
    using crossing_run(2-4) [of "Some ?v" "Some ?w"] l by simp_all
  have nr: "\<forall>a. EvRestart a \<notin> set (crossing_events (Some ?v) (Some ?w))" by (simp add: crossing_events_def phase_events_def)
  from replicas_converge [OF mem.storage_contract_axioms three_init s c nr, of 1 2]
  have "counter_replica memory_storage {1, 2, 3} 1 (crossing_events (Some ?v) (Some ?w)) three =
      counter_replica memory_storage {1, 2, 3} 2 (crossing_events (Some ?v) (Some ?w)) three"
    unfolding d by (simp add: insert_commute)
  then show ?thesis unfolding Let_def d by simp
qed

text \<open>C11. Key-value replicas can diverge.  For every key \<open>k\<close> and any two values \<open>x\<close> and \<open>y\<close> (ASCII
  text whose JSON form fits into a frame) there is a careful run of three started nodes, without a
  fault, in which node 1 proposes \<open>SET k x\<close> and \<open>SET k y\<close> at the same time, both are committed, and
  the subscriptions of nodes 1 and 2 have delivered the same values of the same instances; yet at
  node 1 the key is \<open>y\<close> and at node 2 it is \<open>x\<close>: the programs apply values in the order in which
  the node learned them, not by instance.\<close>

theorem kv_replicas_diverge:
  assumes "ascii k" "ascii x" "ascii y"
    "v = to_bytes (MarshalOperation \<lparr>op_Type = OpSet, op_Key = k, op_Value = x\<rparr>)" "length v < 2 ^ 31"
    "w = to_bytes (MarshalOperation \<lparr>op_Type = OpSet, op_Key = k, op_Value = y\<rparr>)" "length w < 2 ^ 31"
  shows "\<exists>es s. run memory_storage {1, 2, 3} es three = Some s \<and> list_all faultless es
     \<and> careful_events memory_storage {1, 2, 3} {Some v, Some w} es three
     \<and> set (deliveries memory_storage {1, 2, 3} 1 es three) = set (deliveries memory_storage {1, 2, 3} 2 es three)
     \<and> kv_Get (kv_replica memory_storage {1, 2, 3} 1 es three) k = (y, True)
     \<and> kv_Get (kv_replica memory_storage {1, 2, 3} 2 es three) k = (x, True)"
proof -
  have "0 < slice_len (Some v)" "slice_len (Some v) < 2 ^ 31" "0 < slice_len (Some w)" "slice_len (Some w) < 2 ^ 31"
    using assms(4-7) MarshalOperation_nonempty by (simp_all only: slice_len_simps)
  note run = crossing_run [OF this]
  have "kv_Get (kv_replica memory_storage {1, 2, 3} 1 (crossing_events (Some v) (Some w)) three) k = (y, True)"
    "kv_Get (kv_replica memory_storage {1, 2, 3} 2 (crossing_events (Some v) (Some w)) three) k = (x, True)"
    unfolding kv_replica_def run(3,4)
    by (simp_all add: assms(4,6) kv_deliver_def Unmarshal_Marshal_Operation kv_Apply_def kv_Get_def go_get_def)
  moreover have "set (deliveries memory_storage {1, 2, 3} 1 (crossing_events (Some v) (Some w)) three)
      = set (deliveries memory_storage {1, 2, 3} 2 (crossing_events (Some v) (Some w)) three)"
    unfolding run(3,4) by (simp add: insert_commute)
  ultimately show ?thesis using run(1,2) crossing_faultless by blast
qed

theorem kv_replicas_diverge_witness:
  "\<exists>es s. run memory_storage {1, 2, 3} es three = Some s
     \<and> kv_Get (kv_replica memory_storage {1, 2, 3} 1 es three) ''x'' = (''2'', True)
     \<and> kv_Get (kv_replica memory_storage {1, 2, 3} 2 es three) ''x'' = (''1'', True)"
proof -
  have l: "length (to_bytes (MarshalOperation \<lparr>op_Type = OpSet, op_Key = ''x'', op_Value = ''1''\<rparr>)) < 2 ^ 31"
    "length (to_bytes (MarshalOperation \<lparr>op_Type = OpSet, op_Key = ''x'', op_Value = ''2''\<rparr>)) < 2 ^ 31"
    by (simp_all add: json_eval)
  have a: "ascii ''x''" "ascii ''1''" "ascii ''2''" by (simp_all add: ascii_def)
  from kv_replicas_diverge [OF a refl l(1) refl l(2)] show ?thesis by blast
qed

end
