(* ===== verification/Cluster_Restart.thy ===== *)
theory Cluster_Restart
  imports Cluster_Safety
begin

text \<open>
  A restart, with all of a node's storage intact, can break agreement: the round of the proposer
  is not stored, so a restarted node uses its first ballot again, and answers to the two
  prepares of that ballot are counted as votes of different acceptors.
\<close>

section \<open>Five nodes\<close>

definition five_nodes :: "NodeID \<Rightarrow> Config" where
  "five_nodes n = (three_nodes n)\<lparr>cfg_Peers := [''localhost:9002'', ''localhost:9003'', ''localhost:9004'', ''localhost:9005'']\<rparr>"

text \<open>A new node with a given configuration and storage, before recovery finds anything.\<close>

definition five :: "MemoryStorage cluster" where
  "five = \<lparr>nodes = (\<lambda>a. (fresh_node a)\<lparr>config := WithDefaults (five_nodes a),
      proposer := SetTimeouts (1 * Second) (1 * Second) (NewProposer a (quorum_of_peers 4) 4)\<rparr>),
    procs = (\<lambda>_ _. None), running = (\<lambda>_. False), net = []\<rparr>"

lemma five_valid: "n \<noteq> 0 \<Longrightarrow> Validate (WithDefaults (five_nodes n)) = None"
  by (simp add: five_nodes_def three_nodes_def WithDefaults_def Validate_def Second_def Millisecond_def)

lemma five_new: "a \<noteq> 0 \<Longrightarrow> NewNode memory_storage NewMemoryStorage (five_nodes a) = Inr (nodes five a)"
  using five_valid [of a]
  by (simp add: NewNode_def Let_def five_def fresh_node_def NewAcceptor_Some mem_LoadAcceptorState_def recoverLog_def
      mem_GetLastInstance_def NewMemoryStorage_def zero_AcceptorState_def five_nodes_def three_nodes_def WithDefaults_def
      numeral_eq_Suc)

lemma five_init: "cluster_init memory_storage (blank acceptorState log mem_inv) {1, 2, 3, 4, 5} five"
proof -
  have "\<exists>cfg st. blank acceptorState log mem_inv st \<and> NewNode memory_storage st cfg = Inr (nodes five a)
      \<and> cfg_NodeID cfg = a \<and> length (cfg_Peers cfg) + 1 = card {1, 2, 3, 4, 5 :: NodeID}" if "a \<noteq> 0" for a
    using blank_memory five_new [OF that]
    by (intro exI [of _ "five_nodes a"] exI [of _ NewMemoryStorage]) (simp add: five_nodes_def three_nodes_def)
  then show ?thesis
    by (simp add: cluster_init_def) (simp add: five_def SetTimeouts_def NewProposer_def)
qed

text \<open>All nodes start.  Node 1 gets the value 7 chosen by nodes 1, 2 and 3, and commits it; node 5 begins a proposal.\<close>

definition before_restart :: "event list" where
  "before_restart =
     [EvStart 1 None 0 0, EvStart 2 None 0 0, EvStart 3 None 0 0, EvStart 4 None 0 0, EvStart 5 None 0 0, EvPropose 1 (Some [7]), EvOwn1 1 1, EvCast1 1 1 [2, 3, 4, 5],
      EvDeliver (1, 2, Prepare 65537 1) 0 0 True, EvDeliver (1, 3, Prepare 65537 1) 0 0 True,
      EvDeliver (2, 1, Promise 65537 1 2 0 None) 0 0 True, EvDeliver (3, 1, Promise 65537 1 3 0 None) 0 0 True,
      EvRecv1 1 1, EvRecv1 1 1, EvOwn2 1 1, EvCast2 1 1 [2, 3, 4, 5],
      EvDeliver (1, 2, Accept 65537 1 (Some [7])) 0 0 True, EvDeliver (1, 3, Accept 65537 1 (Some [7])) 0 0 True,
      EvDeliver (2, 1, Accepted 65537 1 2) 0 0 True, EvDeliver (3, 1, Accepted 65537 1 3) 0 0 True,
      EvRecv2 1 1, EvRecv2 1 1, EvCommitOwn 1 1,
      EvPropose 5 (Some [8]), EvOwn1 5 1, EvCast1 5 1 [1, 2, 3, 4]]"

text \<open>Node 5 proposes again; node 4 answers both of its prepares.\<close>

definition after_restart :: "event list" where
  "after_restart =
     [EvStart 5 None 0 0, EvPropose 5 (Some [8]), EvOwn1 5 1, EvCast1 5 1 [1, 2, 3, 4],
      EvDeliver (5, 4, Prepare 65541 1) 0 0 True, EvDeliver (5, 4, Prepare 65541 1) 0 0 True,
      EvDeliver (4, 5, Promise 65541 1 4 0 None) 0 0 True, EvDeliver (4, 5, Promise 65541 1 4 0 None) 0 0 True,
      EvRecv1 5 1, EvRecv1 5 1, EvOwn2 5 1, EvCast2 5 1 [1, 2, 3, 4],
      EvDeliver (5, 4, Accept 65541 1 (Some [8])) 0 0 True, EvDeliver (5, 2, Accept 65541 1 (Some [8])) 0 0 True,
      EvDeliver (4, 5, Accepted 65541 1 4) 0 0 True, EvDeliver (2, 5, Accepted 65541 1 2) 0 0 True,
      EvRecv2 5 1, EvRecv2 5 1, EvCommitOwn 5 1]"

lemmas restart_eval = NewNode_def NewAcceptor_Some mem_LoadAcceptorState_def recoverLog_def mem_GetLastInstance_def
  zero_AcceptorState_def Validate_def five_nodes_def five_def before_restart_def after_restart_def

text \<open>Running a list of events and checking each.\<close>

fun checked_run :: "'s Storage \<Rightarrow> NodeID set \<Rightarrow> Value set \<Rightarrow> event list \<Rightarrow> 's cluster \<Rightarrow> 's cluster option" where
  "checked_run S M V [] s = Some s"
| "checked_run S M V (e # es) s =
     (if careful S V s e then case exec S M e s of None \<Rightarrow> None | Some s' \<Rightarrow> checked_run S M V es s' else None)"

lemma checked_run_careful: "checked_run S M V es s = Some s' \<Longrightarrow> careful_run S M V s s'"
  by (induction es arbitrary: s)
     (auto intro: careful_run.none careful_run_trans careful_run.more [OF careful_run.none] split: if_splits option.splits)

section \<open>The run\<close>

text \<open>C7. A restart breaks agreement although the storage keeps everything.  The round of a
  proposer is not stored.  Node 5 is restarted after it broadcast the prepare of its first
  ballot, and uses the same ballot for the same instance again.  Node 4 answers both prepares
  with a promise, which the new proposal counts as two acceptors; with its own it has a quorum of
  three and has not asked any of the nodes that accepted the value 7.  All events before and
  after the restart are careful, and the restarted node has nothing committed to lose.\<close>

theorem restart_breaks_agreement:
  "cluster_init memory_storage (blank acceptorState log mem_inv) {1, 2, 3, 4, 5} five
   \<and> (\<exists>s1 s2 s. careful_run memory_storage {1, 2, 3, 4, 5} {Some [7], Some [8]} five s1
     \<and> committed (nodes s1 5) = Map.empty
     \<and> exec memory_storage {1, 2, 3, 4, 5} (EvRestart 5) s1 = Some s2 \<and> storage (nodes s2 5) = storage (nodes s1 5)
     \<and> careful_run memory_storage {1, 2, 3, 4, 5} {Some [7], Some [8]} s2 s
     \<and> committed (nodes s 1) 1 = Some \<lparr>cv_Instance = 1, cv_Value = Some [7], cv_Ballot = 65537\<rparr>
     \<and> committed (nodes s 5) 1 = Some \<lparr>cv_Instance = 1, cv_Value = Some [8], cv_Ballot = 65541\<rparr>)"
proof -
  let ?M = "{1, 2, 3, 4, 5}" and ?V = "{Some [7], Some [8]}"
  have "case checked_run memory_storage ?M ?V before_restart five of None \<Rightarrow> False
      | Some s1 \<Rightarrow> committed (nodes s1 5) = Map.empty \<and> (case exec memory_storage ?M (EvRestart 5) s1 of None \<Rightarrow> False
      | Some s2 \<Rightarrow> storage (nodes s2 5) = storage (nodes s1 5) \<and> (case checked_run memory_storage ?M ?V after_restart s2 of None \<Rightarrow> False
      | Some s \<Rightarrow> committed (nodes s 1) 1 = Some \<lparr>cv_Instance = 1, cv_Value = Some [7], cv_Ballot = 65537\<rparr>
          \<and> committed (nodes s 5) 1 = Some \<lparr>cv_Instance = 1, cv_Value = Some [8], cv_Ballot = 65541\<rparr>))"
    by (simp add: cluster_eval restart_eval)
  then obtain s1 s2 s where "checked_run memory_storage ?M ?V before_restart five = Some s1" "committed (nodes s1 5) = Map.empty"
    "exec memory_storage ?M (EvRestart 5) s1 = Some s2" "storage (nodes s2 5) = storage (nodes s1 5)"
    "checked_run memory_storage ?M ?V after_restart s2 = Some s"
    "committed (nodes s 1) 1 = Some \<lparr>cv_Instance = 1, cv_Value = Some [7], cv_Ballot = 65537\<rparr>"
    "committed (nodes s 5) 1 = Some \<lparr>cv_Instance = 1, cv_Value = Some [8], cv_Ballot = 65541\<rparr>"
    by (auto split: option.splits simp del: exec.simps)
  then show ?thesis using checked_run_careful five_init by blast
qed

end
