(* ===== verification/Cluster_Goroutines.thy ===== *)
theory Cluster_Goroutines
  imports Cluster_Safety
begin

text \<open>
  The goroutines of a cluster, in all runs and on any storage: the proposals registered in
  \<open>pending\<close> are exactly those whose goroutine has not removed its entry, at most one election runs at a
  node, a new proposal never takes the place of a running one, and every goroutine ends.
\<close>

section \<open>Well-formed goroutines\<close>

fun election_pc :: "pc \<Rightarrow> bool" where
  "election_pc Phase2Own = False"
| "election_pc (Phase2Cast _) = False"
| "election_pc (Phase2Wait _) = False"
| "election_pc CommitOwn = False"
| "election_pc CommitCast = False"
| "election_pc _ = True"

fun proposal_pc :: "pc \<Rightarrow> bool" where
  "proposal_pc ElectionStart = False"
| "proposal_pc ElectionWon = False"
| "proposal_pc ElectionLed = False"
| "proposal_pc ElectionUpdate = False"
| "proposal_pc (ElectionBeat _) = False"
| "proposal_pc ElectionLost = False"
| "proposal_pc ElectionEnd = False"
| "proposal_pc _ = True"

definition registered :: "Proposer \<Rightarrow> (Instance \<Rightarrow> pc option) \<Rightarrow> bool" where
  "registered p pr \<longleftrightarrow> (\<forall>i. pending p i \<noteq> None \<longleftrightarrow> (\<exists>pc. pr i = Some pc \<and> registered_pc pc))
     \<and> (\<forall>i st. pending p i = Some st \<longrightarrow> ps_instance st = i \<and> length (responses st) \<le> responseBufferSize p)"

definition pcs_ok :: "(Instance \<Rightarrow> pc option) \<Rightarrow> bool" where
  "pcs_ok pr \<longleftrightarrow> (\<forall>i pc. pr i = Some pc \<longrightarrow> (if i = 0 then election_pc pc else proposal_pc pc))"

definition goroutines_ok :: "'s Node \<Rightarrow> (Instance \<Rightarrow> pc option) \<Rightarrow> bool" where
  "goroutines_ok n pr \<longleftrightarrow> registered (proposer n) pr \<and> pcs_ok pr \<and> (electing n \<longleftrightarrow> pr 0 \<noteq> None)
     \<and> (nextInstance (proposer n) = 0 \<or> (\<forall>i. nextInstance (proposer n) \<le> i \<longrightarrow> pr i = None))"

definition cluster_ok :: "NodeID set \<Rightarrow> 's cluster \<Rightarrow> bool" where
  "cluster_ok M s \<longleftrightarrow> (\<forall>a \<in> M. goroutines_ok (nodes s a) (procs s a))"

lemma cluster_ok_update:
  assumes "cluster_ok M s" "nodes s' = (nodes s)(a := n')" "\<And>c. c \<noteq> a \<Longrightarrow> procs s' c = procs s c"
    "a \<in> M \<Longrightarrow> goroutines_ok n' (procs s' a)"
  shows "cluster_ok M s'"
  unfolding cluster_ok_def
proof
  fix c assume "c \<in> M"
  with assms show "goroutines_ok (nodes s' c) (procs s' c)" by (cases "c = a") (auto simp: cluster_ok_def)
qed

lemma goroutines_okD:
  assumes "goroutines_ok n pr"
  shows "registered (proposer n) pr" "pcs_ok pr" "electing n \<longleftrightarrow> pr 0 \<noteq> None"
    "nextInstance (proposer n) = 0 \<or> (\<forall>i. nextInstance (proposer n) \<le> i \<longrightarrow> pr i = None)"
  using assms by (simp_all add: goroutines_ok_def)

lemma buffer_eq: "peerCount p' = peerCount p \<Longrightarrow> responseBufferSize p' = responseBufferSize p"
  by (simp add: responseBufferSize_def)

text \<open>An event that leaves the goroutines and the proposer's table alone.\<close>

definition same_goroutines :: "'s Node \<Rightarrow> 's Node \<Rightarrow> bool" where
  "same_goroutines n n' \<longleftrightarrow> pending (proposer n') = pending (proposer n) \<and> nextInstance (proposer n') = nextInstance (proposer n)
     \<and> peerCount (proposer n') = peerCount (proposer n) \<and> electing n' = electing n"

lemma goroutines_same: "same_goroutines n n' \<Longrightarrow> goroutines_ok n pr \<Longrightarrow> goroutines_ok n' pr"
  using buffer_eq [of "proposer n'" "proposer n"] by (simp add: same_goroutines_def goroutines_ok_def registered_def)

text \<open>A goroutine moves on; its entry of the table may be replaced.\<close>

lemma goroutines_step:
  assumes ok: "goroutines_ok n pr" and pc: "pr i = Some pco" and st: "pending (proposer n) i = Some st"
    and p: "pending (proposer n') = (pending (proposer n))(i \<mapsto> st')" "nextInstance (proposer n') = nextInstance (proposer n)"
      "peerCount (proposer n') = peerCount (proposer n)" "electing n' = electing n"
    and st': "ps_instance st' = ps_instance st" "length (responses st') \<le> length (responses st)"
    and pc': "registered_pc pc'" "if i = 0 then election_pc pc' else proposal_pc pc'"
  shows "goroutines_ok n' (pr(i \<mapsto> pc'))"
proof -
  have r: "registered (proposer n) pr" by (rule goroutines_okD(1) [OF ok])
  then have "registered (proposer n') (pr(i \<mapsto> pc'))"
    using st p(1) buffer_eq [OF p(3)] st' pc pc'(1) unfolding registered_def
    by (fastforce simp: le_trans intro: order.trans split: if_splits)
  moreover have "pcs_ok (pr(i \<mapsto> pc'))" using goroutines_okD(2) [OF ok] pc'(2) by (auto simp: pcs_ok_def)
  ultimately show ?thesis using ok pc p(2,4) by (auto simp: goroutines_ok_def)
qed

text \<open>A goroutine removes its entry, or has none, and goes on or ends.\<close>

lemma goroutines_leave:
  assumes ok: "goroutines_ok n pr" and pc: "pr i \<noteq> None"
    and p: "pending (proposer n') = (pending (proposer n))(i := None)" "nextInstance (proposer n') = nextInstance (proposer n)"
      "peerCount (proposer n') = peerCount (proposer n)" "electing n' = (if i = 0 then q \<noteq> None else electing n)"
    and q: "\<And>pc'. q = Some pc' \<Longrightarrow> i = 0 \<and> election_pc pc' \<and> \<not> registered_pc pc'"
  shows "goroutines_ok n' (pr(i := q))"
proof -
  have "registered (proposer n') (pr(i := q))"
    using goroutines_okD(1) [OF ok] p(1) q buffer_eq [OF p(3)] by (auto simp: registered_def)
  moreover have "pcs_ok (pr(i := q))" using goroutines_okD(2) [OF ok] q by (auto simp: pcs_ok_def)
  moreover have "nextInstance (proposer n') = 0 \<or> (\<forall>j. nextInstance (proposer n') \<le> j \<longrightarrow> (pr(i := q)) j = None)"
    using goroutines_okD(4) [OF ok] p(2) pc by auto
  ultimately show ?thesis using goroutines_okD(3) [OF ok] p(4) by (auto simp: goroutines_ok_def)
qed

text \<open>A new goroutine at a free instance, or an election that begins its proposal.\<close>

lemma goroutines_begin:
  assumes ok: "goroutines_ok n pr"
    and p: "pending (proposer n') = (pending (proposer n))(i \<mapsto> st)" "peerCount (proposer n') = peerCount (proposer n)"
      "electing n' = electing n" "ps_instance st = i" "responses st = []"
    and i: "i \<noteq> 0 \<and> nextInstance (proposer n') = nextInstance (proposer n) + 1 \<and> i = nextInstance (proposer n)
      \<or> i = 0 \<and> nextInstance (proposer n') = nextInstance (proposer n) \<and> pr 0 \<noteq> None"
  shows "goroutines_ok n' (pr(i \<mapsto> Phase1Own))"
proof -
  have "registered (proposer n') (pr(i \<mapsto> Phase1Own))"
    using goroutines_okD(1) [OF ok] p(1,4,5) buffer_eq [OF p(2)] by (auto simp: registered_def)
  moreover have "pcs_ok (pr(i \<mapsto> Phase1Own))" using goroutines_okD(2) [OF ok] by (auto simp: pcs_ok_def)
  moreover have "nextInstance (proposer n') = 0 \<or> (\<forall>j. nextInstance (proposer n') \<le> j \<longrightarrow> (pr(i \<mapsto> Phase1Own)) j = None)"
    using i
  proof
    assume i: "i \<noteq> 0 \<and> nextInstance (proposer n') = nextInstance (proposer n) + 1 \<and> i = nextInstance (proposer n)"
    show ?thesis
    proof (cases "nextInstance (proposer n') = 0")
      case False
      then have "nextInstance (proposer n) < nextInstance (proposer n')" using i less_Suc64 [of i i] by simp
      then show ?thesis using goroutines_okD(4) [OF ok] i by (auto dest: order.strict_trans1 intro: order.trans less_imp_le)
    qed simp
  next
    assume "i = 0 \<and> nextInstance (proposer n') = nextInstance (proposer n) \<and> pr 0 \<noteq> None"
    then show ?thesis using goroutines_okD(4) [OF ok] by auto
  qed
  ultimately show ?thesis using ok p(3) i goroutines_okD(3) [OF ok] by (auto simp: goroutines_ok_def)
qed

section \<open>Every event keeps the goroutines well-formed\<close>

text \<open>A deadline of the election changes neither the goroutines nor the table.\<close>

lemma same_goroutines_frame:
  "same_goroutines n n"
  "same_goroutines n (n\<lparr>acceptor := acc, storage := sto\<rparr>)"
  "same_goroutines n (handleCommit S b i v n)"
  by (simp_all add: same_goroutines_def)

lemma goroutines_quiet_event:
  assumes ok: "cluster_ok M s" and x: "exec S M e s = Some s'"
    and e: "case e of EvStart _ _ _ _ \<Rightarrow> True | EvReceive _ \<Rightarrow> True | EvDrop _ \<Rightarrow> True | _ \<Rightarrow> False"
  shows "cluster_ok M s'"
proof -
  have "procs s' = procs s \<and> (\<forall>c. same_goroutines (nodes s c) (nodes s' c))"
  proof (cases e)
    case (EvStart a err now rnd)
    then show ?thesis using x
      by (auto simp: same_goroutines_def Start_def Let_def dest!: resetElectionDeadline_Some split: if_splits option.splits)
  next
    case (EvReceive a)
    then show ?thesis using x by (auto simp: same_goroutines_def Subscribe_recv_def split: if_splits list.splits)
  next
    case (EvDrop pkt)
    then show ?thesis using x by (auto simp: same_goroutines_def split: if_splits)
  qed (use e in auto)
  with ok show ?thesis by (auto simp: cluster_ok_def intro: goroutines_same)
qed

lemma goroutines_tick:
  assumes ok: "cluster_ok M s" and x: "exec S M (EvTick a now rnd ds) s = Some s'"
  shows "cluster_ok M s'"
proof -
  from x obtain n' out elect where aM: "a \<in> M"
    and t: "checkLeaderAndHeartbeat now rnd (nodes s a) = Some (n', out, elect)"
    and s': "s' = (let s = fold (send a ds) out (upd_node a n' s) in if elect then set_pc a 0 (Some ElectionStart) s else s)"
    by (auto split: if_splits)
  have f: "nodes (fold (send a ds) out s) = nodes s" "procs (fold (send a ds) out s) = procs s" for s :: "'a cluster"
    by (induction out arbitrary: s) simp_all
  from ok aM have g: "goroutines_ok (nodes s a) (procs s a)" by (simp add: cluster_ok_def)
  have p: "proposer n' = proposer (nodes s a)"
    using t by (auto simp: checkLeaderAndHeartbeat_def dest!: resetElectionDeadline_Some split: if_splits)
  show ?thesis
  proof (cases elect)
    case True
    then have e: "\<not> electing (nodes s a)" "electing n'"
      using t by (auto simp: checkLeaderAndHeartbeat_def dest!: resetElectionDeadline_Some split: if_splits)
    then have none: "procs s a 0 = None" using goroutines_okD(3) [OF g] by simp
    have "registered (proposer n') ((procs s a)(0 \<mapsto> ElectionStart))"
      using goroutines_okD(1) [OF g] none by (auto simp: p registered_def)
    moreover have "nextInstance (proposer n') = 0
        \<or> (\<forall>i. nextInstance (proposer n') \<le> i \<longrightarrow> ((procs s a)(0 \<mapsto> ElectionStart)) i = None)"
      using goroutines_okD(4) [OF g] by (auto simp: p)
    ultimately have "goroutines_ok n' ((procs s a)(0 \<mapsto> ElectionStart))"
      using goroutines_okD(2) [OF g] e by (simp add: goroutines_ok_def pcs_ok_def)
    with True show ?thesis by (intro cluster_ok_update [OF ok, of s' a n']) (simp_all add: s' f)
  next
    case False
    then have "electing n' = electing (nodes s a)" using t
      by (auto simp: checkLeaderAndHeartbeat_def dest!: resetElectionDeadline_Some split: if_splits)
    then have "goroutines_ok n' (procs s a)" using p by (intro goroutines_same [OF _ g]) (simp add: same_goroutines_def)
    with False show ?thesis by (intro cluster_ok_update [OF ok, of s' a n']) (simp_all add: s' f)
  qed
qed

lemma goroutines_new:
  assumes ok: "cluster_ok M s" and x: "exec S M e s = Some s'" and e: "e = EvPropose a v \<or> e = EvElect a"
  shows "cluster_ok M s'"
  using e
proof
  assume e: "e = EvPropose a v"
  obtain st p where b: "begin_proposal v (proposer (nodes s a)) = (st, p)" by fastforce
  from x e b have aM: "a \<in> M" and nz: "nextInstance (proposer (nodes s a)) \<noteq> 0"
    and s': "s' = set_pc a (ps_instance st) (Some Phase1Own) (upd_node a ((nodes s a)\<lparr>proposer := p\<rparr>) s)"
    by (auto simp: Let_def split: if_splits)
  from ok aM have g: "goroutines_ok (nodes s a) (procs s a)" by (simp add: cluster_ok_def)
  have "goroutines_ok ((nodes s a)\<lparr>proposer := p\<rparr>) ((procs s a)(ps_instance st \<mapsto> Phase1Own))"
    by (rule goroutines_begin [OF g, where st = st]) (use b nz in \<open>auto simp: begin_proposal_def Let_def\<close>)
  then show ?thesis by (intro cluster_ok_update [OF ok, of s' a]) (simp_all add: s')
next
  assume e: "e = EvElect a"
  obtain st p where b: "begin_election (proposer (nodes s a)) = (st, p)" by fastforce
  from x e b have aM: "a \<in> M" and pc: "procs s a 0 = Some ElectionStart"
    and s': "s' = set_pc a 0 (Some Phase1Own) (upd_node a ((nodes s a)\<lparr>proposer := p\<rparr>) s)"
    by (auto simp: Let_def split: if_splits)
  from ok aM have g: "goroutines_ok (nodes s a) (procs s a)" by (simp add: cluster_ok_def)
  have "goroutines_ok ((nodes s a)\<lparr>proposer := p\<rparr>) ((procs s a)(0 \<mapsto> Phase1Own))"
    by (rule goroutines_begin [OF g, where st = st]) (use b pc in \<open>auto simp: begin_election_def Let_def\<close>)
  then show ?thesis by (intro cluster_ok_update [OF ok, of s' a]) (simp_all add: s')
qed

text \<open>The moves of a goroutine: one that has its entry in the table goes on to \<open>pc'\<close>.\<close>

definition next_pc :: "Instance \<Rightarrow> pc \<Rightarrow> bool" where
  "next_pc i pc' \<longleftrightarrow> registered_pc pc' \<and> (if i = 0 then election_pc pc' else proposal_pc pc')"

lemma next_pc_simps [simp]:
  "next_pc i Phase1Own" "next_pc i (Phase1Cast ps)" "next_pc i (Phase1Wait ps)" "next_pc i Returning" "next_pc 0 ElectionWon"
  "i \<noteq> 0 \<Longrightarrow> next_pc i Phase2Own" "i \<noteq> 0 \<Longrightarrow> next_pc i (Phase2Cast ps)" "i \<noteq> 0 \<Longrightarrow> next_pc i (Phase2Wait ps)"
  "i \<noteq> 0 \<Longrightarrow> next_pc i CommitOwn" "i \<noteq> 0 \<Longrightarrow> next_pc i CommitCast" "next_pc 0 ElectionLed"
  by (simp_all add: next_pc_def)

lemma cluster_ok_move:
  assumes ok: "cluster_ok M s" and pc: "procs s a i = Some pco" and st: "pending (proposer (nodes s a)) i = Some st"
    and s': "nodes s' = (nodes s)(a := n')" "procs s' = (procs s)(a := (procs s a)(i \<mapsto> pc'))" and pc': "next_pc i pc'"
    and p: "pending (proposer n') = (pending (proposer (nodes s a)))(i \<mapsto> st')"
      "nextInstance (proposer n') = nextInstance (proposer (nodes s a))"
      "peerCount (proposer n') = peerCount (proposer (nodes s a))" "electing n' = electing (nodes s a)"
      "ps_instance st' = ps_instance st" "length (responses st') \<le> length (responses st)"
  shows "cluster_ok M s'"
proof (rule cluster_ok_update [OF ok s'(1)])
  assume "a \<in> M"
  with ok have g: "goroutines_ok (nodes s a) (procs s a)" by (simp add: cluster_ok_def)
  show "goroutines_ok n' (procs s' a)"
    using goroutines_step [OF g pc st p, of pc'] pc' by (simp add: s' next_pc_def)
qed (simp add: s')

lemma cluster_ok_move_same:
  assumes "cluster_ok M s" "procs s a i = Some pco" "pending (proposer (nodes s a)) i = Some st"
    "nodes s' = (nodes s)(a := n')" "procs s' = (procs s)(a := (procs s a)(i \<mapsto> pc'))" "next_pc i pc'"
    "proposer n' = proposer (nodes s a)" "electing n' = electing (nodes s a)"
  shows "cluster_ok M s'"
  using cluster_ok_move [OF assms(1-6), of st] assms(3,7,8) by (simp add: map_upd_triv)

lemma after_phase1_ok:
  assumes ok: "cluster_ok M s" and pc: "procs s a i = Some pco" and st: "pending (proposer (nodes s a)) i = Some st"
    and w: "\<And>ps. next_pc i (wait ps)"
  shows "cluster_ok M (after_phase1 a i r wait s)"
proof (cases "\<exists>av. r = Return (Inr av) \<and> i \<noteq> 0")
  case True
  then obtain av where "r = Return (Inr av)" "i \<noteq> 0" by blast
  then show ?thesis
    by (intro cluster_ok_move [OF ok pc st, of _ "nodes (after_phase1 a i r wait s) a" Phase2Own
          "st\<lparr>ps_value := value_to_propose av (ps_value st)\<rparr>"]) (simp_all add: after_phase1_def st Let_def)
next
  case False
  then obtain pc' where "after_phase1 a i r wait s = set_pc a i (Some pc') s" "next_pc i pc'"
  proof (cases r)
    case (Waiting ps)
    then show ?thesis using that [of "wait ps"] w by (simp add: after_phase1_def)
  next
    case (Return x)
    then show ?thesis using False that [of Returning] that [of ElectionWon] by (cases x) (auto simp: after_phase1_def)
  qed
  then show ?thesis by (intro cluster_ok_move_same [OF ok pc st]) auto
qed

lemma after_phase2_ok:
  assumes "cluster_ok M s" "procs s a i = Some pco" "pending (proposer (nodes s a)) i = Some st" "i \<noteq> 0" "\<And>ps. next_pc i (wait ps)"
  shows "cluster_ok M (after_phase2 a i r wait s)"
  by (rule cluster_ok_move_same [OF assms(1-3), of _ "nodes s a"])
     (use assms(4,5) in \<open>auto simp: after_phase2_def split: progress.splits sum.splits\<close>)

text \<open>The acceptor and the storage change in the own vote, the table in a receive; neither
  touches the goroutines.\<close>

lemma cluster_ok_same:
  assumes "cluster_ok M s" "same_goroutines (nodes s a) n'"
  shows "cluster_ok M (upd_node a n' s)"
  by (rule cluster_ok_update [OF assms(1)]) (use assms in \<open>auto simp: cluster_ok_def intro: goroutines_same\<close>)

lemma take_response_ok:
  assumes ok: "cluster_ok M s" and t: "take_response a i s = Some (m, s')" and pc: "procs s a i = Some pco" "next_pc i pco"
  shows "cluster_ok M s'" "procs s' = procs s" "\<exists>st. pending (proposer (nodes s' a)) i = Some st"
proof -
  from t obtain st ms where st: "pending (proposer (nodes s a)) i = Some st" and ms: "responses st = m # ms"
    and s': "s' = upd_node a ((nodes s a)\<lparr>proposer := (proposer (nodes s a))
        \<lparr>pending := (pending (proposer (nodes s a)))(i \<mapsto> st\<lparr>responses := ms\<rparr>)\<rparr>\<rparr>) s"
    by (auto simp: take_response_def Let_def split: option.splits list.splits)
  show "cluster_ok M s'"
    by (rule cluster_ok_move [OF ok pc(1) st _ _ pc(2), where n' = "nodes s' a" and st' = "st\<lparr>responses := ms\<rparr>"])
       (use pc(1) ms in \<open>simp_all add: s' fun_upd_idem map_upd_triv\<close>)
  show "procs s' = procs s" "\<exists>st. pending (proposer (nodes s' a)) i = Some st" by (simp_all add: s')
qed

lemma phase2_not_election: "cluster_ok M s \<Longrightarrow> a \<in> M \<Longrightarrow> procs s a i = Some pc \<Longrightarrow> \<not> election_pc pc \<Longrightarrow> i \<noteq> 0"
  unfolding cluster_ok_def goroutines_ok_def pcs_ok_def by metis

lemma goroutines_move:
  assumes ok: "cluster_ok M s" and x: "exec S M e s = Some s'"
    and e: "e \<in> {EvOwn1 a i, EvCast1 a i ds, EvRecv1 a i, EvOwn2 a i, EvCast2 a i ds, EvRecv2 a i, EvCommitOwn a i}"
  shows "cluster_ok M s'"
proof -
  let ?n = "nodes s a"
  note nel = phase2_not_election [OF ok]
  consider "e = EvOwn1 a i" | "e = EvCast1 a i ds" | "e = EvRecv1 a i" | "e = EvOwn2 a i" | "e = EvCast2 a i ds"
    | "e = EvRecv2 a i" | "e = EvCommitOwn a i" using e by blast
  then show ?thesis
  proof cases
    case 1
    with x obtain r acc sto st where "procs s a i = Some Phase1Own" "pending (proposer ?n) i = Some st"
      "s' = after_phase1 a i r Phase1Cast (upd_node a (?n\<lparr>acceptor := acc, storage := sto\<rparr>) s)"
      by (auto simp: Let_def split: option.splits pc.splits if_splits prod.splits)
    then show ?thesis
      using cluster_ok_same [OF ok same_goroutines_frame(2)] by (auto intro!: after_phase1_ok [where pco = Phase1Own and st = st])
  next
    case 2
    with x show ?thesis
      by (auto intro!: cluster_ok_move_same [OF ok, where n' = ?n] split: option.splits pc.splits if_splits)
  next
    case 3
    with x obtain ps m s1 r where pc: "procs s a i = Some (Phase1Wait ps)" and t: "take_response a i s = Some (m, s1)"
      and s': "s' = after_phase1 a i r Phase1Wait s1"
      by (auto split: option.splits pc.splits if_splits prod.splits)
    note t = take_response_ok [OF ok t pc, simplified]
    then show ?thesis using pc by (auto simp: s' intro: after_phase1_ok [OF t(1)])
  next
    case 4
    with x obtain r acc sto st where "procs s a i = Some Phase2Own" "pending (proposer ?n) i = Some st" "a \<in> M"
      "s' = after_phase2 a i r Phase2Cast (upd_node a (?n\<lparr>acceptor := acc, storage := sto\<rparr>) s)"
      by (auto simp: Let_def split: option.splits pc.splits if_splits prod.splits)
    then show ?thesis
      using cluster_ok_same [OF ok same_goroutines_frame(2)] nel [of a i Phase2Own]
      by (auto intro!: after_phase2_ok [where pco = Phase2Own and st = st])
  next
    case 5
    with x show ?thesis using nel
      by (auto intro!: cluster_ok_move_same [OF ok, where n' = ?n] split: option.splits pc.splits if_splits)
  next
    case 6
    with x obtain ps m s1 r where pc: "procs s a i = Some (Phase2Wait ps)" and t: "take_response a i s = Some (m, s1)"
      and s': "s' = after_phase2 a i r Phase2Wait s1" and aM: "a \<in> M"
      by (auto split: option.splits pc.splits if_splits prod.splits)
    have i: "i \<noteq> 0" using nel [OF aM pc] by simp
    note t = take_response_ok [OF ok t pc, simplified, OF next_pc_simps(8) [OF i]]
    then show ?thesis using pc i by (auto simp: s' intro: after_phase2_ok [OF t(1)])
  next
    case 7
    with x obtain st where "procs s a i = Some CommitOwn" "pending (proposer ?n) i = Some st" "a \<in> M"
      "s' = set_pc a i (Some CommitCast) (upd_node a (handleCommit S (ps_ballot st) i (ps_value st) ?n) s)"
      by (auto split: option.splits pc.splits if_splits)
    then show ?thesis using nel [of a i CommitOwn]
      by (intro cluster_ok_move_same [OF ok, where n' = "nodes s' a"]) auto
  qed
qed

lemma cluster_ok_leave:
  assumes ok: "cluster_ok M s" and pc: "procs s a i \<noteq> None"
    and s': "nodes s' = (nodes s)(a := n')" "procs s' = (procs s)(a := (procs s a)(i := q))"
    and p: "pending (proposer n') = (pending (proposer (nodes s a)))(i := None)"
      "nextInstance (proposer n') = nextInstance (proposer (nodes s a))"
      "peerCount (proposer n') = peerCount (proposer (nodes s a))"
      "electing n' = (if i = 0 then q \<noteq> None else electing (nodes s a))"
    and q: "\<And>pc'. q = Some pc' \<Longrightarrow> i = 0 \<and> election_pc pc' \<and> \<not> registered_pc pc'"
  shows "cluster_ok M s'"
proof (rule cluster_ok_update [OF ok s'(1)])
  assume "a \<in> M"
  with ok have g: "goroutines_ok (nodes s a) (procs s a)" by (simp add: cluster_ok_def)
  show "goroutines_ok n' (procs s' a)"
    using goroutines_leave [where q = q, OF g pc p(1) p(2) p(3) p(4)] q by (simp add: s'(2))
qed (simp add: s'(2))

lemma end_proposal_fields [simp]:
  "pending (end_proposal i p) = (pending p)(i := None)" "nextInstance (end_proposal i p) = nextInstance p"
  "peerCount (end_proposal i p) = peerCount p"
  by (auto simp: end_proposal_def go_delete_def)

lemma goroutines_return:
  assumes ok: "cluster_ok M s" and x: "exec S M e s = Some s'"
    and e: "e \<in> {EvCommitCast a i ds, EvTimeout a i, EvReturn a i, EvLead a}"
  shows "cluster_ok M s'"
proof -
  have aM: "a \<in> M" using x e by (auto simp: Let_def split: option.splits pc.splits if_splits)
  then have g: "goroutines_ok (nodes s a) (procs s a)" using ok by (simp add: cluster_ok_def)
  have st: "\<exists>st. pending (proposer (nodes s a)) j = Some st" if "procs s a j = Some pc" "registered_pc pc" for j pc
    using that goroutines_okD(1) [OF g] by (auto simp: registered_def)
  consider "e = EvCommitCast a i ds" | "e = EvTimeout a i" | "e = EvReturn a i" | "e = EvLead a" using e by blast
  then show ?thesis
  proof cases
    case 1
    with x show ?thesis
      by (auto intro!: cluster_ok_move_same [OF ok, where n' = "nodes s a"] split: option.splits pc.splits if_splits)
  next
    case 2
    with x obtain pc where "procs s a i = Some pc" "registered_pc pc" and s': "s' = set_pc a i (Some Returning) s"
      by (auto split: option.splits pc.splits if_splits)
    moreover from this st obtain st where "pending (proposer (nodes s a)) i = Some st" by blast
    ultimately show ?thesis by (intro cluster_ok_move_same [OF ok, where n' = "nodes s a" and pc' = Returning]) simp_all
  next
    case 3
    with x obtain pc where pc: "procs s a i = Some pc" and c: "pc = Returning \<and> s' = finish a i (if i = 0 then Some ElectionLost else None) s
        \<or> pc = ElectionLed \<and> s' = finish a i (Some ElectionUpdate) s"
      by (auto split: option.splits pc.splits if_splits)
    have "pc = ElectionLed \<Longrightarrow> i = 0" using goroutines_okD(2) [OF g] pc unfolding pcs_ok_def by (metis proposal_pc.simps(3))
    moreover have "electing (nodes s a) \<longleftrightarrow> procs s a 0 \<noteq> None" by (rule goroutines_okD(3) [OF g])
    ultimately show ?thesis using c pc
      by (intro cluster_ok_leave [OF ok, of a i s' "nodes s' a" "procs s' a i"]) (auto split: if_splits)
  next
    case 4
    with x obtain st where "procs s a 0 = Some ElectionWon" "pending (proposer (nodes s a)) 0 = Some st"
      "s' = set_pc a 0 (Some ElectionLed) (upd_node a ((nodes s a)\<lparr>proposer := win_election (ps_ballot st) (proposer (nodes s a))\<rparr>) s)"
      by (auto simp: Let_def split: option.splits pc.splits if_splits)
    then show ?thesis
      by (intro cluster_ok_move [OF ok, where n' = "nodes s' a" and st' = st]) (auto simp: win_election_def)
  qed
qed

lemma goroutines_election:
  assumes ok: "cluster_ok M s" and x: "exec S M e s = Some s'"
    and e: "e \<in> {EvUpdate a now rnd, EvBeat a ds, EvBackoff a now rnd, EvElected a}"
  shows "cluster_ok M s'"
proof -
  obtain pc n' q where aM: "a \<in> M" and pc: "procs s a 0 = Some pc" "\<not> registered_pc pc"
    and s': "nodes s' = (nodes s)(a := n')" "procs s' = (procs s)(a := (procs s a)(0 := q))"
    and n': "proposer n' = proposer (nodes s a)" "q \<noteq> None \<Longrightarrow> electing n' = electing (nodes s a)" "q = None \<Longrightarrow> \<not> electing n'"
    and q: "\<And>pc'. q = Some pc' \<Longrightarrow> election_pc pc' \<and> \<not> registered_pc pc'"
  proof -
    consider "e = EvUpdate a now rnd" | "e = EvBeat a ds" | "e = EvBackoff a now rnd" | "e = EvElected a" using e by blast
    then show thesis
    proof cases
      case 1
      with x show thesis
        by (intro that [of ElectionUpdate "nodes s' a" "procs s' a 0"])
           (auto simp: take_leadership_def dest!: resetElectionDeadline_Some split: if_splits)
    next
      case 2
      with x obtain l where "a \<in> M" "procs s a 0 = Some (ElectionBeat l)" "s' = set_pc a 0 (Some ElectionEnd) (send a ds (sendHeartbeat l (nodes s a)) s)"
        by (auto split: option.splits pc.splits if_splits)
      then show thesis by (intro that [of "ElectionBeat l" "nodes s a" "Some ElectionEnd"]) auto
    next
      case 3
      with x show thesis
        by (intro that [of ElectionLost "nodes s' a" "procs s' a 0"]) (auto dest!: resetElectionDeadline_Some split: if_splits)
    next
      case 4
      with x show thesis by (intro that [of ElectionEnd "nodes s' a" None]) (auto split: if_splits)
    qed
  qed
  from ok aM have g: "goroutines_ok (nodes s a) (procs s a)" by (simp add: cluster_ok_def)
  have "pending (proposer (nodes s a)) 0 = None" using goroutines_okD(1) [OF g] pc unfolding registered_def by (metis option.inject)
  then show ?thesis using pc n' q goroutines_okD(3) [OF g]
    by (intro cluster_ok_leave [OF ok _ s']) (auto simp: fun_upd_idem)
qed

text \<open>A response goes to the queue of its proposal, which never outgrows its buffer.\<close>

lemma HandleResponse_registered:
  assumes "registered p pr"
  shows "registered (HandleResponse m p) pr"
  using assms by (auto simp: HandleResponse_def registered_def responseBufferSize_def split: option.splits)

lemma HandleResponse_fields [simp]:
  "nextInstance (HandleResponse m p) = nextInstance p" "peerCount (HandleResponse m p) = peerCount p"
  by (simp_all add: HandleResponse_def split: option.splits)

lemma handleHeartbeat_same: "handleHeartbeat b l now rnd n = Some n' \<Longrightarrow> same_goroutines n n'"
  by (auto simp: same_goroutines_def handleHeartbeat_def StepDown_def dest!: resetElectionDeadline_Some
      split: if_splits option.splits)

lemma handleMessage_ok:
  assumes g: "goroutines_ok n pr" and h: "handleMessage S now rnd from m n = Some (n', out)"
  shows "goroutines_ok n' pr"
proof (cases "response_key m = None")
  case True
  then have "same_goroutines n n'" using h
  proof (cases m)
    case (Prepare b i)
    then show ?thesis using h by (auto simp: handleMessage_def same_goroutines_frame split: prod.splits)
  next
    case (Accept b i v)
    then show ?thesis using h by (auto simp: handleMessage_def same_goroutines_frame split: prod.splits)
  next
    case (Commit b i v)
    then show ?thesis using h by (auto simp: handleMessage_def same_goroutines_frame)
  next
    case (Heartbeat b l i)
    then show ?thesis using h by (auto simp: handleMessage_def dest: handleHeartbeat_same)
  qed (use True in simp_all)
  then show ?thesis using g by (rule goroutines_same)
next
  case False
  then have "n' = n\<lparr>proposer := HandleResponse m (proposer n)\<rparr>" using h by (cases m) (auto simp: handleMessage_def)
  with g show ?thesis by (simp add: goroutines_ok_def HandleResponse_registered)
qed

lemma goroutines_deliver:
  assumes ok: "cluster_ok M s" and x: "exec S M (EvDeliver pkt now rnd up) s = Some s'"
  shows "cluster_ok M s'"
proof -
  obtain src dst m where pkt: "pkt = (src, dst, m)" by (rule prod_cases3)
  with x obtain n' out where h: "dst \<in> M" "handleMessage S now rnd src m (nodes s dst) = Some (n', out)"
    and s': "s' = fold (\<lambda>(d, r). send dst (if up then [d] else []) r) out (upd_node dst n' (s\<lparr>net := remove1 pkt (net s)\<rparr>))"
    by (auto split: if_splits)
  have f: "nodes (fold (\<lambda>(d, r). send dst (if up then [d] else []) r) out s) = nodes s
      \<and> procs (fold (\<lambda>(d, r). send dst (if up then [d] else []) r) out s) = procs s" for s :: "'a cluster"
    by (induction out arbitrary: s) auto
  show ?thesis
    by (rule cluster_ok_update [OF ok, of s' dst n'])
       (use ok h(1) in \<open>auto simp: s' f cluster_ok_def intro: handleMessage_ok [OF _ h(2)]\<close>)
qed

text \<open>A node that has just been created runs no goroutine.\<close>

lemma recover_entry_same: "same_goroutines n (recover_entry n e)"
  by (simp add: recover_entry_def same_goroutines_def Let_def)

lemma recoverLog_same:
  assumes "recoverLog S n = Inr n'"
  shows "same_goroutines n n'"
proof -
  have "same_goroutines n (foldl recover_entry n es)" for es
    by (induction es rule: rev_induct) (use recover_entry_same in \<open>auto simp: same_goroutines_def\<close>)
  with assms show ?thesis
    by (auto simp: recoverLog_def same_goroutines_frame split: prod.splits if_splits option.splits)
qed

lemma NewNode_goroutines:
  assumes "NewNode S st cfg = Inr n"
  shows "goroutines_ok n (\<lambda>_. None)"
proof -
  have "pending (proposer n) = Map.empty" "\<not> electing n" using assms
    by (auto simp: NewNode_def Let_def NewProposer_def SetTimeouts_def res_bind_def same_goroutines_def
        dest!: recoverLog_same split: option.splits sum.splits)
  then show ?thesis by (simp add: goroutines_ok_def registered_def pcs_ok_def)
qed

lemma goroutines_restart:
  assumes ok: "cluster_ok M s" and x: "exec S M (EvRestart a) s = Some s'"
  shows "cluster_ok M s'"
proof -
  from x obtain n' where n': "NewNode S (storage (nodes s a)) (config (nodes s a)) = Inr n'"
    and s': "s' = (upd_node a n' s)\<lparr>procs := (procs s)(a := (\<lambda>_. None)), running := (running s)(a := False)\<rparr>"
    by (auto simp: Let_def split: if_splits sum.splits)
  show ?thesis by (rule cluster_ok_update [OF ok, of s' a n']) (simp_all add: s' NewNode_goroutines [OF n'])
qed

lemma exec_cluster_ok:
  assumes ok: "cluster_ok M s" and x: "exec S M e s = Some s'"
  shows "cluster_ok M s'"
proof (cases e)
  case (EvTick a now rnd ds)
  with x show ?thesis by (auto intro: goroutines_tick [OF ok])
next
  case (EvDeliver pkt now rnd up)
  with x show ?thesis by (auto intro: goroutines_deliver [OF ok])
next
  case (EvRestart a)
  with x show ?thesis by (auto intro: goroutines_restart [OF ok])
qed (use goroutines_quiet_event [OF ok x] goroutines_new [OF ok x] goroutines_move [OF ok x]
  goroutines_return [OF ok x] goroutines_election [OF ok x]
  in simp_all)

lemma run_cluster_ok: "cluster_ok M s \<Longrightarrow> run S M es s = Some s' \<Longrightarrow> cluster_ok M s'"
  by (induction es arbitrary: s) (auto split: option.splits intro: exec_cluster_ok)

lemma init_cluster_ok:
  assumes "cluster_init S fresh M s"
  shows "cluster_ok M s"
  unfolding cluster_ok_def
proof
  fix a assume "a \<in> M"
  with assms obtain cfg st where "NewNode S st cfg = Inr (nodes s a)" by (auto simp: cluster_init_def)
  moreover have "procs s a = (\<lambda>_. None)" using assms by (auto simp: cluster_init_def)
  ultimately show "goroutines_ok (nodes s a) (procs s a)" using NewNode_goroutines by metis
qed

section \<open>Every goroutine ends\<close>

text \<open>The goroutine whose code an event runs.\<close>

fun goroutine_of :: "event \<Rightarrow> (NodeID \<times> Instance) option" where
  "goroutine_of (EvElect a) = Some (a, 0)"
| "goroutine_of (EvOwn1 a i) = Some (a, i)"
| "goroutine_of (EvCast1 a i _) = Some (a, i)"
| "goroutine_of (EvRecv1 a i) = Some (a, i)"
| "goroutine_of (EvOwn2 a i) = Some (a, i)"
| "goroutine_of (EvCast2 a i _) = Some (a, i)"
| "goroutine_of (EvRecv2 a i) = Some (a, i)"
| "goroutine_of (EvCommitOwn a i) = Some (a, i)"
| "goroutine_of (EvCommitCast a i _) = Some (a, i)"
| "goroutine_of (EvTimeout a i) = Some (a, i)"
| "goroutine_of (EvReturn a i) = Some (a, i)"
| "goroutine_of (EvLead a) = Some (a, 0)"
| "goroutine_of (EvUpdate a _ _) = Some (a, 0)"
| "goroutine_of (EvBeat a _) = Some (a, 0)"
| "goroutine_of (EvBackoff a _ _) = Some (a, 0)"
| "goroutine_of (EvElected a) = Some (a, 0)"
| "goroutine_of _ = None"

text \<open>The steps a goroutine still makes at most, apart from receiving messages.\<close>

fun rank :: "Instance \<Rightarrow> pc \<Rightarrow> nat" where
  "rank i ElectionStart = 9"
| "rank i Phase1Own = (if i = 0 then 8 else 9)"
| "rank i (Phase1Cast _) = (if i = 0 then 7 else 8)"
| "rank i (Phase1Wait _) = (if i = 0 then 6 else 7)"
| "rank i Phase2Own = 6"
| "rank i (Phase2Cast _) = 5"
| "rank i (Phase2Wait _) = 4"
| "rank i CommitOwn = 3"
| "rank i CommitCast = 2"
| "rank i Returning = (if i = 0 then 3 else 1)"
| "rank i ElectionWon = 5"
| "rank i ElectionLed = 4"
| "rank i ElectionUpdate = 3"
| "rank i (ElectionBeat _) = 2"
| "rank i ElectionLost = 2"
| "rank i ElectionEnd = 1"

definition queued :: "Proposer \<Rightarrow> Instance \<Rightarrow> nat" where
  "queued p i = (case pending p i of None \<Rightarrow> 0 | Some st \<Rightarrow> length (responses st))"

definition steps_left :: "'s cluster \<Rightarrow> NodeID \<Rightarrow> Instance \<Rightarrow> nat" where
  "steps_left s a i = (case procs s a i of None \<Rightarrow> 0 | Some pc \<Rightarrow> rank i pc + queued (proposer (nodes s a)) i)"

lemma after_phase1_steps:
  assumes "\<And>ps. rank i (wait ps) \<le> k" "5 \<le> k" "i \<noteq> 0 \<longrightarrow> 6 \<le> k" "pending (proposer (nodes s a)) i = Some st"
  shows "steps_left (after_phase1 a i r wait s) a i \<le> k + length (responses st)"
  using assms by (auto simp: after_phase1_def steps_left_def queued_def Let_def split: progress.splits sum.splits)

lemma after_phase2_steps:
  assumes "\<And>ps. rank i (wait ps) \<le> k" "3 \<le> k" "pending (proposer (nodes s a)) i = Some st"
  shows "steps_left (after_phase2 a i r wait s) a i \<le> k + length (responses st)"
  using assms by (auto simp: after_phase2_def steps_left_def queued_def split: progress.splits sum.splits)

lemma take_response_queue:
  assumes "take_response a i s = Some (m, s')"
  shows "\<exists>st. pending (proposer (nodes s' a)) i = Some st \<and> queued (proposer (nodes s a)) i = Suc (length (responses st))"
  using assms by (auto simp: take_response_def queued_def Let_def split: option.splits list.splits)

text \<open>A step of a goroutine brings it nearer to its end.\<close>

lemma own_event_steps:
  assumes ok: "cluster_ok M s" and x: "exec S M e s = Some s'" and e: "goroutine_of e = Some (a, i)"
  shows "steps_left s' a i < steps_left s a i"
proof (cases e)
  case (EvElect c)
  then show ?thesis using x e by (auto simp: steps_left_def queued_def begin_election_def Let_def split: if_splits)
next
  case (EvOwn1 c j)
  with x e obtain r acc sto st where "procs s a i = Some Phase1Own" "pending (proposer (nodes s a)) i = Some st"
    "s' = after_phase1 a i r Phase1Cast (upd_node a ((nodes s a)\<lparr>acceptor := acc, storage := sto\<rparr>) s)"
    by (auto simp: Let_def split: option.splits pc.splits if_splits prod.splits)
  then show ?thesis
    using after_phase1_steps [of i Phase1Cast "if i = 0 then 7 else 8" "upd_node a ((nodes s a)\<lparr>acceptor := acc, storage := sto\<rparr>) s" a st r]
    by (cases "i = 0") (simp_all add: steps_left_def [of s] queued_def)
next
  case (EvRecv1 c j)
  with x e obtain ps m s1 r where t: "procs s a i = Some (Phase1Wait ps)" "take_response a i s = Some (m, s1)"
    "s' = after_phase1 a i r Phase1Wait s1"
    by (auto split: option.splits pc.splits if_splits prod.splits)
  then show ?thesis using take_response_queue [OF t(2)] after_phase1_steps [of i Phase1Wait "if i = 0 then 6 else 7" s1 a _ r]
    by (auto simp: steps_left_def [of s] less_Suc_eq_le split: if_splits)
next
  case (EvOwn2 c j)
  with x e obtain r acc sto st where "procs s a i = Some Phase2Own" "pending (proposer (nodes s a)) i = Some st"
    "s' = after_phase2 a i r Phase2Cast (upd_node a ((nodes s a)\<lparr>acceptor := acc, storage := sto\<rparr>) s)"
    by (auto simp: Let_def split: option.splits pc.splits if_splits prod.splits)
  then show ?thesis
    using after_phase2_steps [of i Phase2Cast 5 "upd_node a ((nodes s a)\<lparr>acceptor := acc, storage := sto\<rparr>) s" a st r]
    by (simp add: steps_left_def [of s] queued_def split: if_splits)
next
  case (EvRecv2 c j)
  with x e obtain ps m s1 r where t: "procs s a i = Some (Phase2Wait ps)" "take_response a i s = Some (m, s1)"
    "s' = after_phase2 a i r Phase2Wait s1"
    by (auto split: option.splits pc.splits if_splits prod.splits)
  then show ?thesis using take_response_queue [OF t(2)] after_phase2_steps [of i Phase2Wait 4 s1 a _ r]
    by (auto simp: steps_left_def [of s] less_Suc_eq_le)
next
  case (EvCommitCast c j ds)
  then have "i \<noteq> 0" using x e phase2_not_election [OF ok, of a i CommitCast] by (auto split: option.splits pc.splits if_splits)
  then show ?thesis using x e EvCommitCast by (auto simp: steps_left_def queued_def split: option.splits pc.splits if_splits)
next
  case (EvTimeout c j)
  then show ?thesis using x e by (auto simp: steps_left_def queued_def split: if_splits option.splits pc.splits)
next
  case (EvReturn c j)
  then show ?thesis using x e by (auto simp: steps_left_def queued_def split: if_splits option.splits pc.splits)
next
  case (EvLead c)
  then show ?thesis using x e by (auto simp: steps_left_def queued_def win_election_def Let_def split: if_splits option.splits pc.splits)
next
  case (EvUpdate c now rnd)
  then show ?thesis using x e
    by (auto simp: steps_left_def queued_def take_leadership_def dest!: resetElectionDeadline_Some split: if_splits option.splits)
next
  case (EvBackoff c now rnd)
  then show ?thesis using x e
    by (auto simp: steps_left_def queued_def dest!: resetElectionDeadline_Some split: if_splits option.splits)
qed (use x e in \<open>auto simp: steps_left_def queued_def split: option.splits pc.splits if_splits\<close>)

text \<open>The steps of the other goroutines do not touch it.\<close>

definition view :: "'s cluster \<Rightarrow> NodeID \<Rightarrow> Instance \<Rightarrow> pc option \<times> proposalState option" where
  "view s a i = (procs s a i, pending (proposer (nodes s a)) i)"

lemma view_simps [simp]:
  "(c, j) \<noteq> (a, i) \<Longrightarrow> view (set_pc c j pc s) a i = view s a i"
  "proposer n = proposer (nodes s c) \<Longrightarrow> view (upd_node c n s) a i = view s a i"
  "view (send c ds m s) a i = view s a i"
  "(c, j) \<noteq> (a, i) \<Longrightarrow> view (after_phase1 c j r1 wait s) a i = view s a i"
  "(c, j) \<noteq> (a, i) \<Longrightarrow> view (after_phase2 c j r2 wait s) a i = view s a i"
  "(c, j) \<noteq> (a, i) \<Longrightarrow> view (finish c j p s) a i = view s a i"
  by (auto simp: view_def after_phase1_def after_phase2_def Let_def split: progress.splits sum.splits option.splits)

lemma take_response_view: "take_response c j s = Some (m, s') \<Longrightarrow> (c, j) \<noteq> (a, i) \<Longrightarrow> view s' a i = view s a i"
  by (auto simp: take_response_def view_def Let_def split: option.splits list.splits)

lemma steps_left_view: "view s' a i = view s a i \<Longrightarrow> steps_left s' a i = steps_left s a i"
  by (simp add: view_def steps_left_def queued_def split: option.splits)

lemma own_event_view:
  assumes x: "exec S M e s = Some s'" and e: "goroutine_of e = Some (c, j)" and ne: "(c, j) \<noteq> (a, i)"
  shows "view s' a i = view s a i"
proof (cases e)
  case (EvElect c)
  then show ?thesis using x e ne by (auto simp: view_def begin_election_def Let_def split: if_splits)
next
  case (EvLead c)
  then show ?thesis using x e ne by (auto simp: view_def Let_def win_election_def split: if_splits option.splits pc.splits)
next
  case (EvUpdate c now rnd)
  then show ?thesis using x e ne by (auto simp: view_def take_leadership_def dest!: resetElectionDeadline_Some split: if_splits)
next
  case (EvBackoff c now rnd)
  then show ?thesis using x e ne by (auto simp: view_def dest!: resetElectionDeadline_Some split: if_splits)
next
  case (EvRecv1 c j)
  then show ?thesis using x e ne by (auto dest: take_response_view split: option.splits pc.splits if_splits prod.splits)
next
  case (EvRecv2 c j)
  then show ?thesis using x e ne by (auto dest: take_response_view split: option.splits pc.splits if_splits prod.splits)
qed (use x e ne in \<open>auto simp: Let_def split: option.splits pc.splits if_splits prod.splits\<close>)

fun delivered_to :: "event \<Rightarrow> NodeID option" where
  "delivered_to (EvDeliver (_, to, _) _ _ _) = Some to"
| "delivered_to _ = None"

lemma HandleResponse_queued: "queued (HandleResponse m p) i \<le> Suc (queued p i)"
  by (auto simp: HandleResponse_def queued_def split: option.splits)

lemma handleMessage_queued:
  assumes "handleMessage S now rnd from m n = Some (n', out)"
  shows "queued (proposer n') i \<le> Suc (queued (proposer n) i)"
proof (cases m)
  case (Heartbeat b l k)
  then have "same_goroutines n n'" using assms by (auto simp: handleMessage_def dest: handleHeartbeat_same)
  then show ?thesis by (simp add: same_goroutines_def queued_def)
qed (use assms HandleResponse_queued in \<open>auto simp: handleMessage_def split: prod.splits\<close>)

lemma other_event_steps:
  assumes ok: "cluster_ok M s" and aM: "a \<in> M" and x: "exec S M e s = Some s'" and e: "goroutine_of e \<noteq> Some (a, i)"
    and run: "procs s a i \<noteq> None"
  shows "steps_left s' a i \<le> steps_left s a i + (if delivered_to e = Some a then 1 else 0)"
proof (cases "goroutine_of e")
  case (Some g)
  then obtain c j where c: "goroutine_of e = Some (c, j)" by (cases g) simp
  then have "(c, j) \<noteq> (a, i)" using e by simp
  from steps_left_view [OF own_event_view [OF x c this]] show ?thesis by simp
next
  case None
  from ok aM have g: "goroutines_ok (nodes s a) (procs s a)" by (simp add: cluster_ok_def)
  show ?thesis
  proof (cases e)
    case (EvPropose c v)
    have "nextInstance (proposer (nodes s a)) = 0 \<or> i \<noteq> nextInstance (proposer (nodes s a))"
      using goroutines_okD(4) [OF g] run by auto
    then show ?thesis using x EvPropose
      by (auto simp: steps_left_def queued_def begin_proposal_def Let_def split: if_splits option.splits)
  next
    case (EvDeliver pkt now rnd up)
    obtain src dst m where pkt: "pkt = (src, dst, m)" by (rule prod_cases3)
    with x EvDeliver obtain n' out where h: "handleMessage S now rnd src m (nodes s dst) = Some (n', out)"
      and s': "s' = fold (\<lambda>(d, r). send dst (if up then [d] else []) r) out (upd_node dst n' (s\<lparr>net := remove1 pkt (net s)\<rparr>))"
      by (auto split: if_splits)
    have f: "nodes (fold (\<lambda>(d, r). send dst (if up then [d] else []) r) out s) = nodes s
        \<and> procs (fold (\<lambda>(d, r). send dst (if up then [d] else []) r) out s) = procs s" for s :: "'a cluster"
      by (induction out arbitrary: s) auto
    have "nodes s' = (nodes s)(dst := n')" "procs s' = procs s" by (simp_all add: s' f)
    then show ?thesis using handleMessage_queued [OF h, of i] EvDeliver pkt
      by (auto simp: steps_left_def split: option.splits)
  next
    case (EvTick c now rnd ds)
    then obtain n' out elect where t: "checkLeaderAndHeartbeat now rnd (nodes s c) = Some (n', out, elect)"
      and s': "s' = (let s = fold (send c ds) out (upd_node c n' s) in if elect then set_pc c 0 (Some ElectionStart) s else s)"
      using x by (auto split: if_splits)
    have f: "nodes (fold (send c ds) out s) = nodes s" "procs (fold (send c ds) out s) = procs s" for s :: "'a cluster"
      by (induction out arbitrary: s) simp_all
    have "proposer n' = proposer (nodes s c)" "c = a \<and> elect \<longrightarrow> i \<noteq> 0" using t run goroutines_okD(3) [OF g]
      by (auto simp: checkLeaderAndHeartbeat_def dest!: resetElectionDeadline_Some split: if_splits)
    then show ?thesis by (auto simp: s' f Let_def steps_left_def split: option.splits)
  next
    case (EvStart c err now rnd)
    then show ?thesis using x
      by (auto simp: steps_left_def Start_def Let_def dest!: resetElectionDeadline_Some split: if_splits option.splits)
  next
    case (EvReceive c)
    then show ?thesis using x by (auto simp: steps_left_def Subscribe_recv_def split: if_splits list.splits option.splits)
  next
    case (EvRestart c)
    then show ?thesis using x by (auto simp: steps_left_def Let_def split: if_splits sum.splits option.splits)
  qed (use x None in \<open>auto simp: steps_left_def split: if_splits option.splits\<close>)
qed

text \<open>The goroutine of instance \<open>i\<close> at node \<open>a\<close> runs until the last event of \<open>es\<close>.\<close>

fun runs_through :: "'s Storage \<Rightarrow> NodeID set \<Rightarrow> NodeID \<Rightarrow> Instance \<Rightarrow> event list \<Rightarrow> 's cluster \<Rightarrow> bool" where
  "runs_through S M a i [] s \<longleftrightarrow> True"
| "runs_through S M a i (e # es) s \<longleftrightarrow> procs s a i \<noteq> None
     \<and> (case exec S M e s of None \<Rightarrow> False | Some s' \<Rightarrow> runs_through S M a i es s')"

definition own_steps :: "NodeID \<Rightarrow> Instance \<Rightarrow> event list \<Rightarrow> nat" where
  "own_steps a i es = length (filter (\<lambda>e. goroutine_of e = Some (a, i)) es)"

definition deliveries :: "NodeID \<Rightarrow> event list \<Rightarrow> nat" where
  "deliveries a es = length (filter (\<lambda>e. delivered_to e = Some a) es)"

lemma goroutine_delivers: "goroutine_of e = Some g \<Longrightarrow> delivered_to e = None"
  by (cases e) auto

lemma own_steps_le:
  assumes "cluster_ok M s" "a \<in> M" "runs_through S M a i es s"
  shows "own_steps a i es \<le> steps_left s a i + deliveries a es"
  using assms
proof (induction es arbitrary: s)
  case (Cons e es)
  then obtain s' where x: "exec S M e s = Some s'" and r: "runs_through S M a i es s'" and run: "procs s a i \<noteq> None"
    by (auto split: option.splits)
  note IH = Cons.IH [OF exec_cluster_ok [OF Cons.prems(1) x] Cons.prems(2) r]
  show ?case
  proof (cases "goroutine_of e = Some (a, i)")
    case True
    then show ?thesis using IH own_event_steps [OF Cons.prems(1) x True] goroutine_delivers [OF True] by (simp add: own_steps_def deliveries_def)
  next
    case False
    then show ?thesis using IH other_event_steps [OF Cons.prems(1,2) x False run]
      by (auto simp: own_steps_def deliveries_def split: if_splits)
  qed
qed (simp add: own_steps_def)

lemma steps_left_bound: "steps_left s a i \<le> 9 + queued (proposer (nodes s a)) i"
proof -
  have "rank i pc \<le> 9" for pc by (cases pc) simp_all
  then show ?thesis by (simp add: steps_left_def split: option.splits)
qed

text \<open>A goroutine is never stuck: the calls it makes return, and while it waits for responses its
  deadline can expire.\<close>

lemma own_event_enabled:
  assumes ok: "cluster_ok M s" and aM: "a \<in> M" and pc: "procs s a i = Some pc"
    and to: "i = 0 \<Longrightarrow> 0 < sint (ElectionTimeout (config (nodes s a)))"
  shows "\<exists>e s'. goroutine_of e = Some (a, i) \<and> exec S M e s = Some s'"
proof -
  from ok aM have g: "goroutines_ok (nodes s a) (procs s a)" by (simp add: cluster_ok_def)
  have el: "i = 0" if "\<not> proposal_pc pc" using that goroutines_okD(2) [OF g] pc by (auto simp: pcs_ok_def split: if_splits)
  have st: "\<exists>st. pending (proposer (nodes s a)) i = Some st" if "registered_pc pc"
    using that goroutines_okD(1) [OF g] pc by (auto simp: registered_def)
  have dl: "resetElectionDeadline 0 0 n \<noteq> None" if "0 < sint (ElectionTimeout (config n))" for n :: "'a Node"
    using that by (simp add: resetElectionDeadline_def randomElectionTimeout_def Let_def)
  have peers: "peers_ok M a []" by (simp add: peers_ok_def)
  have own: ?thesis if "goroutine_of e = Some (a, i)" "exec S M e s \<noteq> None" for e using that by blast
  show ?thesis
  proof (cases pc)
    case ElectionStart
    then show ?thesis using own [of "EvElect a"] el pc aM by (simp add: begin_election_def Let_def)
  next
    case Phase1Own
    then show ?thesis using own [of "EvOwn1 a i"] st pc aM by (auto simp: Let_def split: prod.splits)
  next
    case (Phase1Cast ps)
    then show ?thesis using own [of "EvCast1 a i []"] st pc aM peers by auto
  next
    case (Phase1Wait ps)
    then show ?thesis using own [of "EvTimeout a i"] pc aM by simp
  next
    case Phase2Own
    then show ?thesis using own [of "EvOwn2 a i"] st pc aM by (auto simp: Let_def split: prod.splits)
  next
    case (Phase2Cast ps)
    then show ?thesis using own [of "EvCast2 a i []"] st pc aM peers by auto
  next
    case (Phase2Wait ps)
    then show ?thesis using own [of "EvTimeout a i"] pc aM by simp
  next
    case CommitOwn
    then show ?thesis using own [of "EvCommitOwn a i"] st pc aM by auto
  next
    case CommitCast
    then show ?thesis using own [of "EvCommitCast a i []"] st pc aM peers by auto
  next
    case Returning
    then show ?thesis using own [of "EvReturn a i"] pc aM by simp
  next
    case ElectionWon
    then show ?thesis using own [of "EvLead a"] st el pc aM by (auto simp: Let_def)
  next
    case ElectionLed
    then show ?thesis using own [of "EvReturn a i"] pc aM by simp
  next
    case ElectionUpdate
    then show ?thesis using own [of "EvUpdate a 0 0"] el pc aM to dl by (auto simp: take_leadership_def)
  next
    case (ElectionBeat l)
    then show ?thesis using own [of "EvBeat a []"] el pc aM peers by simp
  next
    case ElectionLost
    then show ?thesis using own [of "EvBackoff a 0 0"] el pc aM to dl by auto
  next
    case ElectionEnd
    then show ?thesis using own [of "EvElected a"] el pc aM by simp
  qed
qed

lemma own_event_config:
  assumes "exec S M e s = Some s'" "goroutine_of e = Some g"
  shows "config (nodes s' a) = config (nodes s a)"
proof -
  have a1: "config (nodes (after_phase1 c j r w s) a) = config (nodes s a)" for c j r w and s :: "'a cluster"
    by (auto simp: after_phase1_def Let_def split: progress.splits sum.splits option.splits)
  have a2: "config (nodes (after_phase2 c j r w s) a) = config (nodes s a)" for c j r w and s :: "'a cluster"
    by (simp add: after_phase2_def)
  have t: "config (nodes s' a) = config (nodes s a)" if "take_response c j s = Some (m, s')" for c j m and s' :: "'a cluster"
    using that by (auto simp: take_response_def Let_def split: option.splits list.splits)
  show ?thesis
  proof (cases e)
    case (EvUpdate c now rnd)
    then show ?thesis using assms by (auto simp: take_leadership_def dest!: resetElectionDeadline_Some split: if_splits)
  next
    case (EvBackoff c now rnd)
    then show ?thesis using assms by (auto dest!: resetElectionDeadline_Some split: if_splits)
  qed (use assms t in \<open>auto simp: a1 a2 Let_def split: option.splits pc.splits if_splits prod.splits\<close>)
qed

lemma goroutine_end_run:
  assumes "cluster_ok M s" "a \<in> M" "i = 0 \<Longrightarrow> 0 < sint (ElectionTimeout (config (nodes s a)))"
  shows "\<exists>es s'. run S M es s = Some s' \<and> procs s' a i = None \<and> length es \<le> steps_left s a i
    \<and> list_all (\<lambda>e. goroutine_of e = Some (a, i)) es"
  using assms
proof (induction "steps_left s a i" arbitrary: s rule: less_induct)
  case less
  show ?case
  proof (cases "procs s a i")
    case None
    then show ?thesis by (intro exI [of _ "[]"] exI [of _ s]) simp
  next
    case (Some pc)
    then obtain e s1 where e: "goroutine_of e = Some (a, i)" and x: "exec S M e s = Some s1"
      using own_event_enabled [OF less.prems(1,2)] less.prems(3) by blast
    note d = own_event_steps [OF less.prems(1) x e]
    obtain es s' where "run S M es s1 = Some s'" "procs s' a i = None" "length es \<le> steps_left s1 a i"
      "list_all (\<lambda>e. goroutine_of e = Some (a, i)) es"
      using less.hyps [OF d exec_cluster_ok [OF less.prems(1) x] less.prems(2)] less.prems(3) own_event_config [OF x e] by auto
    then show ?thesis using x e d by (intro exI [of _ "e # es"] exI [of _ s']) simp
  qed
qed

section \<open>Properties\<close>

text \<open>C12. The table of proposals and the goroutines agree.  In every run of a cluster, on any
  storage and with any faults of the network, the entries of \<open>pending\<close> are exactly the
  proposals and elections whose goroutine is between registering the proposal and the deferred
  function that removes it; each queue of responses fits its buffered channel; \<open>electing\<close> is set
  exactly while an election goroutine exists, also before it has registered and after
  \<open>BecomeLeader\<close> has removed its entry; instance 0 is used for elections only; and the instance
  of the next proposal is not in use (until the counter wraps around).\<close>

theorem goroutines_well_formed:
  assumes "cluster_init S fresh M s0" "run S M es s0 = Some s" "a \<in> M"
  shows "(pending (proposer (nodes s a)) i \<noteq> None \<longleftrightarrow> (\<exists>pc. procs s a i = Some pc \<and> registered_pc pc))
    \<and> (\<forall>st. pending (proposer (nodes s a)) i = Some st \<longrightarrow>
         ps_instance st = i \<and> length (responses st) \<le> responseBufferSize (proposer (nodes s a)))
    \<and> (electing (nodes s a) \<longleftrightarrow> procs s a 0 \<noteq> None)
    \<and> (\<forall>pc. procs s a i = Some pc \<longrightarrow> (if i = 0 then election_pc pc else proposal_pc pc))
    \<and> (nextInstance (proposer (nodes s a)) \<noteq> 0 \<longrightarrow> procs s a (nextInstance (proposer (nodes s a))) = None)"
proof -
  have g: "goroutines_ok (nodes s a) (procs s a)"
    using run_cluster_ok [OF init_cluster_ok [OF assms(1)] assms(2)] assms(3) by (simp add: cluster_ok_def)
  show ?thesis
    using goroutines_okD(1) [OF g, unfolded registered_def] goroutines_okD(2) [OF g, unfolded pcs_ok_def] goroutines_okD(3,4) [OF g]
    by (intro conjI) blast+
qed

definition proposal_started :: "event list" where
  "proposal_started = [EvStart 1 None 0 0, EvPropose 1 (Some [7])]"

text \<open>A proposal that times out in phase 1.\<close>

definition silent_peers :: "event list" where
  "silent_peers = [EvOwn1 1 1, EvCast1 1 1 [], EvTimeout 1 1, EvReturn 1 1]"

lemma proposal_started_run:
  obtains s where "run memory_storage {1, 2, 3} proposal_started three = Some s"
    "procs s 1 1 = Some Phase1Own" "queued (proposer (nodes s 1)) 1 = 0"
    "runs_through memory_storage {1, 2, 3} 1 1 silent_peers s"
proof -
  have "\<exists>s. run memory_storage {1, 2, 3} proposal_started three = Some s
      \<and> procs s 1 1 = Some Phase1Own \<and> queued (proposer (nodes s 1)) 1 = 0
      \<and> runs_through memory_storage {1, 2, 3} 1 1 silent_peers s"
    by (simp add: cluster_eval proposal_started_def silent_peers_def queued_def)
  then show thesis using that by blast
qed

theorem goroutines_well_formed_witness:
  "\<exists>s. run memory_storage {1, 2, 3} proposal_started three = Some s \<and> procs s 1 1 = Some Phase1Own
     \<and> pending (proposer (nodes s 1)) 1 \<noteq> None \<and> (electing (nodes s 1) \<longleftrightarrow> procs s 1 0 \<noteq> None)"
proof -
  obtain s where s: "run memory_storage {1, 2, 3} proposal_started three = Some s" "procs s 1 1 = Some Phase1Own"
    by (rule proposal_started_run)
  from goroutines_well_formed [OF three_init s(1), of 1 1] s show ?thesis by simp
qed

text \<open>C13. Termination.  However the events of a run interleave, a running proposal or election
  makes at most 9 steps of its own, one for each message that is in its queue and one for each
  message that is delivered to its node meanwhile: neither \<open>Propose\<close> nor \<open>startElection\<close> can
  loop.\<close>

theorem goroutine_terminates:
  assumes "cluster_init S fresh M s0" "run S M es s0 = Some s" "a \<in> M" "runs_through S M a i es' s"
  shows "own_steps a i es' \<le> 9 + queued (proposer (nodes s a)) i + deliveries a es'"
proof -
  have "cluster_ok M s" by (rule run_cluster_ok [OF init_cluster_ok [OF assms(1)] assms(2)])
  from steps_left_bound [of s a i] own_steps_le [OF this assms(3,4)] show ?thesis by simp
qed

theorem goroutine_terminates_witness:
  "\<exists>s. run memory_storage {1, 2, 3} proposal_started three = Some s
     \<and> runs_through memory_storage {1, 2, 3} 1 1 silent_peers s \<and> own_steps 1 1 silent_peers \<le> 9"
proof -
  obtain s where s: "run memory_storage {1, 2, 3} proposal_started three = Some s"
    "queued (proposer (nodes s 1)) 1 = 0" "runs_through memory_storage {1, 2, 3} 1 1 silent_peers s"
    by (rule proposal_started_run)
  from goroutine_terminates [OF three_init s(1) _ s(3)] s show ?thesis by (simp add: deliveries_def silent_peers_def)
qed

text \<open>C14. A goroutine needs no message to return.  Whatever state a run has reached, a running
  proposal or election can return by its own steps alone, with every peer silent and every
  connection down, provided its broadcasts return: at most 9 steps and one for each response in
  its queue.  For an election the node's election timeout must be positive, or drawing the next
  deadline panics.\<close>

theorem goroutine_returns:
  assumes "cluster_init S fresh M s0" "run S M es s0 = Some s" "a \<in> M"
    "i = 0 \<Longrightarrow> 0 < sint (ElectionTimeout (config (nodes s a)))"
  shows "\<exists>es' s'. run S M es' s = Some s' \<and> procs s' a i = None \<and> pending (proposer (nodes s' a)) i = None
    \<and> length es' \<le> 9 + queued (proposer (nodes s a)) i \<and> list_all (\<lambda>e. goroutine_of e = Some (a, i)) es'"
proof -
  have ok: "cluster_ok M s" by (rule run_cluster_ok [OF init_cluster_ok [OF assms(1)] assms(2)])
  obtain es' s' where r: "run S M es' s = Some s'" "procs s' a i = None" "length es' \<le> steps_left s a i"
    "list_all (\<lambda>e. goroutine_of e = Some (a, i)) es'"
    using goroutine_end_run [OF ok assms(3,4)] by blast
  have "goroutines_ok (nodes s' a) (procs s' a)" using run_cluster_ok [OF ok r(1)] assms(3) by (simp add: cluster_ok_def)
  then have "pending (proposer (nodes s' a)) i = None" using r(2) goroutines_okD(1) unfolding registered_def by (metis option.distinct(1))
  with r steps_left_bound [of s a i] show ?thesis by (intro exI [of _ es'] exI [of _ s']) simp
qed

theorem goroutine_returns_witness:
  "\<exists>s es' s'. run memory_storage {1, 2, 3} proposal_started three = Some s \<and> procs s 1 1 = Some Phase1Own
     \<and> run memory_storage {1, 2, 3} es' s = Some s' \<and> procs s' 1 1 = None \<and> length es' \<le> 9"
proof -
  obtain s where s: "run memory_storage {1, 2, 3} proposal_started three = Some s" "procs s 1 1 = Some Phase1Own"
    "queued (proposer (nodes s 1)) 1 = 0"
    by (rule proposal_started_run)
  from goroutine_returns [OF three_init s(1), of 1 1] s show ?thesis by auto
qed

end
