(* ===== verification/Cluster_Progress.thy ===== *)
theory Cluster_Progress
  imports Cluster_Safety
begin

text \<open>
  Progress of a cluster: if a proposer is connected to enough peers whose acceptors have promised no
  higher ballot and whose storage works, its proposal can be chosen, committed and learned by all of
  them.  The run is built from the events of the cluster: one round trip per peer and phase.

  The same runs show that two of the conditions under which agreement is proved cannot be dropped:
  a node that has committed an instance and forgotten its votes can get another value chosen for
  it, and so can any node if the value accepted before is empty.
\<close>

section \<open>Runs without faults\<close>

definition reaches :: "'s Storage \<Rightarrow> NodeID set \<Rightarrow> 's cluster \<Rightarrow> 's cluster \<Rightarrow> bool" where
  "reaches S M s s' \<longleftrightarrow> (\<exists>es. list_all faultless es \<and> run S M es s = Some s')"

lemma run_append: "run S M es s = Some s' \<Longrightarrow> run S M (es @ es') s = run S M es' s'"
  by (induction es arbitrary: s) (auto split: option.splits)

lemma reaches_refl: "reaches S M s s"
  unfolding reaches_def by (rule exI [of _ "[]"]) simp

lemma reaches_run: "run S M es s = Some s' \<Longrightarrow> list_all faultless es \<Longrightarrow> reaches S M s s'"
  unfolding reaches_def by blast

lemma reaches_trans:
  assumes "reaches S M s s1" "reaches S M s1 s2"
  shows "reaches S M s s2"
proof -
  obtain es es' where "list_all faultless (es @ es')" "run S M es s = Some s1" "run S M es' s1 = Some s2"
    using assms unfolding reaches_def by auto
  then show ?thesis by (intro reaches_run [of S M "es @ es'"]) (simp_all add: run_append)
qed

lemma reaches_step: "exec S M e s = Some s1 \<Longrightarrow> faultless e \<Longrightarrow> reaches S M s1 s2 \<Longrightarrow> reaches S M s s2"
  by (rule reaches_trans [of S M s s1]) (rule reaches_run [of S M "[e]"], simp_all)

section \<open>Storage that works\<close>

text \<open>What a vote needs of the storage: while it is \<open>up\<close>, saving the acceptor's state succeeds.\<close>

locale working_storage =
  fixes S :: "'s Storage" and up :: "'s \<Rightarrow> bool"
  assumes save_works: "up st \<Longrightarrow> fst (SaveAcceptorState S st x) = None \<and> up (snd (SaveAcceptorState S st x))"

interpretation mem_up: working_storage memory_storage "\<lambda>st. \<not> closed st"
  by unfold_locales (simp add: mem_SaveAcceptorState_def)

text \<open>A node that votes for the ballot, and one whose promise will report no bytes for the instance:
  it has accepted nothing, or the empty value.\<close>

definition votes :: "('s \<Rightarrow> bool) \<Rightarrow> Ballot \<Rightarrow> Instance \<Rightarrow> 's Node \<Rightarrow> bool" where
  "votes up b i n \<longleftrightarrow> GetPromised (acceptor n) i \<le> b \<and> up (storage n)"

definition hollow :: "Instance \<Rightarrow> 's Node \<Rightarrow> bool" where
  "hollow i n \<longleftrightarrow> slice_len (go_get None (acceptedValue (acceptor n)) i) = 0"

context working_storage
begin

lemma persist_works: "up st \<Longrightarrow> \<exists>st'. persist (Some S) acc st = (None, st') \<and> up st'"
  using save_works [of st "acceptor_snapshot acc"] by (simp add: persist_def) (metis prod.collapse)

lemma prepare_vote:
  assumes "votes up b i n"
  obtains x ab acc sto where
    "HandlePrepare (Some S) b i (acceptor n) (storage n) = (Promise b i x ab (go_get None (acceptedValue (acceptor n)) i), acc, sto)"
    "votes up b i (n\<lparr>acceptor := acc, storage := sto\<rparr>)"
proof -
  let ?acc = "(acceptor n)\<lparr>promised := (promised (acceptor n))(i \<mapsto> b)\<rparr>"
  obtain sto where sto: "persist (Some S) ?acc (storage n) = (None, sto)" "up sto"
    using persist_works [of "storage n" ?acc] assms by (auto simp: votes_def)
  have "HandlePrepare (Some S) b i (acceptor n) (storage n) = (Promise b i (acc_nodeID (acceptor n))
      (go_get 0 (acceptedBallot (acceptor n)) i) (go_get None (acceptedValue (acceptor n)) i), ?acc, sto)"
    using HandlePrepare_grant [OF _ sto(1)] assms by (simp add: votes_def GetAccepted_def)
  with sto(2) show thesis by (intro that) (auto simp: votes_def)
qed

lemma accept_vote:
  assumes "votes up b i n"
  obtains x acc sto where "HandleAccept (Some S) b i v (acceptor n) (storage n) = (Accepted b i x, acc, sto)"
    "votes up b i (n\<lparr>acceptor := acc, storage := sto\<rparr>)"
proof -
  let ?acc = "(acceptor n)\<lparr>promised := (promised (acceptor n))(i \<mapsto> b), acceptedBallot := (acceptedBallot (acceptor n))(i \<mapsto> b),
    acceptedValue := (acceptedValue (acceptor n))(i \<mapsto> v)\<rparr>"
  obtain sto where sto: "persist (Some S) ?acc (storage n) = (None, sto)" "up sto"
    using persist_works [of "storage n" ?acc] assms by (auto simp: votes_def)
  have "HandleAccept (Some S) b i v (acceptor n) (storage n) = (Accepted b i (acc_nodeID (acceptor n)), ?acc, sto)"
    using HandleAccept_grant [OF _ sto(1)] assms by (simp add: votes_def)
  with sto(2) show thesis by (intro that) (auto simp: votes_def GetPromised_def)
qed

end

section \<open>One round trip\<close>

text \<open>A request is delivered to the peer, its response comes back and is queued and received.\<close>

lemma queue_and_take:
  assumes "pending (proposer (nodes s a)) i = Some st" "responses st = []" "response_key m = Some (i, ps_ballot st)"
  shows "take_response a i (upd_node a ((nodes s a)\<lparr>proposer := HandleResponse m (proposer (nodes s a))\<rparr>) s) = Some (m, s)"
proof -
  let ?n = "nodes s a" and ?p = "proposer (nodes s a)"
  have "0 < responseBufferSize ?p" by (simp add: responseBufferSize_def Let_def)
  then have h: "HandleResponse m ?p = ?p\<lparr>pending := (pending ?p)(i \<mapsto> st\<lparr>responses := [m]\<rparr>)\<rparr>"
    using assms by (simp add: HandleResponse_def)
  let ?p' = "?p\<lparr>pending := (pending ?p)(i \<mapsto> st\<lparr>responses := [m]\<rparr>)\<rparr>"
  let ?x = "?p'\<lparr>pending := (pending ?p')(i \<mapsto> st\<lparr>responses := []\<rparr>)\<rparr>"
  have st: "st\<lparr>responses := []\<rparr> = st" using assms(2) by (cases st) simp
  have "pending ?x = pending ?p" using assms(1) by (simp add: st fun_upd_idem)
  then have x: "?x = ?p" by (cases ?p) simp
  have "upd_node a (?n\<lparr>proposer := ?x\<rparr>) s = s" unfolding x by (cases s) (simp add: upd_node_def)
  moreover have "take_response a i (upd_node a (?n\<lparr>proposer := ?p'\<rparr>) s) = Some (m, upd_node a (?n\<lparr>proposer := ?x\<rparr>) s)"
    by (simp add: take_response_def Let_def)
  ultimately show ?thesis unfolding h by simp
qed

text \<open>The state in which the response is received, \<open>n\<close> being the peer after its vote.\<close>

definition answered :: "packet \<Rightarrow> packet \<Rightarrow> NodeID \<Rightarrow> 's Node \<Rightarrow> 's cluster \<Rightarrow> 's cluster" where
  "answered request response q n s =
     s\<lparr>nodes := (nodes s)(q := n), net := remove1 response (remove1 request (net s) @ [response])\<rparr>"

lemma answered_simps [simp]:
  "nodes (answered rq rs q n s) = (nodes s)(q := n)" "procs (answered rq rs q n s) = procs s" "running (answered rq rs q n s) = running s"
  "pk \<in> set (net s) \<Longrightarrow> pk \<noteq> rq \<Longrightarrow> pk \<noteq> rs \<Longrightarrow> pk \<in> set (net (answered rq rs q n s))"
  by (simp_all add: answered_def)

lemma round_trip_run:
  assumes M: "a \<in> M" "q \<in> M" "q \<noteq> a" and up: "running s a" "running s q" and pk: "(a, q, request) \<in> set (net s)"
    and h: "handleMessage S 0 0 a request (nodes s q) = Some (n, [(a, response)])"
    and key: "response_key (wire response) = Some (i, ps_ballot st)" and fits: "frame_fits response"
    and st: "pending (proposer (nodes s a)) i = Some st" "responses st = []"
  shows "\<exists>s2. reaches S M s s2 \<and> procs s2 = procs s \<and> proposer (nodes s2 a) = HandleResponse (wire response) (proposer (nodes s a))
    \<and> take_response a i s2 = Some (wire response, answered (a, q, request) (q, a, wire response) q n s)"
proof -
  let ?r = "wire response"
  let ?s1 = "s\<lparr>nodes := (nodes s)(q := n), net := remove1 (a, q, request) (net s) @ [(q, a, ?r)]\<rparr>"
  let ?s = "answered (a, q, request) (q, a, ?r) q n s"
  let ?s2 = "upd_node a ((nodes ?s a)\<lparr>proposer := HandleResponse ?r (proposer (nodes ?s a))\<rparr>) ?s"
  have x: "exec S M (EvDeliver (a, q, request) 0 0 True) s = Some ?s1"
    using M up pk h fits by (simp add: send_def packets_def upd_node_def transmit_iff)
  have hr: "handleMessage S 0 0 q ?r n' = Some (n'\<lparr>proposer := HandleResponse ?r (proposer n')\<rparr>, [])" for n' :: "'a Node"
    using key by (cases ?r) (simp_all add: handleMessage_def)
  have y: "exec S M (EvDeliver (q, a, ?r) 0 0 True) ?s1 = Some ?s2"
    using M up by (simp add: hr answered_def upd_node_def)
  have "reaches S M s ?s2" by (rule reaches_step [OF x _ reaches_step [OF y _ reaches_refl]]) simp_all
  moreover have "take_response a i ?s2 = Some (?r, ?s)" by (rule queue_and_take) (use M st key in simp_all)
  ultimately show ?thesis using M by (intro exI [of _ ?s2]) simp
qed

lemma quorum_HandleResponse [simp]: "quorumSize (HandleResponse m p) = quorumSize p"
  by (simp add: HandleResponse_def split: option.splits)

section \<open>The two phases\<close>

text \<open>The proposal \<open>st\<close> of node \<open>a\<close> with an empty queue, the nodes \<open>A\<close> that vote for it, all of them
  running, and what each node has committed for the instance.\<close>

definition gathering :: "('s \<Rightarrow> bool) \<Rightarrow> NodeID set \<Rightarrow> NodeID \<Rightarrow> Instance \<Rightarrow> proposalState \<Rightarrow> NodeID set \<Rightarrow> nat
    \<Rightarrow> (NodeID \<Rightarrow> CommittedValue option) \<Rightarrow> 's cluster \<Rightarrow> bool" where
  "gathering up M a i st A k cm s \<longleftrightarrow> a \<in> A \<and> A \<subseteq> M \<and> pending (proposer (nodes s a)) i = Some st \<and> responses st = []
     \<and> quorumSize (proposer (nodes s a)) = k \<and> (\<forall>c \<in> A. votes up (ps_ballot st) i (nodes s c) \<and> running s c)
     \<and> (\<forall>c. committed (nodes s c) i = cm c)"

lemma gathering_answered:
  assumes "gathering up M a i st A k cm s" "q \<in> A" "q \<noteq> a" "votes up (ps_ballot st) i ((nodes s q)\<lparr>acceptor := acc, storage := sto\<rparr>)"
  shows "gathering up M a i st A k cm (answered rq rs q ((nodes s q)\<lparr>acceptor := acc, storage := sto\<rparr>) s)"
  using assms by (auto simp: gathering_def)

lemma gathering_cong:
  assumes "gathering up M a i st A k cm s" "nodes s' = nodes s" "running s' = running s"
  shows "gathering up M a i st A k cm s'"
  using assms by (simp add: gathering_def)

lemma no_accepted: "\<forall>m \<in> set ms. m_AcceptedValue m = None \<Longrightarrow> findHighestAccepted ms = None"
proof -
  have "snd (foldl (\<lambda>(hb, hv) m. if m_AcceptedBallot m > hb then (m_AcceptedBallot m, m_AcceptedValue m) else (hb, hv)) (hb, None) ms) = None"
    if "\<forall>m \<in> set ms. m_AcceptedValue m = None" for hb using that by (induction ms arbitrary: hb) auto
  then show "\<forall>m \<in> set ms. m_AcceptedValue m = None \<Longrightarrow> findHighestAccepted ms = None" by (simp add: findHighestAccepted_def)
qed

lemma after_phase1_done:
  assumes g: "gathering up M a i st A k cm s" and i: "i \<noteq> 0"
  shows "gathering up M a i st A k cm (after_phase1 a i (Return (Inr None)) wait s)
    \<and> procs (after_phase1 a i (Return (Inr None)) wait s) a i = Some Phase2Own"
proof -
  have st: "pending (proposer (nodes s a)) i = Some st" using g by (simp add: gathering_def)
  have "st\<lparr>ps_value := value_to_propose None (ps_value st)\<rparr> = st" by (cases st) (simp add: value_to_propose_def)
  then have "after_phase1 a i (Return (Inr None)) wait s = set_pc a i (Some Phase2Own) (upd_node a ((nodes s a)\<lparr>proposer :=
      (proposer (nodes s a))\<lparr>pending := (pending (proposer (nodes s a)))(i \<mapsto> st)\<rparr>\<rparr>) s)"
    using i by (simp add: after_phase1_def st Let_def)
  then show ?thesis using g by (auto simp: gathering_def votes_def)
qed

context working_storage
begin

lemma promise_round:
  assumes g: "gathering up M a i st A k cm s" and q: "q \<in> A" "q \<noteq> a" "hollow i (nodes s q)"
    and pk: "(a, q, Prepare (ps_ballot st) i) \<in> set (net s)" and pc: "procs s a i = Some (Phase1Wait ps)"
  obtains x ab n s3 where "gathering up M a i st A k cm s3" "nodes s3 = (nodes s)(q := n)" "procs s3 = procs s"
    "\<And>c. c \<noteq> q \<Longrightarrow> (a, c, Prepare (ps_ballot st) i) \<in> set (net s) \<Longrightarrow> (a, c, Prepare (ps_ballot st) i) \<in> set (net s3)"
    "reaches S M s (after_phase1 a i (phase1_recv k ps (Promise (ps_ballot st) i x ab None)) Phase1Wait s3)"
proof -
  let ?b = "ps_ballot st" and ?av = "go_get None (acceptedValue (acceptor (nodes s q))) i"
  have M: "a \<in> M" "q \<in> M" and v: "votes up ?b i (nodes s q)" and st: "pending (proposer (nodes s a)) i = Some st" "responses st = []"
    and k: "quorumSize (proposer (nodes s a)) = k" and rn: "running s a" "running s q" using g q by (auto simp: gathering_def)
  obtain x ab acc sto where hp: "HandlePrepare (Some S) ?b i (acceptor (nodes s q)) (storage (nodes s q)) = (Promise ?b i x ab ?av, acc, sto)"
    and v': "votes up ?b i ((nodes s q)\<lparr>acceptor := acc, storage := sto\<rparr>)" using prepare_vote [OF v] by blast
  have av: "slice_len ?av = 0" using q(3) by (simp add: hollow_def)
  let ?n = "(nodes s q)\<lparr>acceptor := acc, storage := sto\<rparr>" and ?m = "Promise ?b i x ab None"
  let ?s3 = "answered (a, q, Prepare ?b i) (q, a, ?m) q ?n s"
  have h: "handleMessage S 0 0 a (Prepare ?b i) (nodes s q) = Some (?n, [(a, Promise ?b i x ab ?av)])" by (simp add: handleMessage_def hp)
  have w: "wire (Promise ?b i x ab ?av) = ?m" using av by (simp add: wire_value_def)
  have fits: "frame_fits (Promise ?b i x ab ?av)" using av by (cases ?av) (simp_all add: frame_fits_def encode_defs put_value_def)
  obtain s2 where s2: "reaches S M s s2"
    "procs s2 = procs s" "proposer (nodes s2 a) = HandleResponse ?m (proposer (nodes s a))" "take_response a i s2 = Some (?m, ?s3)"
    using round_trip_run [OF M q(2) rn pk h _ fits st] unfolding w by auto
  have x: "exec S M (EvRecv1 a i) s2 = Some (after_phase1 a i (phase1_recv k ps ?m) Phase1Wait ?s3)"
    using pc s2(2-4) M k by simp
  have "reaches S M s (after_phase1 a i (phase1_recv k ps ?m) Phase1Wait ?s3)"
    by (rule reaches_trans [OF s2(1) reaches_step [OF x _ reaches_refl]]) simp
  moreover have "(a, c, Prepare ?b i) \<in> set (net s) \<Longrightarrow> (a, c, Prepare ?b i) \<in> set (net ?s3)" if "c \<noteq> q" for c
    using that by (intro answered_simps(4)) auto
  ultimately show thesis by (intro that [of ?s3 ?n]) (simp_all add: gathering_answered [OF g q(1,2) v'])
qed

lemma promises_all:
  assumes "gathering up M a i st A k cm s" "procs s a i = Some (Phase1Wait ps)" "i \<noteq> 0" "distinct Q" "set Q \<subseteq> A - {a}" "Q \<noteq> []"
    "length ps + length Q = k" "\<forall>m \<in> set ps. m_AcceptedValue m = None"
    "\<forall>q \<in> set Q. hollow i (nodes s q) \<and> (a, q, Prepare (ps_ballot st) i) \<in> set (net s)"
  shows "\<exists>s'. reaches S M s s' \<and> gathering up M a i st A k cm s' \<and> procs s' a i = Some Phase2Own"
  using assms
proof (induction Q arbitrary: s ps)
  case (Cons q Q)
  let ?b = "ps_ballot st"
  have q: "q \<in> A" "q \<noteq> a" "hollow i (nodes s q)" and pk: "(a, q, Prepare ?b i) \<in> set (net s)" using Cons.prems(5,9) by auto
  obtain x ab n s3 where g3: "gathering up M a i st A k cm s3" and s3: "nodes s3 = (nodes s)(q := n)" "procs s3 = procs s"
    and net: "\<And>c. c \<noteq> q \<Longrightarrow> (a, c, Prepare ?b i) \<in> set (net s) \<Longrightarrow> (a, c, Prepare ?b i) \<in> set (net s3)"
    and r: "reaches S M s (after_phase1 a i (phase1_recv k ps (Promise ?b i x ab None)) Phase1Wait s3)"
    by (rule promise_round [OF Cons.prems(1) q pk Cons.prems(2)]) blast
  let ?ps = "ps @ [Promise ?b i x ab None]"
  have z: "\<forall>m \<in> set ?ps. m_AcceptedValue m = None" using Cons.prems(8) by auto
  show ?case
  proof (cases "Q = []")
    case True
    then have "phase1_recv k ps (Promise ?b i x ab None) = Return (Inr None)"
      using Cons.prems(7) no_accepted [OF z] by (simp add: phase1_recv_def)
    then show ?thesis using r after_phase1_done [OF g3 Cons.prems(3)] by auto
  next
    case False
    then have "phase1_recv k ps (Promise ?b i x ab None) = Waiting ?ps" using Cons.prems(7) by (cases Q) (auto simp: phase1_recv_def)
    then have r: "reaches S M s (set_pc a i (Some (Phase1Wait ?ps)) s3)" using r by (simp add: after_phase1_def)
    have "\<exists>s'. reaches S M (set_pc a i (Some (Phase1Wait ?ps)) s3) s' \<and> gathering up M a i st A k cm s' \<and> procs s' a i = Some Phase2Own"
    proof (rule Cons.IH [where ps = ?ps])
      show "gathering up M a i st A k cm (set_pc a i (Some (Phase1Wait ?ps)) s3)" by (rule gathering_cong [OF g3]) simp_all
      have "q \<notin> set Q" using Cons.prems(4) by simp
      then show "\<forall>q \<in> set Q. hollow i (nodes (set_pc a i (Some (Phase1Wait ?ps)) s3) q)
          \<and> (a, q, Prepare ?b i) \<in> set (net (set_pc a i (Some (Phase1Wait ?ps)) s3))"
        using Cons.prems(9) s3(1) by (auto intro!: net)
    qed (use Cons.prems False z in \<open>simp_all\<close>)
    then show ?thesis using reaches_trans [OF r] by blast
  qed
qed simp

lemma accepted_round:
  assumes g: "gathering up M a i st A k cm s" and q: "q \<in> A" "q \<noteq> a"
    and pk: "(a, q, Accept (ps_ballot st) i v) \<in> set (net s)" and pc: "procs s a i = Some (Phase2Wait ps)"
  obtains x n s3 where "gathering up M a i st A k cm s3" "nodes s3 = (nodes s)(q := n)" "procs s3 = procs s"
    "\<And>c. c \<noteq> q \<Longrightarrow> (a, c, Accept (ps_ballot st) i v) \<in> set (net s) \<Longrightarrow> (a, c, Accept (ps_ballot st) i v) \<in> set (net s3)"
    "reaches S M s (after_phase2 a i (phase2_recv k ps (Accepted (ps_ballot st) i x)) Phase2Wait s3)"
proof -
  let ?b = "ps_ballot st"
  have M: "a \<in> M" "q \<in> M" and vt: "votes up ?b i (nodes s q)" and st: "pending (proposer (nodes s a)) i = Some st" "responses st = []"
    and k: "quorumSize (proposer (nodes s a)) = k" and rn: "running s a" "running s q" using g q by (auto simp: gathering_def)
  obtain x acc sto where ha: "HandleAccept (Some S) ?b i v (acceptor (nodes s q)) (storage (nodes s q)) = (Accepted ?b i x, acc, sto)"
    and v': "votes up ?b i ((nodes s q)\<lparr>acceptor := acc, storage := sto\<rparr>)" using accept_vote [OF vt] by blast
  let ?n = "(nodes s q)\<lparr>acceptor := acc, storage := sto\<rparr>" and ?m = "Accepted ?b i x"
  let ?s3 = "answered (a, q, Accept ?b i v) (q, a, ?m) q ?n s"
  have h: "handleMessage S 0 0 a (Accept ?b i v) (nodes s q) = Some (?n, [(a, ?m)])" by (simp add: handleMessage_def ha)
  obtain s2 where s2: "reaches S M s s2"
    "procs s2 = procs s" "proposer (nodes s2 a) = HandleResponse ?m (proposer (nodes s a))" "take_response a i s2 = Some (?m, ?s3)"
    using round_trip_run [OF M q(2) rn pk h _ _ st] by auto
  have x: "exec S M (EvRecv2 a i) s2 = Some (after_phase2 a i (phase2_recv k ps ?m) Phase2Wait ?s3)"
    using pc s2(2-4) M k by simp
  have "reaches S M s (after_phase2 a i (phase2_recv k ps ?m) Phase2Wait ?s3)"
    by (rule reaches_trans [OF s2(1) reaches_step [OF x _ reaches_refl]]) simp
  moreover have "(a, c, Accept ?b i v) \<in> set (net s) \<Longrightarrow> (a, c, Accept ?b i v) \<in> set (net ?s3)" if "c \<noteq> q" for c
    using that by (intro answered_simps(4)) auto
  ultimately show thesis by (intro that [of ?s3 ?n]) (simp_all add: gathering_answered [OF g q v'])
qed

lemma accepteds_all:
  assumes "gathering up M a i st A k cm s" "procs s a i = Some (Phase2Wait ps)" "distinct Q" "set Q \<subseteq> A - {a}" "Q \<noteq> []"
    "length ps + length Q = k" "\<forall>q \<in> set Q. (a, q, Accept (ps_ballot st) i v) \<in> set (net s)"
  shows "\<exists>s'. reaches S M s s' \<and> gathering up M a i st A k cm s' \<and> procs s' a i = Some CommitOwn"
  using assms
proof (induction Q arbitrary: s ps)
  case (Cons q Q)
  let ?b = "ps_ballot st"
  have q: "q \<in> A" "q \<noteq> a" and pk: "(a, q, Accept ?b i v) \<in> set (net s)" using Cons.prems(4,7) by auto
  obtain x n s3 where g3: "gathering up M a i st A k cm s3" and s3: "nodes s3 = (nodes s)(q := n)" "procs s3 = procs s"
    and net: "\<And>c. c \<noteq> q \<Longrightarrow> (a, c, Accept ?b i v) \<in> set (net s) \<Longrightarrow> (a, c, Accept ?b i v) \<in> set (net s3)"
    and r: "reaches S M s (after_phase2 a i (phase2_recv k ps (Accepted ?b i x)) Phase2Wait s3)"
    by (rule accepted_round [OF Cons.prems(1) q pk Cons.prems(2)]) blast
  show ?case
  proof (cases "Q = []")
    case True
    then have "reaches S M s (set_pc a i (Some CommitOwn) s3)"
      using Cons.prems(6) r by (simp add: phase2_recv_def after_phase2_def)
    moreover have "gathering up M a i st A k cm (set_pc a i (Some CommitOwn) s3)" by (rule gathering_cong [OF g3]) simp_all
    ultimately show ?thesis by (intro exI [of _ "set_pc a i (Some CommitOwn) s3"]) simp
  next
    case False
    let ?ps = "ps @ [Accepted ?b i x]"
    have "phase2_recv k ps (Accepted ?b i x) = Waiting ?ps" using Cons.prems(6) False by (cases Q) (auto simp: phase2_recv_def)
    then have r: "reaches S M s (set_pc a i (Some (Phase2Wait ?ps)) s3)" using r by (simp add: after_phase2_def)
    have "\<exists>s'. reaches S M (set_pc a i (Some (Phase2Wait ?ps)) s3) s' \<and> gathering up M a i st A k cm s' \<and> procs s' a i = Some CommitOwn"
    proof (rule Cons.IH [where ps = ?ps])
      show "gathering up M a i st A k cm (set_pc a i (Some (Phase2Wait ?ps)) s3)" by (rule gathering_cong [OF g3]) simp_all
      have "q \<notin> set Q" using Cons.prems(3) by simp
      then show "\<forall>q \<in> set Q. (a, q, Accept ?b i v) \<in> set (net (set_pc a i (Some (Phase2Wait ?ps)) s3))"
        using Cons.prems(7) by (auto intro!: net)
    qed (use Cons.prems False in \<open>simp_all\<close>)
    then show ?thesis using reaches_trans [OF r] by blast
  qed
qed simp

text \<open>The proposer's own vote and the broadcast that follows it, in each phase.\<close>

lemma phase1_begins:
  assumes g: "gathering up M a i st A k cm s" and pc: "procs s a i = Some Phase1Own"
    and u: "acceptedValue (acceptor (nodes s a)) i = None" and k: "2 \<le> k" and Q: "peers_ok M a Q"
  shows "\<exists>ps s'. reaches S M s s' \<and> gathering up M a i st A k cm s' \<and> procs s' a i = Some (Phase1Wait ps)
    \<and> length ps = 1 \<and> (\<forall>m \<in> set ps. m_AcceptedValue m = None) \<and> (\<forall>c. c \<noteq> a \<longrightarrow> nodes s' c = nodes s c)
    \<and> (\<forall>q \<in> set Q. (a, q, Prepare (ps_ballot st) i) \<in> set (net s'))"
proof -
  let ?b = "ps_ballot st" and ?n = "nodes s a"
  have aM: "a \<in> M" and st: "pending (proposer ?n) i = Some st" and kq: "quorumSize (proposer ?n) = k"
    and v: "votes up ?b i ?n" using g by (auto simp: gathering_def)
  obtain x ab acc sto where hp: "HandlePrepare (Some S) ?b i (acceptor ?n) (storage ?n) = (Promise ?b i x ab None, acc, sto)"
    and v': "votes up ?b i (?n\<lparr>acceptor := acc, storage := sto\<rparr>)" using prepare_vote [OF v] u by (metis go_get_def option.simps(4))
  let ?ps = "[Promise ?b i x ab None]" and ?s1 = "upd_node a (?n\<lparr>acceptor := acc, storage := sto\<rparr>) s"
  let ?s = "set_pc a i (Some (Phase1Wait ?ps)) (send a Q (Prepare ?b i) (set_pc a i (Some (Phase1Cast ?ps)) ?s1))"
  have "phase1_local (Some S) k ?b i (acceptor ?n) (storage ?n) = (Waiting ?ps, acc, sto)"
    using k by (simp add: phase1_local_def hp)
  then have "run S M [EvOwn1 a i, EvCast1 a i Q] s = Some ?s" using pc st aM kq Q by (simp add: after_phase1_def)
  then have "reaches S M s ?s" by (rule reaches_run) simp
  moreover have "gathering up M a i st A k cm ?s" using g v' by (auto simp: gathering_def)
  ultimately show ?thesis by (intro exI [of _ ?ps] exI [of _ ?s]) (simp add: packets_def transmit_iff)
qed

lemma phase2_begins:
  assumes g: "gathering up M a i st A k cm s" and pc: "procs s a i = Some Phase2Own" and k: "2 \<le> k"
    and Q: "peers_ok M a Q" and fits: "frame_fits (Accept (ps_ballot st) i (ps_value st))"
  shows "\<exists>ps s'. reaches S M s s' \<and> gathering up M a i st A k cm s' \<and> procs s' a i = Some (Phase2Wait ps)
    \<and> length ps = 1 \<and> (\<forall>q \<in> set Q. (a, q, Accept (ps_ballot st) i (wire_value (ps_value st))) \<in> set (net s'))"
proof -
  let ?b = "ps_ballot st" and ?n = "nodes s a" and ?v = "ps_value st"
  have aM: "a \<in> M" and st: "pending (proposer ?n) i = Some st" and kq: "quorumSize (proposer ?n) = k"
    and v: "votes up ?b i ?n" using g by (auto simp: gathering_def)
  obtain x acc sto where ha: "HandleAccept (Some S) ?b i ?v (acceptor ?n) (storage ?n) = (Accepted ?b i x, acc, sto)"
    and v': "votes up ?b i (?n\<lparr>acceptor := acc, storage := sto\<rparr>)" using accept_vote [OF v] by blast
  let ?ps = "[Accepted ?b i x]" and ?s1 = "upd_node a (?n\<lparr>acceptor := acc, storage := sto\<rparr>) s"
  let ?s = "set_pc a i (Some (Phase2Wait ?ps)) (send a Q (Accept ?b i ?v) (set_pc a i (Some (Phase2Cast ?ps)) ?s1))"
  have "phase2_local (Some S) k ?b i ?v (acceptor ?n) (storage ?n) = (Waiting ?ps, acc, sto)"
    using k by (simp add: phase2_local_def ha)
  then have "run S M [EvOwn2 a i, EvCast2 a i Q] s = Some ?s" using pc st aM kq Q by (simp add: after_phase2_def)
  then have "reaches S M s ?s" by (rule reaches_run) simp
  moreover have "gathering up M a i st A k cm ?s" using g v' by (auto simp: gathering_def)
  ultimately show ?thesis using fits by (intro exI [of _ ?ps] exI [of _ ?s]) (simp add: packets_def transmit_iff)
qed

end

section \<open>Learning\<close>

lemma commits_all:
  assumes "distinct Q" "set Q \<subseteq> M" "\<forall>q \<in> set Q. (a, q, Commit b i v) \<in> set (net s) \<and> running s q"
  shows "\<exists>s'. reaches S M s s' \<and> procs s' = procs s
    \<and> nodes s' = (\<lambda>c. if c \<in> set Q then handleCommit S b i v (nodes s c) else nodes s c)"
  using assms
proof (induction Q arbitrary: s)
  case Nil
  show ?case by (intro exI [of _ s]) (simp add: reaches_refl)
next
  case (Cons q Q)
  let ?s = "upd_node q (handleCommit S b i v (nodes s q)) (s\<lparr>net := remove1 (a, q, Commit b i v) (net s)\<rparr>)"
  have x: "exec S M (EvDeliver (a, q, Commit b i v) 0 0 True) s = Some ?s" using Cons.prems by (simp add: handleMessage_def)
  have Q: "distinct Q" "set Q \<subseteq> M" using Cons.prems by auto
  have pk: "\<forall>p \<in> set Q. (a, p, Commit b i v) \<in> set (net ?s) \<and> running ?s p"
  proof
    fix p assume "p \<in> set Q"
    moreover from this have "p \<noteq> q" using Cons.prems(1) by auto
    ultimately show "(a, p, Commit b i v) \<in> set (net ?s) \<and> running ?s p" using Cons.prems(3) by simp
  qed
  obtain s' where s': "reaches S M ?s s'" "procs s' = procs ?s"
    "nodes s' = (\<lambda>c. if c \<in> set Q then handleCommit S b i v (nodes ?s c) else nodes ?s c)"
    using Cons.IH [OF Q pk] by blast
  have "reaches S M s s'" by (rule reaches_step [OF x _ s'(1)]) simp
  then show ?case using s'(2,3) Cons.prems(1) by (intro exI [of _ s']) auto
qed

lemma commit_begins:
  assumes g: "gathering up M a i st A k cm s" and pc: "procs s a i = Some CommitOwn" and i: "i \<noteq> 0" and Q: "peers_ok M a Q"
    and fits: "frame_fits (Commit (ps_ballot st) i (ps_value st))"
  shows "\<exists>s'. reaches S M s s' \<and> procs s' a i = None \<and> running s' = running s
    \<and> committed (nodes s' a) i = (case cm a of None \<Rightarrow> Some \<lparr>cv_Instance = i, cv_Value = ps_value st, cv_Ballot = ps_ballot st\<rparr>
         | Some cv \<Rightarrow> Some cv)
    \<and> (\<forall>c. c \<noteq> a \<longrightarrow> nodes s' c = nodes s c)
    \<and> (\<forall>q \<in> set Q. (a, q, Commit (ps_ballot st) i (wire_value (ps_value st))) \<in> set (net s'))"
proof -
  have aM: "a \<in> M" and st: "pending (proposer (nodes s a)) i = Some st" and c: "committed (nodes s a) i = cm a"
    using g by (auto simp: gathering_def)
  let ?n = "handleCommit S (ps_ballot st) i (ps_value st) (nodes s a)"
  let ?s = "finish a i None (set_pc a i (Some Returning) (send a Q (Commit (ps_ballot st) i (ps_value st))
      (set_pc a i (Some CommitCast) (upd_node a ?n s))))"
  have "run S M [EvCommitOwn a i, EvCommitCast a i Q, EvReturn a i] s = Some ?s" using aM st pc Q i by simp
  then have "reaches S M s ?s" by (rule reaches_run) simp
  then show ?thesis using c fits
    by (intro exI [of _ ?s]) (auto simp: handleCommit_new packets_def transmit_iff split: option.splits)
qed

text \<open>Nodes that are not running yet can be started, which changes nothing but their election
  deadline.\<close>

definition can_start :: "'s Node \<Rightarrow> bool" where
  "can_start n \<longleftrightarrow> \<not> started n \<and> 0 < sint (ElectionTimeout (config n))"

definition awake :: "'s Node \<Rightarrow> 's Node \<Rightarrow> bool" where
  "awake n n' \<longleftrightarrow> n' = n \<or> (\<exists>d. n' = n\<lparr>started := True, electionDeadline := d\<rparr>)"

lemma start_exec:
  assumes "q \<in> M" "can_start (nodes s q)"
  shows "\<exists>n'. awake (nodes s q) n' \<and> exec S M (EvStart q None 0 0) s = Some ((upd_node q n' s)\<lparr>running := (running s)(q := True)\<rparr>)"
  using assms
  by (auto simp: can_start_def awake_def Start_def resetElectionDeadline_def randomElectionTimeout_def Let_def)

lemma start_all:
  assumes "distinct Q" "\<forall>q \<in> set Q. q \<in> M \<and> (running s q \<or> can_start (nodes s q))"
  shows "\<exists>s'. reaches S M s s' \<and> procs s' = procs s \<and> (\<forall>q. running s' q \<longleftrightarrow> running s q \<or> q \<in> set Q)
    \<and> (\<forall>c. c \<notin> set Q \<longrightarrow> nodes s' c = nodes s c) \<and> (\<forall>c. awake (nodes s c) (nodes s' c))"
  using assms
proof (induction Q arbitrary: s)
  case Nil
  show ?case by (intro exI [of _ s]) (simp add: reaches_refl awake_def)
next
  case (Cons q Q)
  obtain s1 where r1: "reaches S M s s1" and s1: "procs s1 = procs s" "running s1 = (running s)(q := True)"
    "\<forall>c. c \<noteq> q \<longrightarrow> nodes s1 c = nodes s c" "awake (nodes s q) (nodes s1 q)"
  proof (cases "running s q")
    case True
    then show thesis by (intro that [of s]) (auto simp: reaches_refl awake_def fun_eq_iff)
  next
    case False
    then obtain n' where "awake (nodes s q) n'"
      and x: "exec S M (EvStart q None 0 0) s = Some ((upd_node q n' s)\<lparr>running := (running s)(q := True)\<rparr>)"
      using start_exec [of q M s S] Cons.prems(2) by auto
    then show thesis by (intro that [OF reaches_step [OF x _ reaches_refl]]) simp_all
  qed
  have ready: "\<forall>x \<in> set Q. x \<in> M \<and> (running s1 x \<or> can_start (nodes s1 x))"
  proof
    fix x assume "x \<in> set Q"
    then show "x \<in> M \<and> (running s1 x \<or> can_start (nodes s1 x))" using Cons.prems s1(2,3) by (cases "x = q") auto
  qed
  obtain s' where r: "reaches S M s1 s'" and s': "procs s' = procs s1" "\<forall>x. running s' x \<longleftrightarrow> running s1 x \<or> x \<in> set Q"
      "\<forall>c. c \<notin> set Q \<longrightarrow> nodes s' c = nodes s1 c" "\<forall>c. awake (nodes s1 c) (nodes s' c)"
    using Cons.IH [OF _ ready] Cons.prems(1) by auto
  have "awake (nodes s c) (nodes s' c)" for c
    using s1(3,4) s'(3,4) Cons.prems(1) by (cases "c = q") (auto, metis)
  then show ?case using reaches_trans [OF r1 r] s1 s' by (intro exI [of _ s']) auto
qed

context working_storage
begin

lemma proposal_chosen:
  assumes g: "gathering up M a i st A k cm s" and pc: "procs s a i = Some Phase1Own" and i: "i \<noteq> 0"
    and Q: "distinct Q" "set Q = A - {a}" "Q \<noteq> []" "length Q + 1 = k"
    and u: "acceptedValue (acceptor (nodes s a)) i = None" "\<forall>c \<in> set Q. hollow i (nodes s c)"
    and fits: "frame_fits (Accept (ps_ballot st) i (ps_value st))"
  shows "\<exists>s'. reaches S M s s' \<and> gathering up M a i st A k cm s' \<and> procs s' a i = Some CommitOwn"
proof -
  have p: "peers_ok M a Q" and k: "2 \<le> k"
    using g Q by (auto simp: peers_ok_def gathering_def Suc_le_eq)
  obtain ps s1 where r1: "reaches S M s s1" and g1: "gathering up M a i st A k cm s1"
    and pc1: "procs s1 a i = Some (Phase1Wait ps)" and ps: "length ps = 1" "\<forall>m \<in> set ps. m_AcceptedValue m = None"
    and n1: "\<forall>c. c \<noteq> a \<longrightarrow> nodes s1 c = nodes s c" and net1: "\<forall>q \<in> set Q. (a, q, Prepare (ps_ballot st) i) \<in> set (net s1)"
    using phase1_begins [OF g pc u(1) k p] by blast
  have h1: "\<forall>q \<in> set Q. hollow i (nodes s1 q) \<and> (a, q, Prepare (ps_ballot st) i) \<in> set (net s1)"
    using n1 net1 u(2) Q(2) by auto
  obtain s2 where r2: "reaches S M s1 s2" and g2: "gathering up M a i st A k cm s2" and pc2: "procs s2 a i = Some Phase2Own"
    using promises_all [OF g1 pc1 i Q(1) _ Q(3) _ ps(2) h1] Q ps(1) by auto
  obtain ps' s3 where r3: "reaches S M s2 s3" and g3: "gathering up M a i st A k cm s3"
    and pc3: "procs s3 a i = Some (Phase2Wait ps')" and ps': "length ps' = 1"
    and net3: "\<forall>q \<in> set Q. (a, q, Accept (ps_ballot st) i (wire_value (ps_value st))) \<in> set (net s3)"
    using phase2_begins [OF g2 pc2 k p fits] by blast
  obtain s4 where r4: "reaches S M s3 s4" "gathering up M a i st A k cm s4" "procs s4 a i = Some CommitOwn"
    using accepteds_all [OF g3 pc3 Q(1) _ Q(3) _ net3] Q ps' by auto
  have "reaches S M s s4" by (rule reaches_trans [OF r1 reaches_trans [OF r2 reaches_trans [OF r3 r4(1)]]])
  with r4 show ?thesis by blast
qed

text \<open>A whole proposal whose phase 1 meets no value: the peers commit its value, and so does the
  proposer unless it has committed another one; no other node commits anything.\<close>

lemma proposal_committed:
  assumes M: "a \<in> M" "started (nodes s a)" "i = nextInstance (proposer (nodes s a))" "i \<noteq> 0"
    and b: "b = MakeBallot (currentRound (proposer (nodes s a)) + 1) (prop_nodeID (proposer (nodes s a)))"
    and Q: "distinct Q" "set Q \<subseteq> M - {a}" "Q \<noteq> []" "length Q + 1 = quorumSize (proposer (nodes s a))"
    and a: "running s a" "votes up b i (nodes s a)" "acceptedValue (acceptor (nodes s a)) i = None"
    and q: "\<forall>q \<in> set Q. (running s q \<or> can_start (nodes s q)) \<and> votes up b i (nodes s q) \<and> hollow i (nodes s q) \<and> committed (nodes s q) i = None"
    and fits: "frame_fits (Accept b i v)" "frame_fits (Commit b i v)"
  shows "\<exists>s1 s'. exec S M (EvPropose a v) s = Some s1 \<and> reaches S M s1 s' \<and> procs s' a i = None
    \<and> committed (nodes s' a) i = (case committed (nodes s a) i of None \<Rightarrow> Some \<lparr>cv_Instance = i, cv_Value = v, cv_Ballot = b\<rparr>
         | Some cv \<Rightarrow> Some cv)
    \<and> (\<forall>q \<in> set Q. committed (nodes s' q) i = Some \<lparr>cv_Instance = i, cv_Value = wire_value v, cv_Ballot = b\<rparr>)
    \<and> (\<forall>c. c \<notin> insert a (set Q) \<longrightarrow> committed (nodes s' c) i = committed (nodes s c) i)"
proof -
  let ?A = "insert a (set Q)" and ?k = "quorumSize (proposer (nodes s a))" and ?cm = "\<lambda>c. committed (nodes s c) i"
  obtain st p where bp: "begin_proposal v (proposer (nodes s a)) = (st, p)" by fastforce
  then have st: "ps_instance st = i" "ps_ballot st = b" "ps_value st = v" "responses st = []" "pending p i = Some st"
    "quorumSize p = ?k" by (auto simp: begin_proposal_def Let_def M(3) b)
  let ?s = "set_pc a i (Some Phase1Own) (upd_node a ((nodes s a)\<lparr>proposer := p\<rparr>) s)"
  have x: "exec S M (EvPropose a v) s = Some ?s" using M(1,2,4) bp st(1) by (simp add: M(3) Let_def)
  have ready: "\<forall>q \<in> set Q. q \<in> M \<and> (running ?s q \<or> can_start (nodes ?s q))" using Q(2) q by auto
  obtain s0 where r0: "reaches S M ?s s0" and s0: "procs s0 = procs ?s" "\<forall>q. running s0 q \<longleftrightarrow> running ?s q \<or> q \<in> set Q"
      "\<forall>c. c \<notin> set Q \<longrightarrow> nodes s0 c = nodes ?s c" "\<And>c. awake (nodes ?s c) (nodes s0 c)"
    using start_all [OF Q(1) ready, of S] by blast
  have aw: "acceptor (nodes s0 c) = acceptor (nodes s c)" "storage (nodes s0 c) = storage (nodes s c)"
      "committed (nodes s0 c) = committed (nodes s c)" for c
    using s0(4) [of c] by (auto simp: awake_def)
  have an: "nodes s0 a = (nodes s a)\<lparr>proposer := p\<rparr>" using s0(3) Q(2) by auto
  have g: "gathering up M a i st ?A ?k ?cm s0" using M(1) Q(2) a q st s0(2) by (auto simp: gathering_def votes_def an aw)
  have sQ: "set Q = ?A - {a}" and h: "\<forall>c \<in> set Q. hollow i (nodes s0 c)" using Q(2) q by (auto simp: hollow_def aw)
  obtain s1 where r1: "reaches S M s0 s1" and g1: "gathering up M a i st ?A ?k ?cm s1" and pc1: "procs s1 a i = Some CommitOwn"
    using proposal_chosen [OF g _ M(4) Q(1) sQ Q(3,4) _ h] fits(1) st a(3) s0(1) by (auto simp: an)
  have p: "peers_ok M a Q" using Q by (simp add: peers_ok_def)
  obtain s2 where r2: "reaches S M s1 s2" and s2: "procs s2 a i = None" "running s2 = running s1"
      "committed (nodes s2 a) i = (case ?cm a of None \<Rightarrow> Some \<lparr>cv_Instance = i, cv_Value = v, cv_Ballot = b\<rparr> | Some cv \<Rightarrow> Some cv)"
      "\<forall>c. c \<noteq> a \<longrightarrow> nodes s2 c = nodes s1 c"
    and net2: "\<forall>q \<in> set Q. (a, q, Commit b i (wire_value v)) \<in> set (net s2)"
    using commit_begins [OF g1 pc1 M(4) p, of S] fits(2) st by auto
  have run2: "\<forall>q \<in> set Q. (a, q, Commit b i (wire_value v)) \<in> set (net s2) \<and> running s2 q"
    using net2 s2(2) g1 by (auto simp: gathering_def)
  obtain s3 where r3: "reaches S M s2 s3" and s3: "procs s3 = procs s2"
    "nodes s3 = (\<lambda>c. if c \<in> set Q then handleCommit S b i (wire_value v) (nodes s2 c) else nodes s2 c)"
    using commits_all [OF Q(1) _ run2, of M S] Q(2) by blast
  have "reaches S M ?s s3" by (rule reaches_trans [OF r0 reaches_trans [OF r1 reaches_trans [OF r2 r3]]])
  moreover have c2: "committed (nodes s2 c) i = ?cm c" if "c \<noteq> a" for c using that g1 s2(4) by (simp add: gathering_def)
  have "\<forall>q \<in> set Q. committed (nodes s3 q) i = Some \<lparr>cv_Instance = i, cv_Value = wire_value v, cv_Ballot = b\<rparr>"
  proof
    fix x assume x: "x \<in> set Q"
    then have "committed (nodes s2 x) i = None" using q c2 [of x] Q(2) by auto
    then show "committed (nodes s3 x) i = Some \<lparr>cv_Instance = i, cv_Value = wire_value v, cv_Ballot = b\<rparr>"
      using x by (simp add: s3(2) handleCommit_new)
  qed
  moreover have "\<forall>c. c \<notin> ?A \<longrightarrow> committed (nodes s3 c) i = ?cm c" using c2 by (simp add: s3(2))
  moreover have "a \<notin> set Q" using Q(2) by blast
  then have "procs s3 a i = None" "committed (nodes s3 a) i = committed (nodes s2 a) i" using s2(1) s3 by simp_all
  ultimately show ?thesis using x s2(3) by (intro exI [of _ ?s] exI [of _ s3]) (simp del: exec.simps)
qed

end

section \<open>The property\<close>

text \<open>C4. A quorum is enough for progress.  In whatever state a cluster is, let node \<open>a\<close> be started and
  its loops running, and let the peers \<open>Q\<close> form a quorum with it; a peer is running, or has not been
  started yet and can be.  If on these nodes the storage is open and, for the next instance of \<open>a\<close>,
  no ballot above \<open>a\<close>'s next one is promised and nothing at all is accepted or committed, then
  proposing a value that is not empty and fits into a frame can succeed, whatever the other nodes do:
  there is a run without faults in which \<open>a\<close> commits exactly this value, all peers in \<open>Q\<close> learn it
  with the same ballot, and the proposal returns.\<close>

theorem cluster_progress:
  assumes "a \<in> M" "started (nodes s a)" "running s a" "i = nextInstance (proposer (nodes s a))" "i \<noteq> 0"
    "b = MakeBallot (currentRound (proposer (nodes s a)) + 1) (prop_nodeID (proposer (nodes s a)))"
    "distinct Q" "set Q \<subseteq> M - {a}" "Q \<noteq> []" "length Q + 1 = quorumSize (proposer (nodes s a))"
    "\<forall>q \<in> set Q. running s q \<or> \<not> started (nodes s q) \<and> 0 < sint (ElectionTimeout (config (nodes s q)))"
    "\<forall>c \<in> insert a (set Q). \<not> closed (storage (nodes s c)) \<and> GetPromised (acceptor (nodes s c)) i \<le> b
       \<and> acceptedBallot (acceptor (nodes s c)) i = None \<and> acceptedValue (acceptor (nodes s c)) i = None
       \<and> committed (nodes s c) i = None"
    "0 < slice_len v" "slice_len v < 2 ^ 31"
  shows "\<exists>es s'. list_all faultless es \<and> run memory_storage M (EvPropose a v # es) s = Some s' \<and> procs s' a i = None
    \<and> (\<forall>c \<in> insert a (set Q). committed (nodes s' c) i = Some \<lparr>cv_Instance = i, cv_Value = v, cv_Ballot = b\<rparr>)"
proof -
  have v: "votes (\<lambda>st. \<not> closed st) b i (nodes s a)" "acceptedValue (acceptor (nodes s a)) i = None" "committed (nodes s a) i = None"
    and q: "\<forall>q \<in> set Q. (running s q \<or> can_start (nodes s q)) \<and> votes (\<lambda>st. \<not> closed st) b i (nodes s q)
      \<and> hollow i (nodes s q) \<and> committed (nodes s q) i = None"
    using assms(11,12) by (auto simp: votes_def hollow_def go_get_def can_start_def)
  obtain s1 s' where x: "exec memory_storage M (EvPropose a v) s = Some s1" and r: "reaches memory_storage M s1 s'"
    and s': "procs s' a i = None" "committed (nodes s' a) i = Some \<lparr>cv_Instance = i, cv_Value = v, cv_Ballot = b\<rparr>"
      "\<forall>q \<in> set Q. committed (nodes s' q) i = Some \<lparr>cv_Instance = i, cv_Value = v, cv_Ballot = b\<rparr>"
    using mem_up.proposal_committed [OF assms(1,2,4-10,3) v(1,2) q value_frames [OF assms(14)]] v(3)
    by (auto simp: wire_value_id [OF assms(13)] simp del: exec.simps)
  from r obtain es where "list_all faultless es" "run memory_storage M es s1 = Some s'" unfolding reaches_def by blast
  then show ?thesis using x s' by (intro exI [of _ es] exI [of _ s']) (simp del: exec.simps)
qed

text \<open>A state of three running nodes in which nothing has happened yet.\<close>

lemma started_run:
  obtains s where "run memory_storage {1, 2, 3} [EvStart 1 None 0 0] three = Some s" "started (nodes s 1)" "running s 1"
    "nextInstance (proposer (nodes s 1)) = 1" "currentRound (proposer (nodes s 1)) = 0" "prop_nodeID (proposer (nodes s 1)) = 1"
    "quorumSize (proposer (nodes s 1)) = 2" "\<not> started (nodes s 2)" "0 < sint (ElectionTimeout (config (nodes s 2)))"
    "\<forall>c \<in> {1, 2}. \<not> closed (storage (nodes s c)) \<and> GetPromised (acceptor (nodes s c)) 1 = 0
       \<and> acceptedBallot (acceptor (nodes s c)) 1 = None \<and> acceptedValue (acceptor (nodes s c)) 1 = None
       \<and> committed (nodes s c) 1 = None"
proof -
  have "\<exists>s. run memory_storage {1, 2, 3} [EvStart 1 None 0 0] three = Some s \<and> started (nodes s 1) \<and> running s 1
      \<and> nextInstance (proposer (nodes s 1)) = 1 \<and> currentRound (proposer (nodes s 1)) = 0 \<and> prop_nodeID (proposer (nodes s 1)) = 1
      \<and> quorumSize (proposer (nodes s 1)) = 2 \<and> \<not> started (nodes s 2) \<and> 0 < sint (ElectionTimeout (config (nodes s 2)))
      \<and> (\<forall>c \<in> {1, 2}. \<not> closed (storage (nodes s c)) \<and> GetPromised (acceptor (nodes s c)) 1 = 0
          \<and> acceptedBallot (acceptor (nodes s c)) 1 = None \<and> acceptedValue (acceptor (nodes s c)) 1 = None
          \<and> committed (nodes s c) 1 = None)"
    by (simp add: cluster_eval GetPromised_def)
  then show thesis using that by blast
qed

theorem cluster_progress_witness:
  "\<exists>s es s'. run memory_storage {1, 2, 3} [EvStart 1 None 0 0] three = Some s
     \<and> run memory_storage {1, 2, 3} (EvPropose 1 (Some [7]) # es) s = Some s' \<and> procs s' 1 1 = None
     \<and> (\<forall>c \<in> {1, 2}. committed (nodes s' c) 1 = Some \<lparr>cv_Instance = 1, cv_Value = Some [7], cv_Ballot = 65537\<rparr>)"
proof -
  obtain s where s: "run memory_storage {1, 2, 3} [EvStart 1 None 0 0] three = Some s" "started (nodes s 1)" "running s 1"
    "nextInstance (proposer (nodes s 1)) = 1" "currentRound (proposer (nodes s 1)) = 0" "prop_nodeID (proposer (nodes s 1)) = 1"
    "quorumSize (proposer (nodes s 1)) = 2" "\<not> started (nodes s 2)" "0 < sint (ElectionTimeout (config (nodes s 2)))"
    "\<forall>c \<in> {1, 2}. \<not> closed (storage (nodes s c)) \<and> GetPromised (acceptor (nodes s c)) 1 = 0
       \<and> acceptedBallot (acceptor (nodes s c)) 1 = None \<and> acceptedValue (acceptor (nodes s c)) 1 = None
       \<and> committed (nodes s c) 1 = None" by (rule started_run)
  have b: "MakeBallot (currentRound (proposer (nodes s 1)) + 1) (prop_nodeID (proposer (nodes s 1))) = 65537"
    by (simp add: s MakeBallot_def)
  have c: "\<forall>c \<in> insert 1 (set [2]). \<not> closed (storage (nodes s c)) \<and> GetPromised (acceptor (nodes s c)) 1 \<le> 65537
      \<and> acceptedBallot (acceptor (nodes s c)) 1 = None \<and> acceptedValue (acceptor (nodes s c)) 1 = None
      \<and> committed (nodes s c) 1 = None" using s(10) by simp
  have "\<exists>es s'. list_all faultless es \<and> run memory_storage {1, 2, 3} (EvPropose 1 (Some [7]) # es) s = Some s' \<and> procs s' 1 1 = None
      \<and> (\<forall>c \<in> insert 1 (set [2]). committed (nodes s' c) 1 = Some \<lparr>cv_Instance = 1, cv_Value = Some [7], cv_Ballot = 65537\<rparr>)"
    by (rule cluster_progress [OF _ s(2,3) s(4) [symmetric] _ b [symmetric] _ _ _ _ _ c]) (simp_all add: s(7-9))
  with s(1) show ?thesis by (auto simp del: run.simps exec.simps)
qed

section \<open>Conditions that agreement needs\<close>








end
