(* ===== verification/Transport_Loops.thy ===== *)
theory Transport_Loops
  imports Transport
begin

text \<open>
  The goroutines of a transport (\<^verbatim>\<open>transport_tcp.go\<close>): the accept loop, the reconnect loop, one
  read loop per registered connection, handshakes under way, and \<open>Close\<close>, which waits for the
  loops before it closes the channel of incoming messages.  A step runs one goroutine from one
  point where it waits (for a lock, a socket, a tick or the wait group) to the next.
\<close>

section \<open>State\<close>

text \<open>
  \<open>listener\<close> is the number of the last listener (0 for nil) and \<open>listeners\<close> are the open ones.
  \<open>accepting\<close> lists the accept loops, each by the listener it waits on, and \<open>reconnecting\<close> the
  reconnect loops, each with the addresses it still dials in this tick.  \<open>setups\<close> are accepted
  sockets in their handshake with the bytes that arrive on them, \<open>connecting\<close> the addresses that
  calls of \<open>Connect\<close> are dialing, \<open>readers\<close> the read loops with the bytes that are still to come.
  \<open>sockets\<close> are all the sockets so far, a dialed one from the end of its handshake on.
  \<open>waiting\<close>: \<open>Close\<close> waits for the wait group \<open>wg\<close>.  A send on a closed channel, a second close
  of a channel and a negative wait group panic.
\<close>

record tp_process =
  tcp :: TCPTransport
  listener :: nat
  listeners :: "nat set"
  accepting :: "nat list"
  reconnecting :: "string list list"
  setups :: "(nat \<times> byte list) list"
  connecting :: "string list"
  readers :: "(tcpConn \<times> byte list) list"
  sockets :: "nat set"
  wg :: nat
  ctx_done :: bool
  waiting :: bool
  incoming_closed :: bool
  panicked :: bool

definition new_process :: "NodeID \<Rightarrow> tp_process" where
  "new_process n = \<lparr>tcp = NewTCPTransport n, listener = 0, listeners = {}, accepting = [], reconnecting = [], setups = [],
     connecting = [], readers = [], sockets = {}, wg = 0, ctx_done = False, waiting = False, incoming_closed = False, panicked = False\<rparr>"

section \<open>Steps\<close>

definition wg_done :: "tp_process \<Rightarrow> tp_process" where
  "wg_done s = (if wg s = 0 then s\<lparr>panicked := True\<rparr> else s\<lparr>wg := wg s - 1\<rparr>)"

text \<open>\<open>Listen\<close> starts the accept loop and the reconnect loop.\<close>

definition Listen_step :: "string \<Rightarrow> error option \<Rightarrow> tp_process \<Rightarrow> tp_process" where
  "Listen_step addr err s =
     (case Listen addr err (tcp s) of
        (Some e, t) \<Rightarrow> s
      | (None, t) \<Rightarrow> s\<lparr>tcp := t, listener := listener s + 1, listeners := insert (listener s + 1) (listeners s), wg := wg s + 2,
          accepting := (listener s + 1) # accepting s, reconnecting := [] # reconnecting s\<rparr>)"

text \<open>One iteration of an accept loop, with what \<open>Accept\<close> on its listener \<open>l\<close> returns: on an error
  the loop ends if the transport is closed; a socket is handed to a goroutine of its own.  The
  next iteration waits on the listener that is then the last one.\<close>

definition acceptLoop :: "nat \<Rightarrow> (nat \<times> byte list) result \<Rightarrow> tp_process \<Rightarrow> tp_process" where
  "acceptLoop l outcome s =
     (let loops = remove1 l (accepting s); again = listener s # loops in
      case outcome of
        Inl e \<Rightarrow> if tp_closed (tcp s) then wg_done (s\<lparr>accepting := loops\<rparr>) else s\<lparr>accepting := again\<rparr>
      | Inr (c, bs) \<Rightarrow> s\<lparr>accepting := again, setups := setups s @ [(c, bs)], sockets := insert c (sockets s)\<rparr>)"

text \<open>\<open>setupConn\<close> with the read loop it starts; the wait group is raised under the lock.\<close>

definition setup_step :: "nat \<Rightarrow> bool \<Rightarrow> byte list \<Rightarrow> tp_process \<Rightarrow> tp_process" where
  "setup_step c byMe bs s =
     (case setupConn c byMe bs (tcp s) of
        (None, t) \<Rightarrow> s\<lparr>tcp := t\<rparr>
      | (Some (tc, rest), t) \<Rightarrow> s\<lparr>tcp := t, wg := wg s + 1, readers := readers s @ [(tc, rest)]\<rparr>)"

definition dial_step :: "(nat \<times> byte list) result \<Rightarrow> tp_process \<Rightarrow> tp_process" where
  "dial_step outcome s =
     (case outcome of Inl e \<Rightarrow> s | Inr (c, bs) \<Rightarrow> setup_step c True bs (s\<lparr>sockets := insert c (sockets s)\<rparr>))"

definition Connect_step :: "string \<Rightarrow> tp_process \<Rightarrow> tp_process" where
  "Connect_step addr s =
     (case Connect addr (tcp s) of (dials, t) \<Rightarrow>
        if dials then s\<lparr>tcp := t, connecting := addr # connecting s\<rparr> else s\<lparr>tcp := t\<rparr>)"

text \<open>The reconnect loop: a tick collects the missing addresses in some order, each of them is
  dialed, and the end of the context ends the loop between two ticks.\<close>

definition reconnect_tick :: "string list \<Rightarrow> tp_process \<Rightarrow> tp_process" where
  "reconnect_tick missing s = s\<lparr>reconnecting := missing # remove1 [] (reconnecting s)\<rparr>"

definition reconnect_dial :: "string \<Rightarrow> string list \<Rightarrow> (nat \<times> byte list) result \<Rightarrow> tp_process \<Rightarrow> tp_process" where
  "reconnect_dial addr addrs outcome s =
     dial_step outcome (s\<lparr>reconnecting := addrs # remove1 (addr # addrs) (reconnecting s)\<rparr>)"

definition reconnect_done :: "tp_process \<Rightarrow> tp_process" where
  "reconnect_done s = wg_done (s\<lparr>reconnecting := remove1 [] (reconnecting s)\<rparr>)"

text \<open>One iteration of a read loop: a message goes to the channel, an error ends the loop.\<close>

definition read_step :: "tcpConn \<Rightarrow> byte list \<Rightarrow> tp_process \<Rightarrow> tp_process" where
  "read_step tc bs s =
     (case readMessage bs of
        Inl e \<Rightarrow> wg_done (s\<lparr>tcp := readLoop_exit tc (tcp s), readers := remove1 (tc, bs) (readers s)\<rparr>)
      | Inr (m, rest) \<Rightarrow>
          if incoming_closed s then s\<lparr>panicked := True\<rparr>
          else s\<lparr>tcp := readLoop_deliver tc m (tcp s), readers := (tc, rest) # remove1 (tc, bs) (readers s)\<rparr>)"

text \<open>\<open>Receive\<close>: the other end of the channel.\<close>

definition Receive :: "tp_process \<Rightarrow> ((NodeID \<times> Message) \<times> tp_process) option" where
  "Receive s = (case incoming (tcp s) of [] \<Rightarrow> None | m # ms \<Rightarrow> Some (m, s\<lparr>tcp := (tcp s)\<lparr>incoming := ms\<rparr>\<rparr>))"

text \<open>\<open>Close\<close> up to \<open>wg.Wait\<close>, and from there on.  It closes the last listener only.\<close>

definition Close_begin :: "tp_process \<Rightarrow> tp_process" where
  "Close_begin s =
     (if tp_closed (tcp s) then s
      else s\<lparr>tcp := Close (tcp s), ctx_done := True, listeners := listeners s - {listener s}, waiting := True\<rparr>)"

definition Close_end :: "tp_process \<Rightarrow> tp_process" where
  "Close_end s =
     (if incoming_closed s then s\<lparr>panicked := True\<rparr> else s\<lparr>incoming_closed := True, waiting := False\<rparr>)"

datatype tp_event =
    TListen string "error option"
  | TAccept nat "(nat \<times> byte list) result"
  | TRefused nat
  | TSetup nat "byte list"
  | TConnect string
  | TConnected string "(nat \<times> byte list) result"
  | TTick "string list"
  | TDial string "string list" "(nat \<times> byte list) result"
  | TDone
  | TRead tcpConn "byte list"
  | TBroken tcpConn "byte list"
  | TFailed tcpConn "byte list"
  | TReceive
  | TClose
  | TClosed

text \<open>A socket that the network hands out is new.\<close>

definition new_socket :: "(nat \<times> byte list) result \<Rightarrow> tp_process \<Rightarrow> bool" where
  "new_socket outcome s = (case outcome of Inl e \<Rightarrow> True | Inr (c, bs) \<Rightarrow> c \<notin> sockets s)"

text \<open>The guards say where each goroutine is.  An open listener hands out sockets or errors
  (\<open>TAccept\<close>), a closed one always an error (\<open>TRefused\<close>).  A connection may break at any time
  (\<open>TBroken\<close>); one that was closed at this end fails its read loop for certain, with the bytes
  that have not arrived lost (\<open>TFailed\<close>).\<close>

fun tp_exec :: "tp_event \<Rightarrow> tp_process \<Rightarrow> tp_process option" where
  "tp_exec (TListen addr err) s = Some (Listen_step addr err s)"
| "tp_exec (TAccept l outcome) s =
     (if l \<in> set (accepting s) \<and> l \<in> listeners s \<and> new_socket outcome s then Some (acceptLoop l outcome s) else None)"
| "tp_exec (TRefused l) s =
     (if l \<in> set (accepting s) \<and> l \<notin> listeners s then Some (acceptLoop l (Inl ErrEOF) s) else None)"
| "tp_exec (TSetup c bs) s =
     (if (c, bs) \<in> set (setups s) then Some (setup_step c False bs (s\<lparr>setups := remove1 (c, bs) (setups s)\<rparr>)) else None)"
| "tp_exec (TConnect addr) s = Some (Connect_step addr s)"
| "tp_exec (TConnected addr outcome) s =
     (if addr \<in> set (connecting s) \<and> new_socket outcome s
      then Some (dial_step outcome (s\<lparr>connecting := remove1 addr (connecting s)\<rparr>)) else None)"
| "tp_exec (TTick missing) s =
     (if [] \<in> set (reconnecting s) \<and> distinct missing \<and> set missing = reconnect_missing (tcp s)
      then Some (reconnect_tick missing s) else None)"
| "tp_exec (TDial addr addrs outcome) s =
     (if addr # addrs \<in> set (reconnecting s) \<and> new_socket outcome s then Some (reconnect_dial addr addrs outcome s) else None)"
| "tp_exec TDone s = (if [] \<in> set (reconnecting s) \<and> ctx_done s then Some (reconnect_done s) else None)"
| "tp_exec (TRead tc bs) s = (if (tc, bs) \<in> set (readers s) then Some (read_step tc bs s) else None)"
| "tp_exec (TBroken tc bs) s =
     (if (tc, bs) \<in> set (readers s) then Some (s\<lparr>readers := (tc, []) # remove1 (tc, bs) (readers s)\<rparr>) else None)"
| "tp_exec (TFailed tc bs) s =
     (if (tc, bs) \<in> set (readers s) \<and> conn tc \<in> closedConns (tcp s)
      then Some (s\<lparr>readers := (tc, []) # remove1 (tc, bs) (readers s)\<rparr>) else None)"
| "tp_exec TReceive s = map_option snd (Receive s)"
| "tp_exec TClose s = Some (Close_begin s)"
| "tp_exec TClosed s = (if waiting s \<and> wg s = 0 then Some (Close_end s) else None)"

fun tp_run :: "tp_event list \<Rightarrow> tp_process \<Rightarrow> tp_process option" where
  "tp_run [] s = Some s"
| "tp_run (e # es) s = (case tp_exec e s of None \<Rightarrow> None | Some s' \<Rightarrow> tp_run es s')"

section \<open>The invariant\<close>

text \<open>Besides the sockets of handshakes and read loops and the closed ones there are the sockets \<open>C\<close>,
  which a step is about to set up.  A read loop whose connection is not registered has a closed
  socket.\<close>

definition loops_with :: "nat set \<Rightarrow> tp_process \<Rightarrow> bool" where
  "loops_with C s \<longleftrightarrow> \<not> panicked s \<and> tp_inv (tcp s) \<and> length (incoming (tcp s)) \<le> incoming_capacity
     \<and> wg s = length (accepting s) + length (reconnecting s) + length (readers s)
     \<and> (ctx_done s \<longleftrightarrow> tp_closed (tcp s)) \<and> (waiting s \<longleftrightarrow> tp_closed (tcp s) \<and> \<not> incoming_closed s)
     \<and> (incoming_closed s \<longrightarrow> tp_closed (tcp s) \<and> readers s = [])
     \<and> ran (conns (tcp s)) \<subseteq> fst ` set (readers s)
     \<and> (\<forall>tc \<in> fst ` set (readers s). conns (tcp s) (peerID tc) = Some tc \<or> conn tc \<in> closedConns (tcp s))
     \<and> sockets s = C \<union> (closedConns (tcp s) \<union> fst ` set (setups s) \<union> (conn \<circ> fst) ` set (readers s))"

abbreviation loops_inv :: "tp_process \<Rightarrow> bool" where
  "loops_inv \<equiv> loops_with {}"

lemma loops_inv_new: "loops_inv (new_process n)"
  by (simp add: loops_with_def new_process_def tp_inv_new) (simp add: NewTCPTransport_def)

lemma registerLocked_table:
  assumes "registerLocked tc t = (won, t')"
  shows "won \<Longrightarrow> conns t' = (conns t)(peerID tc \<mapsto> tc)" "\<not> won \<Longrightarrow> t' = t"
    "closedConns t \<subseteq> closedConns t'" "closedConns t' \<subseteq> closedConns t \<union> conn ` ran (conns t)"
    "won \<Longrightarrow> conns t (peerID tc) = Some e \<Longrightarrow> conn e \<in> closedConns t'"
  using assms by (auto simp: registerLocked_def Let_def close_conn_def ran_def split: option.splits if_splits)

text \<open>What \<open>setupConn\<close> does to the table: nothing but closing the new socket, or its
  registration, which may close the one it replaces.\<close>

lemma setupConn_table:
  assumes "setupConn c byMe bs t = (r, t')"
  shows "tp_closed t' = tp_closed t" "incoming t' = incoming t"
    "r = None \<Longrightarrow> conns t' = conns t \<and> closedConns t' = insert c (closedConns t)"
    "r = Some (tc, rest) \<Longrightarrow> \<not> tp_closed t \<and> conn tc = c \<and> conns t' = (conns t)(peerID tc \<mapsto> tc)
       \<and> closedConns t \<subseteq> closedConns t' \<and> closedConns t' \<subseteq> closedConns t \<union> conn ` ran (conns t)
       \<and> (\<forall>e. conns t (peerID tc) = Some e \<longrightarrow> conn e \<in> closedConns t')"
proof -
  show "tp_closed t' = tp_closed t" "incoming t' = incoming t"
    using setupConn_frame(2,3) [of c byMe bs t] assms by simp_all
  have *: "(r = None \<longrightarrow> conns t' = conns t \<and> closedConns t' = insert c (closedConns t))
    \<and> (r = Some (tc, rest) \<longrightarrow> \<not> tp_closed t \<and> conn tc = c \<and> conns t' = (conns t)(peerID tc \<mapsto> tc)
       \<and> closedConns t \<subseteq> closedConns t' \<and> closedConns t' \<subseteq> closedConns t \<union> conn ` ran (conns t)
       \<and> (\<forall>e. conns t (peerID tc) = Some e \<longrightarrow> conn e \<in> closedConns t'))"
  proof (cases "\<exists>x. handshake_recv (tp_nodeID t) bs = Inr x \<and> \<not> tp_closed t")
    case False
    then have "(r, t') = (None, close_conn c t)" using assms by (auto simp: setupConn_def split: sum.splits)
    then show ?thesis by simp
  next
    case True
    then obtain peer addr rs where h: "handshake_recv (tp_nodeID t) bs = Inr ((peer, addr), rs)" and nc: "\<not> tp_closed t"
      by (metis prod.collapse)
    let ?t = "if addr \<noteq> '''' then t\<lparr>addrToNode := (addrToNode t)(addr \<mapsto> peer)\<rparr> else t"
    let ?tc = "\<lparr>conn = c, peerID = peer, initiatedByMe = byMe\<rparr>"
    have t: "conns ?t = conns t" "closedConns ?t = closedConns t" by simp_all
    obtain won t2 where reg: "registerLocked ?tc ?t = (won, t2)" by fastforce
    have "(r, t') = (if won then (Some (?tc, rs), t2) else (None, close_conn c t2))"
      using assms setupConn_ok [OF h nc, of c byMe] by (simp add: Let_def reg)
    then show ?thesis using registerLocked_table [OF reg, unfolded t] nc by (cases won) auto
  qed
  then show "r = None \<Longrightarrow> conns t' = conns t \<and> closedConns t' = insert c (closedConns t)"
    "r = Some (tc, rest) \<Longrightarrow> \<not> tp_closed t \<and> conn tc = c \<and> conns t' = (conns t)(peerID tc \<mapsto> tc)
       \<and> closedConns t \<subseteq> closedConns t' \<and> closedConns t' \<subseteq> closedConns t \<union> conn ` ran (conns t)
       \<and> (\<forall>e. conns t (peerID tc) = Some e \<longrightarrow> conn e \<in> closedConns t')" by blast+
qed

lemma ran_upd_subset: "ran (f(x \<mapsto> y)) \<subseteq> insert y (ran f)"
  by (auto simp: ran_def)

lemma setup_step_inv:
  assumes "loops_with {c} s"
  shows "loops_inv (setup_step c byMe bs s)"
proof (cases "setupConn c byMe bs (tcp s)")
  case (Pair r t)
  have ti: "tp_inv t" using setupConn_inv [of "tcp s" c byMe bs] assms Pair by (simp add: loops_with_def)
  note tab = setupConn_table [OF Pair]
  show ?thesis
  proof (cases r)
    case None
    then have "setup_step c byMe bs s = s\<lparr>tcp := t\<rparr>" using Pair by (simp add: setup_step_def)
    then show ?thesis using assms tab(1,2) tab(3) [OF None] ti by (auto simp: loops_with_def)
  next
    case (Some x)
    obtain tc rest where x: "x = (tc, rest)" by (cases x)
    note tab' = tab(4) [OF Some [unfolded x]]
    have s': "setup_step c byMe bs s = s\<lparr>tcp := t, wg := wg s + 1, readers := readers s @ [(tc, rest)]\<rparr>"
      using Pair Some x by (simp add: setup_step_def)
    have "ran (conns t) \<subseteq> insert tc (fst ` set (readers s))"
      using tab' ran_upd_subset [of "conns (tcp s)" "peerID tc" tc] assms by (auto simp: loops_with_def)
    moreover have "closedConns t \<union> (conn \<circ> fst) ` set (readers s) = closedConns (tcp s) \<union> (conn \<circ> fst) ` set (readers s)"
    proof -
      have "conn ` ran (conns (tcp s)) \<subseteq> (conn \<circ> fst) ` set (readers s)"
        using assms unfolding loops_with_def image_comp [symmetric] by blast
      with tab' show ?thesis by blast
    qed
    moreover have "conns t (peerID x) = Some x \<or> conn x \<in> closedConns t" if "x \<in> fst ` set (readers s)" for x
    proof -
      have "conns (tcp s) (peerID x) = Some x \<or> conn x \<in> closedConns (tcp s)" using assms that unfolding loops_with_def by blast
      then show ?thesis using tab' by (cases "peerID x = peerID tc") auto
    qed
    ultimately show ?thesis using assms tab(1,2) tab' ti
      unfolding s' loops_with_def by auto
  qed
qed

text \<open>Every step keeps the invariant.\<close>

lemma wg_done_inv:
  assumes "loops_inv (s\<lparr>wg := wg s - 1\<rparr>)" "0 < wg s"
  shows "loops_inv (wg_done s)"
  using assms by (simp add: wg_done_def)

lemma dial_step_inv:
  assumes "loops_inv s" "new_socket outcome s"
  shows "loops_inv (dial_step outcome s)"
proof (cases outcome)
  case (Inr x)
  obtain c bs where x: "x = (c, bs)" by (cases x)
  have "loops_with {c} (s\<lparr>sockets := insert c (sockets s)\<rparr>)" using assms(1) by (simp add: loops_with_def)
  then show ?thesis using setup_step_inv Inr x by (simp add: dial_step_def)
qed (use assms in \<open>simp add: dial_step_def\<close>)

lemma remove1_mem: "x \<in> set xs \<Longrightarrow> insert (f x) (f ` set (remove1 x xs)) = f ` set xs"
  by (induction xs) auto

lemma length_remove1_mem: "x \<in> set xs \<Longrightarrow> Suc (length (remove1 x xs)) = length xs"
  by (induction xs) auto

lemma remove1_reader:
  assumes "(tc, bs) \<in> set (readers s)"
  shows "insert tc (fst ` set (remove1 (tc, bs) (readers s))) = fst ` set (readers s)"
    "insert (conn tc) ((conn \<circ> fst) ` set (remove1 (tc, bs) (readers s))) = (conn \<circ> fst) ` set (readers s)"
    "Suc (length (remove1 (tc, bs) (readers s))) = length (readers s)"
  using remove1_mem [OF assms, of fst] remove1_mem [OF assms, of "conn \<circ> fst"] length_remove1_mem [OF assms] by simp_all

lemma broken_inv:
  assumes "loops_inv s" "(tc, bs) \<in> set (readers s)"
  shows "loops_inv (s\<lparr>readers := (tc, []) # remove1 (tc, bs) (readers s)\<rparr>)"
  using assms(1) remove1_reader [OF assms(2)] assms(2) by (auto simp: loops_with_def simp del: image_comp)

lemma read_step_inv:
  assumes inv: "loops_inv s" and r: "(tc, bs) \<in> set (readers s)"
  shows "loops_inv (read_step tc bs s)"
proof (cases "readMessage bs")
  case (Inl e)
  let ?s = "s\<lparr>tcp := readLoop_exit tc (tcp s), readers := remove1 (tc, bs) (readers s)\<rparr>"
  have "ran (conns (readLoop_exit tc (tcp s))) \<subseteq> fst ` set (remove1 (tc, bs) (readers s))"
  proof
    fix x assume "x \<in> ran (conns (readLoop_exit tc (tcp s)))"
    then obtain p where p: "conns (readLoop_exit tc (tcp s)) p = Some x" by (auto simp: ran_def)
    have ti: "tp_inv (tcp s)" and sub: "ran (conns (tcp s)) \<subseteq> fst ` set (readers s)" using inv by (simp_all add: loops_with_def)
    from p have c: "conns (tcp s) p = Some x" "conns (tcp s) (peerID tc) = Some tc \<longrightarrow> p \<noteq> peerID tc"
      by (auto simp: readLoop_exit_def Let_def go_delete_apply split: if_splits)
    then have x: "x \<noteq> tc" using ti unfolding tp_inv_def by metis
    have xr: "x \<in> ran (conns (tcp s))" using c(1) by (rule ranI)
    have "x \<in> insert tc (fst ` set (remove1 (tc, bs) (readers s)))"
      unfolding remove1_reader(1) [OF r] using sub xr by (rule subsetD)
    then show "x \<in> fst ` set (remove1 (tc, bs) (readers s))" using x by simp
  qed
  moreover have "sockets s = closedConns (readLoop_exit tc (tcp s)) \<union> fst ` set (setups s)
      \<union> (conn \<circ> fst) ` set (remove1 (tc, bs) (readers s))"
    using inv remove1_mem [OF r, of "conn \<circ> fst"]
    by (auto simp: loops_with_def readLoop_exit_def Let_def)
  moreover have "conns (readLoop_exit tc (tcp s)) (peerID x) = Some x \<or> conn x \<in> closedConns (readLoop_exit tc (tcp s))"
    if "x \<in> fst ` set (remove1 (tc, bs) (readers s))" for x
  proof -
    have "x \<in> fst ` set (readers s)" using that remove1_reader(1) [OF r] by blast
    then have "conns (tcp s) (peerID x) = Some x \<or> conn x \<in> closedConns (tcp s)" using inv unfolding loops_with_def by blast
    then show ?thesis by (cases "x = tc") (auto simp: readLoop_exit_def Let_def go_delete_apply)
  qed
  moreover have "tp_inv (readLoop_exit tc (tcp s))" using inv by (simp add: loops_with_def readLoop_exit_inv)
  moreover have "tp_closed (readLoop_exit tc (tcp s)) = tp_closed (tcp s)" "incoming (readLoop_exit tc (tcp s)) = incoming (tcp s)"
    by (simp_all add: readLoop_exit_def Let_def close_conn_def)
  ultimately have "loops_inv (wg_done ?s)"
    using inv remove1_reader(3) [OF r] by (intro wg_done_inv) (auto simp: loops_with_def)
  with Inl show ?thesis by (simp add: read_step_def)
next
  case (Inr x)
  obtain m rest where x: "x = (m, rest)" by (cases x)
  have nc: "\<not> incoming_closed s" using inv r by (auto simp: loops_with_def)
  have "loops_inv (s\<lparr>tcp := readLoop_deliver tc m (tcp s), readers := (tc, rest) # remove1 (tc, bs) (readers s)\<rparr>)"
    using inv remove1_reader [OF r] r readLoop_deliver_inv [of "tcp s" tc m]
    by (auto simp: loops_with_def readLoop_deliver_def simp del: image_comp)
  with Inr x nc show ?thesis by (simp add: read_step_def)
qed

lemma setups_inv:
  assumes "loops_inv s" "(c, bs) \<in> set (setups s)"
  shows "loops_with {c} (s\<lparr>setups := remove1 (c, bs) (setups s)\<rparr>)"
  using assms(1) remove1_mem [OF assms(2), of fst] by (auto simp: loops_with_def)

lemma acceptLoop_inv:
  assumes "loops_inv s" "l \<in> set (accepting s)"
  shows "loops_inv (acceptLoop l outcome s)"
proof -
  note len = length_remove1_mem [OF assms(2)]
  have again: "loops_inv (s\<lparr>accepting := listener s # remove1 l (accepting s)\<rparr>)" using assms(1) len by (auto simp: loops_with_def)
  have ends: "loops_inv (wg_done (s\<lparr>accepting := remove1 l (accepting s)\<rparr>))"
    by (rule wg_done_inv) (use assms(1) len in \<open>auto simp: loops_with_def\<close>)
  show ?thesis
  proof (cases outcome)
    case (Inl e)
    with again ends show ?thesis by (simp add: acceptLoop_def Let_def)
  next
    case (Inr x)
    with again show ?thesis by (cases x) (simp add: acceptLoop_def Let_def loops_with_def)
  qed
qed

lemma reconnect_done_inv:
  assumes "loops_inv s" "[] \<in> set (reconnecting s)"
  shows "loops_inv (reconnect_done s)"
  unfolding reconnect_done_def
  by (rule wg_done_inv) (use assms(1) length_remove1_mem [OF assms(2)] in \<open>auto simp: loops_with_def\<close>)

lemma reconnecting_inv:
  assumes "loops_inv s" "x \<in> set (reconnecting s)"
  shows "loops_inv (s\<lparr>reconnecting := y # remove1 x (reconnecting s)\<rparr>)"
  using assms(1) length_remove1_mem [OF assms(2)] by (auto simp: loops_with_def)

lemma Close_begin_inv:
  assumes "loops_inv s"
  shows "loops_inv (Close_begin s)"
proof (cases "tp_closed (tcp s)")
  case False
  have "conn ` ran (conns (tcp s)) \<subseteq> (conn \<circ> fst) ` set (readers s)" using assms by (auto simp: loops_with_def)
  moreover have "conn tc \<in> closedConns (tcp s) \<union> conn ` ran (conns (tcp s))" if "tc \<in> fst ` set (readers s)" for tc
    using assms that unfolding loops_with_def by (blast intro: ranI)
  ultimately show ?thesis using assms False by (auto simp: Close_begin_def Close_def loops_with_def tp_inv_def)
qed (use assms in \<open>simp add: Close_begin_def\<close>)

lemma tp_exec_inv:
  assumes inv: "loops_inv s" and x: "tp_exec e s = Some s'"
  shows "loops_inv s'"
proof (cases e)
  case (TListen addr err)
  have "tp_inv ((tcp s)\<lparr>listenAddr := addr\<rparr>)" using inv by (simp add: loops_with_def tp_inv_def)
  then have "loops_inv (s\<lparr>tcp := (tcp s)\<lparr>listenAddr := addr\<rparr>, listener := listener s + 1,
      listeners := insert (listener s + 1) (listeners s), wg := wg s + 2, accepting := (listener s + 1) # accepting s, reconnecting := [] # reconnecting s\<rparr>)"
    using inv by (simp add: loops_with_def)
  then show ?thesis using inv x TListen by (cases err) (auto simp: Listen_step_def Listen_def)
next
  case (TAccept l outcome)
  then show ?thesis using x by (auto intro: acceptLoop_inv [OF inv] split: if_splits)
next
  case (TRefused l)
  then show ?thesis using x by (auto intro: acceptLoop_inv [OF inv] split: if_splits)
next
  case (TSetup c bs)
  then show ?thesis using x by (auto intro: setup_step_inv setups_inv [OF inv] split: if_splits)
next
  case (TConnect addr)
  have "tp_inv ((tcp s)\<lparr>peerAddrs := A\<rparr>)" for A using inv by (simp add: loops_with_def tp_inv_def)
  then have "loops_inv (s\<lparr>tcp := (tcp s)\<lparr>peerAddrs := A\<rparr>, connecting := B\<rparr>)" "loops_inv (s\<lparr>tcp := (tcp s)\<lparr>peerAddrs := A\<rparr>\<rparr>)" for A B
    using inv by (simp_all add: loops_with_def)
  then show ?thesis using x TConnect by (auto simp: Connect_step_def Connect_def Let_def split: if_splits)
next
  case (TConnected addr outcome)
  have "loops_inv (s\<lparr>connecting := A\<rparr>)" "new_socket outcome (s\<lparr>connecting := A\<rparr>) = new_socket outcome s" for A
    using inv by (simp_all add: loops_with_def new_socket_def split: sum.splits)
  then show ?thesis using x TConnected by (auto intro!: dial_step_inv split: if_splits)
next
  case (TTick missing)
  then show ?thesis using x by (auto simp: reconnect_tick_def intro: reconnecting_inv [OF inv] split: if_splits)
next
  case (TDial addr addrs outcome)
  have "new_socket outcome (s\<lparr>reconnecting := A\<rparr>) = new_socket outcome s" for A
    by (simp add: new_socket_def split: sum.splits)
  then show ?thesis using x TDial
    by (auto simp: reconnect_dial_def intro!: dial_step_inv reconnecting_inv [OF inv] split: if_splits)
next
  case TDone
  then show ?thesis using x by (auto intro: reconnect_done_inv [OF inv] split: if_splits)
next
  case (TRead tc bs)
  then show ?thesis using x by (auto intro: read_step_inv [OF inv] split: if_splits)
next
  case (TBroken tc bs)
  then show ?thesis using x by (auto intro: broken_inv [OF inv] split: if_splits)
next
  case (TFailed tc bs)
  then show ?thesis using x by (auto intro: broken_inv [OF inv] split: if_splits)
next
  case TReceive
  then obtain m ms where "incoming (tcp s) = m # ms" "s' = s\<lparr>tcp := (tcp s)\<lparr>incoming := ms\<rparr>\<rparr>"
    using x by (auto simp: Receive_def split: list.splits)
  then show ?thesis using inv by (simp add: loops_with_def tp_inv_def)
next
  case TClose
  then show ?thesis using x Close_begin_inv [OF inv] by simp
next
  case TClosed
  then have "s' = Close_end s" "wg s = 0" "waiting s" using x by (auto split: if_splits)
  moreover from this inv have "readers s = []" "\<not> incoming_closed s" by (auto simp: loops_with_def)
  ultimately show ?thesis using inv by (simp add: Close_end_def loops_with_def)
qed

lemma tp_run_inv: "tp_run es s = Some s' \<Longrightarrow> loops_inv s \<Longrightarrow> loops_inv s'"
  by (induction es arbitrary: s) (auto split: option.splits intro: tp_exec_inv)


lemma loops_inv_open:
  assumes "loops_inv s"
  shows "sockets s - closedConns (tcp s) \<subseteq> fst ` set (setups s) \<union> conn ` ran (conns (tcp s))"
proof
  fix c assume c: "c \<in> sockets s - closedConns (tcp s)"
  with assms consider "c \<in> fst ` set (setups s)" | tc where "tc \<in> fst ` set (readers s)" "c = conn tc"
    by (auto simp: loops_with_def)
  then show "c \<in> fst ` set (setups s) \<union> conn ` ran (conns (tcp s))"
  proof cases
    case 2
    with assms c have "conns (tcp s) (peerID tc) = Some tc" unfolding loops_with_def by blast
    with 2 show ?thesis by (auto intro: ranI)
  qed simp
qed

section \<open>Closing\<close>








section \<open>Properties\<close>

text \<open>C15. The loops of a transport are safe.  However its goroutines interleave with calls of
  \<open>Listen\<close>, \<open>Connect\<close> and \<open>Close\<close> and whatever its peers send: no send on a closed channel, no
  second close of the channel and no negative wait group panics; the wait group counts the
  running loops; every registered connection is under the identifier its peer reported, is not
  to the node itself and has a running read loop; an open socket is in its handshake or belongs
  to a registered connection; the channel holds at most 1000 messages; from \<open>Close\<close> on no
  connection is registered, so that only handshakes have open sockets; and once the channel is
  closed no read loop runs.  A handshake outlives \<open>Close\<close> until it ends, and so do the loops of
  a \<open>Listen\<close> that comes after it.\<close>

theorem transport_loops_safe:
  assumes "tp_run es (new_process n) = Some s"
  shows "\<not> panicked s \<and> wg s = length (accepting s) + length (reconnecting s) + length (readers s)
    \<and> (\<forall>p tc. conns (tcp s) p = Some tc \<longrightarrow> peerID tc = p \<and> p \<noteq> tp_nodeID (tcp s) \<and> (\<exists>bs. (tc, bs) \<in> set (readers s)))
    \<and> sockets s - closedConns (tcp s) \<subseteq> fst ` set (setups s) \<union> conn ` ran (conns (tcp s))
    \<and> length (incoming (tcp s)) \<le> 1000
    \<and> (tp_closed (tcp s) \<longrightarrow> conns (tcp s) = Map.empty)
    \<and> (incoming_closed s \<longrightarrow> tp_closed (tcp s) \<and> readers s = [])"
proof -
  have inv: "loops_inv s" by (rule tp_run_inv [OF assms loops_inv_new])
  then have t: "tp_inv (tcp s)" and r: "ran (conns (tcp s)) \<subseteq> fst ` set (readers s)" by (simp_all add: loops_with_def)
  have "\<exists>bs. (tc, bs) \<in> set (readers s)" if "conns (tcp s) p = Some tc" for p tc
    using subsetD [OF r ranI, of p tc] that by auto
  then have "\<forall>p tc. conns (tcp s) p = Some tc \<longrightarrow> peerID tc = p \<and> p \<noteq> tp_nodeID (tcp s) \<and> (\<exists>bs. (tc, bs) \<in> set (readers s))"
    using t unfolding tp_inv_def by blast
  moreover have "sockets s - closedConns (tcp s) \<subseteq> fst ` set (setups s) \<union> conn ` ran (conns (tcp s))"
    using loops_inv_open [OF inv] .
  ultimately show ?thesis using inv t by (simp add: loops_with_def incoming_capacity_def tp_inv_def)
qed

text \<open>An example: a peer is accepted, registered and read, and the transport is closed.\<close>

definition accept_events :: "tp_event list" where
  "accept_events = [TListen ''localhost:9001'' None, TAccept 1 (Inr (7, handshake_send 2 ''localhost:9002'')),
     TSetup 7 (handshake_send 2 ''localhost:9002'')]"

lemma accept_run:
  "\<exists>s. tp_run (accept_events @ [TClose]) (new_process 1) = Some s \<and> waiting s \<and> listeners s = {} \<and> tp_closed (tcp s)
     \<and> readers s = [(\<lparr>conn = 7, peerID = 2, initiatedByMe = False\<rparr>, [])]"
proof -
  have h: "handshake_recv 1 (handshake_send 2 ''localhost:9002'') = Inr ((2, ''localhost:9002''), [])"
    using handshake_exchange [of "''localhost:9002''" 1 2 "[]"] by simp
  show ?thesis
    by (simp add: accept_events_def new_process_def NewTCPTransport_def Listen_step_def Listen_def acceptLoop_def new_socket_def
        setup_step_def setupConn_def h registerLocked_def Let_def Close_begin_def Close_def)
qed

theorem transport_loops_safe_witness:
  "\<exists>s. tp_run (accept_events @ [TClose]) (new_process 1) = Some s \<and> \<not> panicked s
     \<and> wg s = length (accepting s) + length (reconnecting s) + 1 \<and> conns (tcp s) = Map.empty"
proof -
  obtain s where "tp_run (accept_events @ [TClose]) (new_process 1) = Some s" "tp_closed (tcp s)"
    "readers s = [(\<lparr>conn = 7, peerID = 2, initiatedByMe = False\<rparr>, [])]" using accept_run by blast
  with transport_loops_safe [OF this(1)] show ?thesis by simp
qed



end
