(* ===== verification/Node_Lifecycle.thy ===== *)
theory Node_Lifecycle
  imports Cluster_Safety
begin

text \<open>
  The life of one node (\<^verbatim>\<open>node.go\<close>): \<open>Start\<close> launches the message loop and the election loop,
  elections and the clients' proposals run beside them, \<open>Close\<close> cancels the context, waits for the
  two loops and then closes the transport, the storage and the channel of notifications.  A step is
  one turn of a loop, one arriving message, a whole election, a call of \<open>Propose\<close> up to the point
  where it has its quorum, the commit that follows, a notification received, or a part of \<open>Close\<close>.
  Panics are states: a send on or a second close of the closed channel, a ticker or a random draw
  with a duration that is not positive.  A loop that hangs in a write to a peer, which has no
  deadline in the code, is not modelled.
\<close>

section \<open>State and steps\<close>

text \<open>\<open>election_loop\<close>: not running, or running before or after its ticker was created.
  \<open>elections\<close> counts the goroutines of \<open>startElection\<close>, \<open>closers\<close> the calls of \<open>Close\<close> that wait.
  \<open>inbox\<close> is the transport's channel of received messages, \<open>committing\<close> are the calls of \<open>Propose\<close>
  that have their quorum and are about to call \<open>onCommit\<close>.  Only the two loops are in the wait
  group.\<close>

record 's life =
  lf_node :: "'s Node"
  message_loop :: bool
  election_loop :: "bool option"
  elections :: nat
  inbox :: "(NodeID \<times> Message) list"
  committing :: "(Ballot \<times> Instance \<times> Value) list"
  lf_wg :: nat
  lf_ctx_done :: bool
  closers :: nat
  messages_closed :: bool
  commitCh_closed :: bool
  lf_panicked :: bool

definition new_life :: "'s Node \<Rightarrow> 's life" where
  "new_life n = \<lparr>lf_node = n, message_loop = False, election_loop = None, elections = 0, inbox = [], committing = [], lf_wg = 0,
     lf_ctx_done = False, closers = 0, messages_closed = False, commitCh_closed = False, lf_panicked = False\<rparr>"

definition life_panic :: "'s life \<Rightarrow> 's life" where
  "life_panic l = l\<lparr>lf_panicked := True\<rparr>"

definition life_Start :: "error option \<Rightarrow> Time \<Rightarrow> Duration \<Rightarrow> 's life \<Rightarrow> 's life" where
  "life_Start listenErr now rnd l =
     (case Start listenErr now rnd (lf_node l) of
        None \<Rightarrow> life_panic l
      | Some (err, n) \<Rightarrow>
          if started (lf_node l) \<or> err \<noteq> None then l\<lparr>lf_node := n\<rparr>
          else l\<lparr>lf_node := n, message_loop := True, election_loop := Some False, lf_wg := lf_wg l + 2\<rparr>)"

text \<open>\<open>handleCommit\<close> with the state of the channel it sends the notification to.\<close>

definition life_commit :: "'s Storage \<Rightarrow> Ballot \<Rightarrow> Instance \<Rightarrow> Value \<Rightarrow> 's life \<Rightarrow> 's life" where
  "life_commit S b i v l =
     (if committed (lf_node l) i = None \<and> commitCh_closed l then life_panic l
      else l\<lparr>lf_node := handleCommit S b i v (lf_node l)\<rparr>)"

definition messageLoop :: "'s Storage \<Rightarrow> Time \<Rightarrow> Duration \<Rightarrow> NodeID \<Rightarrow> Message \<Rightarrow> 's life \<Rightarrow> 's life" where
  "messageLoop S now rnd from msg l =
     (case msg of
        Commit b i v \<Rightarrow> life_commit S b i v l
      | _ \<Rightarrow> (case handleMessage S now rnd from msg (lf_node l) of
               None \<Rightarrow> life_panic l | Some (n, out) \<Rightarrow> l\<lparr>lf_node := n\<rparr>))"

text \<open>A message that the transport's read loop puts on the channel.  A turn of the message loop takes
  the first one, also when the channel has been closed; on an empty closed channel it receives nil
  and does nothing.\<close>

definition life_arrive :: "NodeID \<Rightarrow> Message \<Rightarrow> 's life \<Rightarrow> 's life" where
  "life_arrive from msg l = (if length (inbox l) < incoming_capacity then l\<lparr>inbox := inbox l @ [(from, msg)]\<rparr> else l)"

definition life_message :: "'s Storage \<Rightarrow> Time \<Rightarrow> Duration \<Rightarrow> 's life \<Rightarrow> 's life option" where
  "life_message S now rnd l =
     (case inbox l of
        (from, msg) # ms \<Rightarrow> Some (messageLoop S now rnd from msg (l\<lparr>inbox := ms\<rparr>))
      | [] \<Rightarrow> if messages_closed l then Some l else None)"

text \<open>A client's \<open>Propose\<close> with the responses it gets; if it has its quorum, it goes on to commit.\<close>

definition life_Propose :: "'s Storage \<Rightarrow> Value \<Rightarrow> Message list \<Rightarrow> Message list \<Rightarrow> 's life \<Rightarrow> 's life" where
  "life_Propose S value msgs1 msgs2 l =
     (let n = lf_node l in
      case Propose (Some S) (\<lambda>_. None) True value msgs1 msgs2 (proposer n) (Some (acceptor n)) (storage n) of
        (r, eff, p, ao, st) \<Rightarrow>
          l\<lparr>lf_node := n\<lparr>proposer := p, acceptor := the ao, storage := st\<rparr>,
            committing := committing l @ [(b, i, v). CalledOnCommit (Commit b i v) \<leftarrow> eff]\<rparr>)"

text \<open>The election loop creates its ticker, then checks the leader at every tick.\<close>

definition electionLoop_init :: "'s life \<Rightarrow> 's life" where
  "electionLoop_init l =
     (if sint (HeartbeatInterval (config (lf_node l))) \<le> 0 then life_panic l else l\<lparr>election_loop := Some True\<rparr>)"

definition electionLoop :: "Time \<Rightarrow> Duration \<Rightarrow> 's life \<Rightarrow> 's life" where
  "electionLoop now rnd l =
     (case checkLeaderAndHeartbeat now rnd (lf_node l) of
        None \<Rightarrow> life_panic l
      | Some (n, out, elect) \<Rightarrow> l\<lparr>lf_node := n, elections := elections l + (if elect then 1 else 0)\<rparr>)"

text \<open>\<open>Close\<close> after the wait: the transport, which closes the channel of messages, the storage and
  the channel of notifications.\<close>

definition life_Close :: "'s Storage \<Rightarrow> error option \<Rightarrow> 's life \<Rightarrow> 's life" where
  "life_Close S transportErr l =
     (case node_Close S transportErr (lf_node l) of
        (err, n) \<Rightarrow>
          let l = l\<lparr>lf_node := n, closers := closers l - 1, messages_closed := messages_closed l \<or> transportErr = None\<rparr>
          in if err \<noteq> None then l
             else if commitCh_closed l then life_panic l else l\<lparr>commitCh_closed := True\<rparr>)"

datatype life_event =
    LStart "error option" Time Duration
  | LArrive NodeID Message
  | LMessage Time Duration
  | LMessageDone
  | LTicker
  | LTick Time Duration
  | LTickDone
  | LElection "Message list" Time Duration
  | LPropose Value "Message list" "Message list"
  | LCommit Ballot Instance Value
  | LReceive
  | LClose
  | LClosed "error option"

fun life_exec :: "'s Storage \<Rightarrow> life_event \<Rightarrow> 's life \<Rightarrow> 's life option" where
  "life_exec S (LStart err now rnd) l = Some (life_Start err now rnd l)"
| "life_exec S (LArrive from msg) l =
     (if started (lf_node l) \<and> \<not> messages_closed l then Some (life_arrive from msg l) else None)"
| "life_exec S (LMessage now rnd) l = (if message_loop l then life_message S now rnd l else None)"
| "life_exec S LMessageDone l =
     (if message_loop l \<and> lf_ctx_done l then Some (l\<lparr>message_loop := False, lf_wg := lf_wg l - 1\<rparr>) else None)"
| "life_exec S LTicker l = (if election_loop l = Some False then Some (electionLoop_init l) else None)"
| "life_exec S (LTick now rnd) l = (if election_loop l = Some True then Some (electionLoop now rnd l) else None)"
| "life_exec S LTickDone l =
     (if election_loop l = Some True \<and> lf_ctx_done l then Some (l\<lparr>election_loop := None, lf_wg := lf_wg l - 1\<rparr>) else None)"
| "life_exec S (LElection msgs now rnd) l =
     (if 0 < elections l then Some (case startElection S (\<lambda>_. None) msgs now rnd (lf_node l) of
        None \<Rightarrow> life_panic l | Some (n, out) \<Rightarrow> l\<lparr>lf_node := n, elections := elections l - 1\<rparr>) else None)"
| "life_exec S (LPropose v msgs1 msgs2) l =
     (if started (lf_node l) then Some (life_Propose S v msgs1 msgs2 l) else None)"
| "life_exec S (LCommit b i v) l =
     (if (b, i, v) \<in> set (committing l)
      then Some (life_commit S b i v (l\<lparr>committing := remove1 (b, i, v) (committing l)\<rparr>)) else None)"
| "life_exec S LReceive l = map_option (\<lambda>(cv, n). l\<lparr>lf_node := n\<rparr>) (Subscribe_recv (lf_node l))"
| "life_exec S LClose l = Some (l\<lparr>lf_ctx_done := True, closers := closers l + 1\<rparr>)"
| "life_exec S (LClosed err) l = (if 0 < closers l \<and> lf_wg l = 0 then Some (life_Close S err l) else None)"

text \<open>A panic ends the process.\<close>

fun life_run :: "'s Storage \<Rightarrow> life_event list \<Rightarrow> 's life \<Rightarrow> 's life option" where
  "life_run S [] l = Some l"
| "life_run S (e # es) l = (if lf_panicked l then None else case life_exec S e l of None \<Rightarrow> None | Some l' \<Rightarrow> life_run S es l')"

text \<open>\<open>Close\<close> is called at most once, and no proposal is still waiting to commit when it returns.\<close>

fun orderly :: "bool \<Rightarrow> bool \<Rightarrow> life_event list \<Rightarrow> bool" where
  "orderly called returned [] = True"
| "orderly called returned (e # es) =
     (case e of LClose \<Rightarrow> \<not> called \<and> orderly True returned es
      | LClosed _ \<Rightarrow> orderly called True es
      | LCommit _ _ _ \<Rightarrow> \<not> returned \<and> orderly called returned es
      | _ \<Rightarrow> orderly called returned es)"

section \<open>The invariant\<close>

definition life_inv :: "bool \<Rightarrow> bool \<Rightarrow> 's life \<Rightarrow> bool" where
  "life_inv called returned l \<longleftrightarrow> \<not> lf_panicked l
     \<and> 0 < sint (HeartbeatInterval (config (lf_node l))) \<and> 0 < sint (ElectionTimeout (config (lf_node l)))
     \<and> lf_wg l = (if message_loop l then 1 else 0) + (if election_loop l \<noteq> None then 1 else 0)
     \<and> (lf_ctx_done l \<longleftrightarrow> called) \<and> closers l + (if returned then 1 else 0) \<le> (if called then 1 else 0)
     \<and> (commitCh_closed l \<longrightarrow> returned \<and> messages_closed l \<and> (message_loop l \<longrightarrow> inbox l = []))
     \<and> (\<not> started (lf_node l) \<longrightarrow> inbox l = [])
     \<and> (message_loop l \<or> election_loop l \<noteq> None \<longrightarrow> started (lf_node l))"

lemma life_inv_new:
  assumes "0 < sint (HeartbeatInterval (config n))" "0 < sint (ElectionTimeout (config n))"
  shows "life_inv False False (new_life n)"
  using assms by (simp add: life_inv_def new_life_def)

text \<open>With a positive election timeout no handler panics; none changes the configuration or stops the
  node.\<close>

definition same_life :: "'s Node \<Rightarrow> 's Node \<Rightarrow> bool" where
  "same_life n n' \<longleftrightarrow> config n' = config n \<and> (started n \<longrightarrow> started n')"

lemma resetElectionDeadline_total:
  assumes "0 < sint (ElectionTimeout (config n))"
  shows "\<exists>n'. resetElectionDeadline now rnd n = Some n' \<and> same_life n n'"
  using assms by (simp add: resetElectionDeadline_def randomElectionTimeout_def Let_def same_life_def)

lemma positive_timeout_total:
  assumes "0 < sint (ElectionTimeout (config n))"
  shows "\<exists>e n'. Start err now rnd n = Some (e, n') \<and> same_life n n'"
    "\<exists>n' out. handleMessage S now rnd from m n = Some (n', out) \<and> same_life n n'"
    "\<exists>n' out elect. checkLeaderAndHeartbeat now rnd n = Some (n', out, elect) \<and> same_life n n'"
    "\<exists>n' out. startElection S bcast msgs now rnd n = Some (n', out) \<and> same_life n n'"
proof -
  note r = resetElectionDeadline_total [where now = now and rnd = rnd]
  show "\<exists>e n'. Start err now rnd n = Some (e, n') \<and> same_life n n'"
    using r [of "n\<lparr>started := True\<rparr>"] assms by (auto simp: Start_def Let_def same_life_def split: option.splits)
  show "\<exists>n' out elect. checkLeaderAndHeartbeat now rnd n = Some (n', out, elect) \<and> same_life n n'"
    using r [of "n\<lparr>electing := True\<rparr>"] assms by (auto simp: checkLeaderAndHeartbeat_def same_life_def)
  show "\<exists>n' out. handleMessage S now rnd from m n = Some (n', out) \<and> same_life n n'"
  proof (cases m)
    case (Heartbeat b l i)
    have "\<exists>n'. handleHeartbeat b l now rnd n = Some n' \<and> same_life n n'"
      using r [of "n\<lparr>currentLeader := l, nd_leaderBallot := b\<rparr>"] assms by (auto simp: handleHeartbeat_def same_life_def)
    then show ?thesis using Heartbeat by (auto simp: handleMessage_def)
  qed (auto simp: handleMessage_def same_life_def split: prod.splits)
  obtain err eff p ao st where b: "BecomeLeader (Some S) bcast msgs (proposer n) (Some (acceptor n)) (storage n) = (err, eff, p, ao, st)"
    by (metis prod_cases5)
  let ?n = "n\<lparr>proposer := p, acceptor := the ao, storage := st\<rparr>"
  show "\<exists>n' out. startElection S bcast msgs now rnd n = Some (n', out) \<and> same_life n n'"
    using r [of ?n] r [of "?n\<lparr>currentLeader := nodeID n, nd_leaderBallot := LeaderBallot p\<rparr>"] assms
    by (cases err) (auto simp: startElection_def b Let_def same_life_def)
qed

fun calls_close :: "life_event \<Rightarrow> bool" where
  "calls_close LClose = True" | "calls_close _ = False"

fun returns_close :: "life_event \<Rightarrow> bool" where
  "returns_close (LClosed _) = True" | "returns_close _ = False"

text \<open>A step that changes only the node, with its configuration kept.\<close>

lemma life_inv_node: "life_inv called returned l \<Longrightarrow> same_life (lf_node l) n \<Longrightarrow> life_inv called returned (l\<lparr>lf_node := n\<rparr>)"
  by (auto simp: life_inv_def same_life_def)

lemma life_commit_inv:
  assumes "life_inv called returned l" "\<not> commitCh_closed l"
  shows "life_inv called returned (life_commit S b i v l)"
  using assms by (simp add: life_commit_def life_inv_node same_life_def)

lemma messageLoop_inv:
  assumes inv: "life_inv called returned l" and ch: "\<not> commitCh_closed l"
  shows "life_inv called returned (messageLoop S now rnd from msg l)"
proof -
  have to: "0 < sint (ElectionTimeout (config (lf_node l)))" using inv by (auto simp: life_inv_def)
  obtain n out where "handleMessage S now rnd from msg (lf_node l) = Some (n, out)" "same_life (lf_node l) n"
    using positive_timeout_total(2) [OF to] by blast
  then show ?thesis using life_inv_node [OF inv] life_commit_inv [OF inv ch]
    by (cases msg) (simp_all add: messageLoop_def)
qed

lemma life_message_inv:
  assumes inv: "life_inv called returned l" and m: "message_loop l" and x: "life_message S now rnd l = Some l'"
  shows "life_inv called returned l'"
proof (cases "inbox l")
  case Nil
  then show ?thesis using inv x by (auto simp: life_message_def split: if_splits)
next
  case (Cons e ms)
  obtain src msg where e: "e = (src, msg)" by fastforce
  have "\<not> commitCh_closed l" using inv m Cons by (auto simp: life_inv_def)
  moreover have "life_inv called returned (l\<lparr>inbox := ms\<rparr>)" using inv Cons by (auto simp: life_inv_def)
  ultimately have "life_inv called returned (messageLoop S now rnd src msg (l\<lparr>inbox := ms\<rparr>))"
    by (intro messageLoop_inv) simp_all
  with x Cons e show ?thesis by (simp add: life_message_def)
qed

lemma life_Propose_inv:
  assumes "life_inv called returned l"
  shows "life_inv called returned (life_Propose S v msgs1 msgs2 l)"
  using assms by (auto simp: life_Propose_def life_inv_def Let_def split: prod.splits)

lemma life_Start_inv:
  assumes inv: "life_inv called returned l"
  shows "life_inv called returned (life_Start err now rnd l)"
proof -
  have "0 < sint (ElectionTimeout (config (lf_node l)))" using inv by (simp add: life_inv_def)
  then obtain r n where n: "Start err now rnd (lf_node l) = Some (r, n)" "same_life (lf_node l) n"
    using positive_timeout_total(1) by blast
  show ?thesis
  proof (cases "started (lf_node l) \<or> r \<noteq> None")
    case True
    then show ?thesis using n life_inv_node [OF inv n(2)] by (simp add: life_Start_def)
  next
    case False
    have "started n" using n(1) by (auto simp: Start_def Let_def dest!: resetElectionDeadline_Some split: if_splits option.splits)
    then show ?thesis using n inv False by (simp add: life_Start_def life_inv_def same_life_def)
  qed
qed

lemma life_Close_inv:
  assumes inv: "life_inv called returned l" and c: "0 < closers l" and w: "lf_wg l = 0"
  shows "life_inv called True (life_Close S err l)"
proof -
  obtain r n where n: "node_Close S err (lf_node l) = (r, n)" by fastforce
  then have "config n = config (lf_node l)" "started n = started (lf_node l)" "r = None \<Longrightarrow> err = None"
    by (auto simp: node_Close_def split: option.splits prod.splits)
  moreover have "\<not> returned" "\<not> commitCh_closed l" using inv c by (auto simp: life_inv_def split: if_splits)
  moreover have "\<not> message_loop l" using inv w by (auto simp: life_inv_def split: if_splits)
  ultimately show ?thesis using inv c n by (auto simp: life_Close_def life_inv_def Let_def)
qed

lemma Subscribe_recv_life: "Subscribe_recv n = Some (cv, n') \<Longrightarrow> same_life n n'"
  by (auto simp: Subscribe_recv_def same_life_def split: list.splits)

lemma life_exec_inv:
  assumes inv: "life_inv called returned l" and x: "life_exec S e l = Some l'" and o: "orderly called returned (e # es)"
  shows "life_inv (called \<or> calls_close e) (returned \<or> returns_close e) l'"
proof -
  have to: "0 < sint (ElectionTimeout (config (lf_node l)))" using inv by (simp add: life_inv_def)
  show ?thesis
  proof (cases e)
    case (LStart err now rnd)
    then show ?thesis using x life_Start_inv [OF inv] by auto
  next
    case (LArrive src msg)
    then show ?thesis using x inv by (auto simp: life_arrive_def life_inv_def split: if_splits)
  next
    case (LMessage now rnd)
    then show ?thesis using x life_message_inv [OF inv] by (auto split: if_splits)
  next
    case (LPropose v msgs1 msgs2)
    then show ?thesis using x life_Propose_inv [OF inv] by (auto split: if_splits)
  next
    case LTicker
    have "0 < sint (HeartbeatInterval (config (lf_node l)))" using inv by (simp add: life_inv_def)
    then have "election_loop l = Some False" "l' = l\<lparr>election_loop := Some True\<rparr>"
      using x LTicker by (simp_all add: electionLoop_init_def split: if_splits)
    then show ?thesis using inv LTicker by (simp add: life_inv_def)
  next
    case (LTick now rnd)
    obtain n out elect where "checkLeaderAndHeartbeat now rnd (lf_node l) = Some (n, out, elect)" "same_life (lf_node l) n"
      using positive_timeout_total(3) [OF to] by blast
    then have "l' = (l\<lparr>lf_node := n\<rparr>)\<lparr>elections := elections l + (if elect then 1 else 0)\<rparr>" "life_inv called returned (l\<lparr>lf_node := n\<rparr>)"
      using x LTick life_inv_node [OF inv] by (auto simp: electionLoop_def split: if_splits)
    then show ?thesis using LTick by (simp add: life_inv_def)
  next
    case (LElection msgs now rnd)
    obtain n out where "startElection S (\<lambda>_. None) msgs now rnd (lf_node l) = Some (n, out)" "same_life (lf_node l) n"
      using positive_timeout_total(4) [OF to] by blast
    then have "l' = (l\<lparr>lf_node := n\<rparr>)\<lparr>elections := elections l - 1\<rparr>" "life_inv called returned (l\<lparr>lf_node := n\<rparr>)"
      using x LElection life_inv_node [OF inv] by (auto split: if_splits)
    then show ?thesis using LElection by (simp add: life_inv_def)
  next
    case (LCommit b i v)
    then have "\<not> commitCh_closed l" using o inv by (auto simp: life_inv_def)
    moreover have "life_inv called returned (l\<lparr>committing := remove1 (b, i, v) (committing l)\<rparr>)" using inv by (simp add: life_inv_def)
    ultimately have "life_inv called returned (life_commit S b i v (l\<lparr>committing := remove1 (b, i, v) (committing l)\<rparr>))"
      by (intro life_commit_inv) simp_all
    then show ?thesis using x LCommit by (auto split: if_splits)
  next
    case LReceive
    then show ?thesis using x life_inv_node [OF inv] Subscribe_recv_life by fastforce
  next
    case (LClosed err)
    then show ?thesis using x life_Close_inv [OF inv] by (auto split: if_splits)
  next
    case LMessageDone
    then have "message_loop l" "l' = l\<lparr>message_loop := False, lf_wg := lf_wg l - 1\<rparr>" using x by (auto split: if_splits)
    then show ?thesis using inv LMessageDone by (simp add: life_inv_def)
  next
    case LTickDone
    then have "election_loop l = Some True" "l' = l\<lparr>election_loop := None, lf_wg := lf_wg l - 1\<rparr>" using x by (auto split: if_splits)
    then show ?thesis using inv LTickDone by (simp add: life_inv_def)
  next
    case LClose
    then have "\<not> called" "l' = l\<lparr>lf_ctx_done := True, closers := closers l + 1\<rparr>" using x o by auto
    then show ?thesis using inv LClose by (auto simp: life_inv_def)
  qed
qed

lemma life_run_inv:
  assumes "life_run S es l = Some l'" "life_inv called returned l" "orderly called returned es"
  shows "\<exists>called' returned'. life_inv called' returned' l'"
  using assms
proof (induction es arbitrary: l called returned)
  case (Cons e es)
  then obtain l1 where x: "life_exec S e l = Some l1" and r: "life_run S es l1 = Some l'" by (auto split: if_splits option.splits)
  have "orderly (called \<or> calls_close e) (returned \<or> returns_close e) es" using Cons.prems(3) by (cases e) auto
  then show ?case using Cons.IH [OF r life_exec_inv [OF Cons.prems(2) x Cons.prems(3)]] by blast
qed auto

lemma life_run_new:
  assumes "NewNode S st cfg = Inr n" "0 < sint (HeartbeatInterval (WithDefaults cfg))" "0 < sint (ElectionTimeout (WithDefaults cfg))"
    "life_run S es (new_life n) = Some l" "orderly False False es"
  obtains called returned where "life_inv called returned l"
proof -
  have "config n = WithDefaults cfg" by (rule NewNode_cases [OF assms(1)])
  then have "life_inv False False (new_life n)" using assms(2,3) by (intro life_inv_new) simp_all
  from life_run_inv [OF assms(4) this assms(5)] show thesis using that by blast
qed

text \<open>The loops end after the context, and then \<open>Close\<close> goes on.\<close>

definition ending :: "'s life \<Rightarrow> life_event list" where
  "ending l = (if message_loop l then [LMessageDone] else [])
     @ (case election_loop l of None \<Rightarrow> [] | Some False \<Rightarrow> [LTicker, LTickDone] | Some True \<Rightarrow> [LTickDone])"

lemma ending_run:
  assumes "life_inv called returned l" "lf_ctx_done l"
  shows "life_run S (ending l) l = Some (l\<lparr>message_loop := False, election_loop := None, lf_wg := 0\<rparr>)"
  using assms by (cases "message_loop l"; cases "election_loop l = None"; cases "election_loop l = Some True")
     (auto simp: life_inv_def ending_def electionLoop_init_def split: bool.splits)

lemma life_run_append:
  "life_run S es l = Some l1 \<Longrightarrow> life_run S (es @ es') l = life_run S es' l1"
  by (induction es arbitrary: l) (auto split: if_splits option.splits)

section \<open>Properties\<close>

text \<open>C17. Life cycle of a node.  If the heartbeat interval and the election timeout are positive,
  \<open>Close\<close> is called at most once and no proposal commits after \<open>Close\<close> has returned, then no
  interleaving of the message loop, the election loop, elections, proposals, arriving messages, the
  subscriber, \<open>Start\<close> and \<open>Close\<close> panics; the wait group counts the running loops; and when the
  channel of notifications is closed, the context is cancelled, no message can arrive any more, and
  the message loop does not run or has no message left to handle: a commit that is still in the
  channel of messages cannot reach the closed channel of notifications.\<close>

theorem node_lifecycle_safe:
  assumes "NewNode S st cfg = Inr n" "0 < sint (HeartbeatInterval (WithDefaults cfg))" "0 < sint (ElectionTimeout (WithDefaults cfg))"
    "life_run S es (new_life n) = Some l" "orderly False False es"
  shows "\<not> lf_panicked l \<and> lf_wg l = (if message_loop l then 1 else 0) + (if election_loop l \<noteq> None then 1 else 0)
    \<and> (commitCh_closed l \<longrightarrow> lf_ctx_done l \<and> messages_closed l \<and> (message_loop l \<longrightarrow> inbox l = []))"
proof -
  obtain called returned where inv: "life_inv called returned l" by (rule life_run_new [OF assms])
  then have "called \<or> \<not> returned" by (auto simp: life_inv_def split: if_splits)
  with inv show ?thesis by (auto simp: life_inv_def)
qed

definition life_example :: "life_event list" where
  "life_example = [LStart None 0 0, LTicker, LPropose (Some [7]) [Promise 65537 1 2 0 None] [Accepted 65537 1 2],
     LArrive 2 (Commit 65538 2 (Some [8])), LMessage 0 0, LArrive 2 (Commit 65538 3 (Some [9]))]"

definition life_example_end :: "life_event list" where
  "life_example_end = [LCommit 65537 1 (Some [7]), LClose, LMessageDone, LTickDone, LClosed None]"

lemmas life_eval = life_Start_def life_commit_def messageLoop_def electionLoop_init_def electionLoop_def life_Close_def new_life_def
  node_Close_def life_panic_def mem_Close_def life_arrive_def life_message_def life_Propose_def incoming_capacity_def
  Propose_def runPhase1_def runPhase2_def broadcastCommit_def

lemma life_example_run:
  "\<exists>l. life_run memory_storage life_example (new_life (fresh_node 1)) = Some l \<and> \<not> lf_ctx_done l
     \<and> committing l = [(65537, 1, Some [7])] \<and> committed (lf_node l) 1 = None \<and> started (lf_node l)"
  "\<exists>l. life_run memory_storage (life_example @ [LClose]) (new_life (fresh_node 1)) = Some l \<and> closers l = 1"
  "\<exists>l. life_run memory_storage (life_example @ life_example_end) (new_life (fresh_node 1)) = Some l
     \<and> commitCh_closed l \<and> inbox l = [(2, Commit 65538 3 (Some [9]))]"
  by (simp_all add: life_example_def life_example_end_def life_eval cluster_eval)

lemma three_nodes_positive:
  "0 < sint (HeartbeatInterval (WithDefaults (three_nodes 1)))" "0 < sint (ElectionTimeout (WithDefaults (three_nodes 1)))"
  by (simp_all add: three_nodes_def WithDefaults_def Second_def Millisecond_def)

theorem node_lifecycle_safe_witness:
  "\<exists>l. life_run memory_storage (life_example @ life_example_end) (new_life (fresh_node 1)) = Some l
     \<and> commitCh_closed l \<and> lf_ctx_done l \<and> messages_closed l \<and> inbox l \<noteq> [] \<and> \<not> message_loop l \<and> \<not> lf_panicked l"
proof -
  obtain l where l: "life_run memory_storage (life_example @ life_example_end) (new_life (fresh_node 1)) = Some l" "commitCh_closed l"
    "inbox l = [(2, Commit 65538 3 (Some [9]))]"
    using life_example_run(3) by blast
  have "orderly False False (life_example @ life_example_end)" by (simp add: life_example_def life_example_end_def)
  from node_lifecycle_safe [OF fresh_node_new three_nodes_positive l(1) this] l show ?thesis by auto
qed

text \<open>C18. \<open>Close\<close> of a node can return.  Under the same conditions (positive durations, an orderly run),
  whenever a call of \<open>Close\<close> waits for the loops there is a continuation of at most three steps of
  the loops and one of \<open>Close\<close> itself that ends the wait and the call, without a panic: cancelling
  the context is enough, provided that no loop hangs in a write to a peer.\<close>

theorem node_close_terminates:
  assumes "NewNode S st cfg = Inr n" "0 < sint (HeartbeatInterval (WithDefaults cfg))" "0 < sint (ElectionTimeout (WithDefaults cfg))"
    "life_run S es (new_life n) = Some l" "orderly False False es" "0 < closers l"
  shows "\<exists>es' l'. life_run S (es' @ [LClosed transportErr]) l = Some l' \<and> length es' \<le> 3
    \<and> set es' \<subseteq> {LMessageDone, LTicker, LTickDone} \<and> closers l' = 0 \<and> \<not> lf_panicked l'
    \<and> \<not> message_loop l' \<and> election_loop l' = None"
proof -
  obtain called returned where inv: "life_inv called returned l" by (rule life_run_new [OF assms(1-5)])
  let ?l = "l\<lparr>message_loop := False, election_loop := None, lf_wg := 0\<rparr>"
  have c: "closers l = 1" "lf_ctx_done l" "\<not> commitCh_closed l" "\<not> lf_panicked l"
    using inv assms(6) by (auto simp: life_inv_def split: if_splits)
  note run = ending_run [OF inv c(2), of S]
  obtain r n' where n': "node_Close S transportErr (lf_node l) = (r, n')" by fastforce
  obtain l' where l': "life_Close S transportErr ?l = l'" by simp
  then have "closers l' = 0 \<and> \<not> lf_panicked l' \<and> \<not> message_loop l' \<and> election_loop l' = None"
    using c n' by (auto simp: life_Close_def Let_def split: if_splits)
  moreover have "life_run S (ending l @ [LClosed transportErr]) l = Some l'"
    using c l' by (simp add: life_run_append [OF run])
  moreover have "length (ending l) \<le> 3" "set (ending l) \<subseteq> {LMessageDone, LTicker, LTickDone}"
    by (auto simp: ending_def split: option.splits bool.splits)
  ultimately show ?thesis by blast
qed

theorem node_close_terminates_witness:
  "\<exists>l es' l'. life_run memory_storage (life_example @ [LClose]) (new_life (fresh_node 1)) = Some l \<and> closers l = 1
     \<and> life_run memory_storage (es' @ [LClosed None]) l = Some l' \<and> closers l' = 0 \<and> \<not> lf_panicked l'"
proof -
  obtain l where l: "life_run memory_storage (life_example @ [LClose]) (new_life (fresh_node 1)) = Some l" "closers l = 1"
    using life_example_run(2) by blast
  have "orderly False False (life_example @ [LClose])" by (simp add: life_example_def)
  from node_close_terminates [OF fresh_node_new three_nodes_positive l(1) this, of None] l show ?thesis by auto
qed

text \<open>A whole call of \<open>Close\<close>, on a storage whose \<open>Close\<close> does not fail.\<close>

lemma close_run:
  assumes inv: "life_inv called returned l" and n: "\<not> lf_ctx_done l" and st: "\<And>st. fst (CloseStorage S st) = None"
  obtains es l' where "life_run S (LClose # es @ [LClosed None]) l = Some l'" "set es \<subseteq> {LMessageDone, LTicker, LTickDone}"
    "commitCh_closed l'" "\<not> lf_panicked l'" "closers l' = 0" "lf_wg l' = 0" "committing l' = committing l"
    "committed (lf_node l') = committed (lf_node l)"
proof -
  let ?l = "l\<lparr>lf_ctx_done := True, closers := 1\<rparr>"
  have c: "\<not> called" "closers l = 0" "\<not> commitCh_closed l" "\<not> lf_panicked l" using inv n by (auto simp: life_inv_def split: if_splits)
  have "life_inv True returned ?l" using inv c by (auto simp: life_inv_def)
  then have run: "life_run S (ending ?l) ?l = Some (?l\<lparr>message_loop := False, election_loop := None, lf_wg := 0\<rparr>)"
    by (rule ending_run) simp
  obtain st where "CloseStorage S (storage (lf_node l)) = (None, st)" using st [of "storage (lf_node l)"] by (metis prod.collapse)
  then have "life_run S (ending ?l @ [LClosed None]) ?l = Some (l\<lparr>lf_ctx_done := True, message_loop := False, election_loop := None,
      lf_wg := 0, lf_node := (lf_node l)\<lparr>storage := st\<rparr>, messages_closed := True, commitCh_closed := True, closers := 0\<rparr>)"
    unfolding life_run_append [OF run] using c by (simp add: life_Close_def node_Close_def)
  then have "life_run S (LClose # ending ?l @ [LClosed None]) l = Some (l\<lparr>lf_ctx_done := True, message_loop := False, election_loop := None,
      lf_wg := 0, lf_node := (lf_node l)\<lparr>storage := st\<rparr>, messages_closed := True, commitCh_closed := True, closers := 0\<rparr>)"
    using c by simp
  then show thesis
    by (rule that) (auto simp: ending_def c split: option.splits bool.splits)
qed

text \<open>C9. \<open>Close\<close> is not graceful for proposals in flight and is not idempotent.  Take any state that an
  orderly life of a node with positive durations reaches before \<open>Close\<close> is called, on a storage whose
  \<open>Close\<close> does not fail.  If a call of \<open>Propose\<close> has its quorum there and is about to commit an
  instance that the node has not committed, then \<open>Close\<close> can run to its end first, after which the
  commit sends the notification on the closed channel and the process panics: \<open>Close\<close> waits for the
  two loops but not for calls of \<open>Propose\<close>.  And in any such state a second call of \<open>Close\<close> closes
  the channel twice and panics as well.\<close>

theorem close_can_panic:
  assumes "NewNode S st cfg = Inr n" "0 < sint (HeartbeatInterval (WithDefaults cfg))" "0 < sint (ElectionTimeout (WithDefaults cfg))"
    "life_run S es (new_life n) = Some l" "orderly False False es" "\<not> lf_ctx_done l" "\<forall>st. fst (CloseStorage S st) = None"
  shows "\<exists>es'. set es' \<subseteq> {LMessageDone, LTicker, LTickDone}
    \<and> (\<forall>b i v. (b, i, v) \<in> set (committing l) \<and> committed (lf_node l) i = None \<longrightarrow>
         (\<exists>l'. life_run S (LClose # es' @ [LClosed None, LCommit b i v]) l = Some l' \<and> lf_panicked l'))
    \<and> (\<exists>l'. life_run S (LClose # es' @ [LClosed None, LClose, LClosed None]) l = Some l' \<and> lf_panicked l')"
proof -
  obtain called returned where inv: "life_inv called returned l" by (rule life_run_new [OF assms(1-5)])
  have st: "\<And>st. fst (CloseStorage S st) = None" using assms(7) by blast
  obtain es' l1 where r: "life_run S (LClose # es' @ [LClosed None]) l = Some l1" "set es' \<subseteq> {LMessageDone, LTicker, LTickDone}"
    and l1: "commitCh_closed l1" "\<not> lf_panicked l1" "closers l1 = 0" "lf_wg l1 = 0" "committing l1 = committing l"
      "committed (lf_node l1) = committed (lf_node l)"
    by (rule close_run [OF inv assms(6) st])
  have a: "life_run S (LClose # es' @ [LClosed None] @ rest) l = life_run S rest l1" for rest
    using life_run_append [OF r(1), of rest] by simp
  obtain st1 where st1: "CloseStorage S (storage (lf_node l1)) = (None, st1)" using st [of "storage (lf_node l1)"] by (metis prod.collapse)
  have "\<exists>l'. life_run S [LClose, LClosed None] l1 = Some l' \<and> lf_panicked l'"
    using l1 st1 by (simp add: life_Close_def node_Close_def life_panic_def)
  moreover have "\<exists>l'. life_run S [LCommit b i v] l1 = Some l' \<and> lf_panicked l'"
    if "(b, i, v) \<in> set (committing l) \<and> committed (lf_node l) i = None" for b i v
    using l1 that by (simp add: life_commit_def life_panic_def)
  ultimately show ?thesis using r(2) a [of "[LClose, LClosed None]"] a [of "[LCommit _ _ _]"]
    by (intro exI [of _ es']) simp
qed

theorem close_can_panic_witness:
  "\<exists>l es' l'. life_run memory_storage life_example (new_life (fresh_node 1)) = Some l
     \<and> life_run memory_storage (LClose # es' @ [LClosed None, LCommit 65537 1 (Some [7])]) l = Some l' \<and> lf_panicked l'"
proof -
  obtain l where l: "life_run memory_storage life_example (new_life (fresh_node 1)) = Some l" "\<not> lf_ctx_done l"
    "committing l = [(65537, 1, Some [7])]" "committed (lf_node l) 1 = None"
    using life_example_run(1) by blast
  have "orderly False False life_example" by (simp add: life_example_def)
  from close_can_panic [OF fresh_node_new three_nodes_positive l(1) this l(2)] l
  show ?thesis by (auto simp: mem_Close_def simp del: life_run.simps)
qed

end
