(* ===== verification/Example_Programs.thy ===== *)
theory Example_Programs
  imports Replicas
begin

text \<open>
  The example programs from their flags to their output (\<open>main\<close> of \<^verbatim>\<open>examples/kv-store\<close> and
  \<^verbatim>\<open>examples/counter\<close>): what is printed, with which status they exit, and the session that
  alternates lines of input with notifications applied by the background goroutine.  The flags
  are taken as parsed; a program that returns from \<open>main\<close> stops.
\<close>

section \<open>Text\<close>

definition nl :: string where "nl = [CHR 0x0A]"

text \<open>What \<open>%v\<close> prints for an error, a bool and a slice of strings, and \<open>%+d\<close> for a number.\<close>

fun error_text :: "error \<Rightarrow> string" where
  "error_text ErrInvalidNodeID = ''paxos: node ID must be non-zero''"
| "error_text ErrInvalidAddress = ''paxos: address is required''"
| "error_text ErrNoPeers = ''paxos: at least one peer is required''"
| "error_text ErrElectionTimeoutTooShort = ''paxos: election timeout must be > 3x heartbeat interval''"
| "error_text ErrNotLeader = ''paxos: not the leader''"
| "error_text ErrNoQuorum = ''paxos: could not reach quorum''"
| "error_text ErrPreempted = ''paxos: preempted by higher ballot''"
| "error_text ErrTimeout = ''paxos: operation timed out''"
| "error_text ErrShutdown = ''paxos: node is shutting down''"
| "error_text ErrInstanceGap = ''paxos: gap in instance sequence''"
| "error_text ErrNotFound = ''paxos: entry not found''"
| "error_text ErrStorageClosed = ''paxos: storage is closed''"
| "error_text ErrEOF = ''EOF''"
| "error_text ErrUnexpectedEOF = ''unexpected EOF''"
| "error_text ErrUnknownMessageType = ''unknown message type''"
| "error_text (ErrOwnNodeID n) = ''peer reports our own NodeID '' @ FormatInt (uint n)"
| "error_text (ErrNoConnection n) = ''no connection to node '' @ FormatInt (uint n)"
| "error_text (ErrOther s) = s"

definition bool_text :: "bool \<Rightarrow> string" where
  "bool_text b = (if b then ''true'' else ''false'')"

fun join :: "string list \<Rightarrow> string" where
  "join [] = []"
| "join [s] = s"
| "join (s # ss) = s @ CHR '' '' # join ss"

definition slice_text :: "string list \<Rightarrow> string" where
  "slice_text ss = CHR ''['' # join ss @ '']''"

definition signed_text :: "int \<Rightarrow> string" where
  "signed_text n = (if 0 \<le> n then CHR ''+'' # FormatInt n else FormatInt n)"

section \<open>Loggers\<close>

text \<open>A call of a logger: its severity, the message and the formatted keys and values.\<close>

datatype severity = Debug | Info | Warn | Error

fun severity_level :: "severity \<Rightarrow> int" where
  "severity_level Debug = 4" | "severity_level Info = 3" | "severity_level Warn = 2" | "severity_level Error = 1"

fun severity_name :: "severity \<Rightarrow> string" where
  "severity_name Debug = ''DEBUG''" | "severity_name Info = ''INFO''" | "severity_name Warn = ''WARN''" | "severity_name Error = ''ERROR''"

definition SimpleLogger :: "int \<Rightarrow> severity \<Rightarrow> string \<Rightarrow> string \<Rightarrow> string" where
  "SimpleLogger level sev msg keysAndValues =
     (if level \<ge> severity_level sev then CHR ''['' # severity_name sev @ ''] '' @ msg @ CHR '' '' # keysAndValues @ nl else [])"

definition NoopLogger :: "severity \<Rightarrow> string \<Rightarrow> string \<Rightarrow> string" where
  "NoopLogger sev msg keysAndValues = []"

section \<open>Starting\<close>

record flags =
  fl_id :: int
  fl_addr :: string
  fl_peers :: string
  fl_log :: int

definition kv_flags :: flags where
  "kv_flags = \<lparr>fl_id = 1, fl_addr = ''localhost:9001'', fl_peers = [], fl_log = 2\<rparr>"

definition counter_flags :: flags where
  "counter_flags = \<lparr>fl_id = 1, fl_addr = ''localhost:9101'', fl_peers = [], fl_log = 2\<rparr>"


definition counter_banner :: string where
  "counter_banner = nl @ ''Commands:'' @ nl
     @ ''  add <n> - Add n to the counter (n may be negative)'' @ nl
     @ ''  inc     - Add 1'' @ nl
     @ ''  dec     - Subtract 1'' @ nl
     @ ''  get     - Show the current value'' @ nl
     @ ''  status  - Show node status'' @ nl
     @ ''  quit    - Exit'' @ nl @ nl"

datatype 'a startup = Exit int string | Ready 'a string | Panic string

definition peers_warning :: "flags \<Rightarrow> string" where
  "peers_warning fl =
     (if example_peers (fl_peers fl) = [] then ''Warning: No peers specified. Running as single node.'' @ nl else [])"

text \<open>\<open>main\<close> up to the first prompt; \<open>listenErr\<close> is the result of \<open>net.Listen\<close>.\<close>

definition main_start ::
  "'s Storage \<Rightarrow> 's \<Rightarrow> string \<Rightarrow> 'r \<Rightarrow> flags \<Rightarrow> error option \<Rightarrow> Time \<Rightarrow> Duration \<Rightarrow> ('s, 'r) app startup" where
  "main_start S st banner replica fl listenErr now rnd =
     (case NewNode S st (example_config (fl_id fl) (fl_addr fl) (fl_peers fl)) of
        Inl e \<Rightarrow> Exit 1 (peers_warning fl @ ''Failed to create node: '' @ error_text e @ nl)
      | Inr n \<Rightarrow>
          (case Start listenErr now rnd n of
             None \<Rightarrow> Panic (peers_warning fl)
           | Some (Some e, n) \<Rightarrow> Exit 1 (peers_warning fl @ ''Failed to start node: '' @ error_text e @ nl)
           | Some (None, n) \<Rightarrow>
               Ready \<lparr>app_node = n, app_replica = replica\<rparr>
                 (peers_warning fl @ ''Node '' @ FormatInt (fl_id fl) @ '' started on '' @ fl_addr fl @ nl
                  @ ''Peers: '' @ slice_text (example_peers (fl_peers fl)) @ nl @ banner @ ''> '')))"


definition counter_main :: "flags \<Rightarrow> error option \<Rightarrow> Time \<Rightarrow> Duration \<Rightarrow> (MemoryStorage, Counter) app startup" where
  "counter_main = main_start memory_storage NewMemoryStorage counter_banner 0"

section \<open>A session\<close>

definition status_text :: "flags \<Rightarrow> 's Node \<Rightarrow> string" where
  "status_text fl n =
     ''Node ID: '' @ FormatInt (fl_id fl) @ nl
     @ ''Address: '' @ fl_addr fl @ nl
     @ ''Is Leader: '' @ bool_text (node_IsLeader n) @ nl
     @ ''Last Committed: '' @ FormatInt (uint (LastCommitted n)) @ nl"


definition counter_amount :: "string \<Rightarrow> int" where
  "counter_amount text =
     (let parts = Fields (TrimSpace text); cmd = ToLower (parts ! 0) in
      if cmd = ''inc'' then 1 else if cmd = ''dec'' then - 1
      else case ParseInt (parts ! 1) of Some n \<Rightarrow> n | None \<Rightarrow> 0)"

definition counter_report :: "string \<Rightarrow> Instance result \<Rightarrow> string" where
  "counter_report text res =
     (let amount = counter_amount text in
      case res of
        Inl e \<Rightarrow> ''Failed to apply '' @ signed_text amount @ '': '' @ error_text e
      | Inr inst \<Rightarrow> ''Committed '' @ signed_text amount @ '' at instance '' @ FormatInt (uint inst))"

definition answer :: "flags \<Rightarrow> (string \<Rightarrow> Instance result \<Rightarrow> string) \<Rightarrow> string \<Rightarrow> reaction \<Rightarrow> Instance result option \<Rightarrow> 's Node \<Rightarrow> string" where
  "answer fl report text r res n =
     (case r of
        Nothing \<Rightarrow> []
      | Prints s \<Rightarrow> s @ nl
      | PrintsStatus \<Rightarrow> status_text fl n
      | Proposes d \<Rightarrow> (case res of None \<Rightarrow> [] | Some x \<Rightarrow> report text x @ nl)
      | Exits \<Rightarrow> ''Shutting down...'' @ nl)"


definition counter_applied :: "CommittedValue \<Rightarrow> Counter \<Rightarrow> string" where
  "counter_applied cv c =
     (case UnmarshalDelta (cv_Value cv) of
        None \<Rightarrow> []
      | Some d \<Rightarrow> ''[Applied] '' @ signed_text (sint (Amount d)) @ '' -> '' @ FormatInt (counter_Value (counter_Apply d c)) @ nl)"

text \<open>A line of input comes with the responses that arrive before the deadlines of the two phases, in
  case it proposes; \<open>Applied\<close> is a turn of the applying goroutine.\<close>

datatype input = Line string "Message list" "Message list" | Applied

fun session ::
  "'s Storage \<Rightarrow> ('r \<Rightarrow> string \<Rightarrow> reaction) \<Rightarrow> (CommittedValue \<Rightarrow> 'r \<Rightarrow> 'r) \<Rightarrow> (CommittedValue \<Rightarrow> 'r \<Rightarrow> string)
     \<Rightarrow> (string \<Rightarrow> Instance result \<Rightarrow> string) \<Rightarrow> flags \<Rightarrow> input list \<Rightarrow> ('s, 'r) app \<Rightarrow> string \<times> ('s, 'r) app" where
  "session S command deliver applied report fl [] a = ([], a)"
| "session S command deliver applied report fl (Applied # ins) a =
     (case (Subscribe_recv (app_node a), app_receive deliver a) of
        (Some (cv, _), Some a') \<Rightarrow>
          (case session S command deliver applied report fl ins a' of
             (out, a'') \<Rightarrow> (applied cv (app_replica a) @ out, a''))
      | _ \<Rightarrow> session S command deliver applied report fl ins a)"
| "session S command deliver applied report fl (Line text msgs1 msgs2 # ins) a =
     (case app_line S command (\<lambda>_. None) msgs1 msgs2 None text a of
        (r, res, a') \<Rightarrow>
          if r = Exits then (answer fl report text r res (app_node a), a')
          else case session S command deliver applied report fl ins a' of
                 (out, a'') \<Rightarrow> (answer fl report text r res (app_node a) @ ''> '' @ out, a''))"


definition counter_session :: "flags \<Rightarrow> input list \<Rightarrow> (MemoryStorage, Counter) app \<Rightarrow> string \<times> (MemoryStorage, Counter) app" where
  "counter_session = session memory_storage counter_command counter_deliver counter_applied counter_report"

section \<open>Properties\<close>

lemma example_Start:
  assumes "NewNode memory_storage NewMemoryStorage (example_config i a p) = Inr n"
  shows "Start (Some e) now rnd n = Some (Some e, n\<lparr>started := True\<rparr>)"
    "\<exists>n'. Start None now rnd n = Some (None, n') \<and> started n' \<and> committed n' = Map.empty \<and> commitCh n' = []"
proof -
  have c: "config n = WithDefaults (example_config i a p)" by (rule NewNode_cases [OF assms])
  have v: "Validate (WithDefaults (example_config i a p)) = None" by (rule NewNode_cases [OF assms])
  from NewNode_fresh [OF v] assms have n: "\<not> started n" "committed n = Map.empty" "commitCh n = []" by auto
  have "0 < sint (ElectionTimeout (config n))" by (simp add: c example_config_def WithDefaults_def Second_def Millisecond_def)
  with n show "Start (Some e) now rnd n = Some (Some e, n\<lparr>started := True\<rparr>)"
    "\<exists>n'. Start None now rnd n = Some (None, n') \<and> started n' \<and> committed n' = Map.empty \<and> commitCh n' = []"
    by (simp_all add: Start_def Let_def resetElectionDeadline_def randomElectionTimeout_def)
qed

text \<open>C40. How the example programs start.  For every value of the flags: an identifier that is a
  multiple of 65536, an empty address or no peers make the program print the reason and exit with
  status 1, the last although it has announced to run as a single node; so does a failed listen;
  otherwise the node is started, nothing is committed yet, and the program prints its banner and
  the first prompt.  No choice of flags panics.\<close>

theorem main_start_outcome:
  "let outcome = main_start memory_storage NewMemoryStorage banner r fl listenErr now rnd in
   if fl_id fl mod 65536 = 0
   then outcome = Exit 1 (peers_warning fl @ ''Failed to create node: paxos: node ID must be non-zero'' @ nl)
   else if fl_addr fl = []
   then outcome = Exit 1 (peers_warning fl @ ''Failed to create node: paxos: address is required'' @ nl)
   else if fl_peers fl = []
   then outcome = Exit 1 (''Warning: No peers specified. Running as single node.'' @ nl
          @ ''Failed to create node: paxos: at least one peer is required'' @ nl)
   else case listenErr of
     Some e \<Rightarrow> outcome = Exit 1 (''Failed to start node: '' @ error_text e @ nl)
   | None \<Rightarrow> \<exists>n. started n \<and> committed n = Map.empty \<and> commitCh n = [] \<and> outcome = Ready \<lparr>app_node = n, app_replica = r\<rparr>
       (''Node '' @ FormatInt (fl_id fl) @ '' started on '' @ fl_addr fl @ nl
        @ ''Peers: '' @ slice_text (example_peers (fl_peers fl)) @ nl @ banner @ ''> '')"
proof (cases "Validate (WithDefaults (example_config (fl_id fl) (fl_addr fl) (fl_peers fl)))")
  case (Some e)
  then have n: "NewNode memory_storage NewMemoryStorage (example_config (fl_id fl) (fl_addr fl) (fl_peers fl)) = Inl e"
    by (simp add: NewNode_def Let_def)
  from Some show ?thesis unfolding main_start_def n
    by (auto simp: example_config_valid peers_warning_def example_peers_def split: if_splits)
next
  case None
  then obtain n where n: "NewNode memory_storage NewMemoryStorage (example_config (fl_id fl) (fl_addr fl) (fl_peers fl)) = Inr n"
    using NewNode_fresh by blast
  have "Split sep s \<noteq> []" for sep s by (cases s) (auto split: list.splits)
  then have w: "peers_warning fl = []" using None by (simp add: example_config_valid peers_warning_def example_peers_def split: if_splits)
  obtain n' where "Start None now rnd n = Some (None, n')" "started n'" "committed n' = Map.empty" "commitCh n' = []"
    using example_Start(2) [OF n] by blast
  then show ?thesis using None unfolding main_start_def n
    by (cases listenErr) (simp_all add: example_config_valid w example_Start(1) [OF n] split: if_splits)
qed






end
