(* ===== verification/Spec2Isabelle.thy ===== *)
theory Spec2Isabelle
  imports Cluster_Replicas Cluster_Restart Cluster_Goroutines Cluster_Progress Transport_Loops Node_Lifecycle Example_Programs
begin

text \<open>
  A verification library for \<^verbatim>\<open>go-paxos\<close>, a replicated log in Go.

  \<^bold>\<open>The program.\<close>  A cluster has one \<^verbatim>\<open>Node\<close> per member (\<^verbatim>\<open>paxos/node.go\<close>).  A node owns an
  acceptor (\<^verbatim>\<open>acceptor.go\<close>), a proposer (\<^verbatim>\<open>proposer.go\<close>), a learner (the \<^verbatim>\<open>committed\<close> map and
  the commit channel of the node), a storage (\<^verbatim>\<open>storage.go\<close>) and a TCP transport
  (\<^verbatim>\<open>transport_tcp.go\<close>) that carries the messages of \<^verbatim>\<open>message.go\<close>.  A client calls \<^verbatim>\<open>Propose\<close>:
  the proposer takes the next instance and a new ballot, asks its own acceptor and then, by
  broadcast, the others to promise (phase 1) and to accept (phase 2), and on a quorum of
  acceptances commits at its own learner and broadcasts the commit.  The election loop of a
  node starts an election, which is phase 1 for instance 0, when no heartbeat was heard for
  long enough.  Two example programs (\<^verbatim>\<open>examples/kv-store\<close>, \<^verbatim>\<open>examples/counter\<close>) apply the
  committed values that a node's subscription delivers.

  \<^bold>\<open>Theories.\<close>
  \<^item> \<open>Paxos_Prelude\<close>: Go's errors as a datatype and results as sums, maps with zero values,
    nil-able byte slices, big-endian integers, readers over byte streams.
  \<^item> \<open>Paxos_Types\<close> (\<^verbatim>\<open>types.go\<close>): ballots as 64-bit words made of round and node, the shared
    structs, \<^verbatim>\<open>Config\<close> with \<open>WithDefaults\<close> and \<open>Validate\<close>.  A ballot is read back and ordered
    lexicographically; a valid configuration satisfies its documented constraints.
  \<^item> \<open>Messages\<close> (\<^verbatim>\<open>message.go\<close>): the eight messages, their encoders and decoders.  Decoding
    inverts encoding in both directions; truncated input is refused.
  \<^item> \<open>Storage\<close> (\<^verbatim>\<open>storage.go\<close>): the \<^verbatim>\<open>Storage\<close> interface as a record of operations, the locale
    \<open>storage_contract\<close> with what the other components rely on, and \<^verbatim>\<open>MemoryStorage\<close> as an
    interpretation of it.
  \<^item> \<open>Acceptor_Role\<close> (\<^verbatim>\<open>acceptor.go\<close>): every operation, with the rollback after a failed save.
    Promises are kept and truthful, refusals leave no trace, a restart recovers the state, all for
    instances that are not forgotten.  The failing storage of the tests is a second interpretation
    of the contract.
  \<^item> \<open>Proposer_Role\<close> (\<^verbatim>\<open>proposer.go\<close>): a whole \<open>Propose\<close> and \<open>BecomeLeader\<close>, over the lists
    of messages that arrive before each deadline, so that the wait loops are structural
    recursions and need no fuel.  A success rests on quorums of votes for its ballot; the ballots
    of a proposer grow.
  \<^item> \<open>Paxos_Node\<close> (\<^verbatim>\<open>node.go\<close>): the learner, recovery, heartbeats and elections, message
    dispatch, the client interface; step relation and invariants of one node.
  \<^item> \<open>Transport\<close> (\<^verbatim>\<open>transport_tcp.go\<close>): frames, handshake, the table of connections and the
    resolution of duplicate ones; what one end writes the other end reads.
  \<^item> \<open>Transport_Loops\<close> (\<^verbatim>\<open>transport_tcp.go\<close>): the goroutines of a transport, its wait group and
    \<open>Close\<close>: no send on a closed channel, no open socket outside handshakes and registered
    connections, and once \<open>Close\<close> has closed the sockets the loops can end and \<open>Close\<close> return.
  \<^item> \<open>Paxos_Spec\<close>: the abstract specification of one instance, without messages and
    processes, its invariant, and agreement for every family of intersecting quorums (locale
    \<open>quorum_system\<close>), interpreted on the majorities that \<^verbatim>\<open>NewNode\<close> computes.
  \<^item> \<open>Cluster\<close>: the composition.  Its state has the nodes, the goroutines of proposals and
    elections with their program points, which nodes have their loops running, and the messages in
    flight; \<open>exec\<close> executes one event.  An event of a proposal or an election is a section between
    two points where its goroutine waits or releases a lock; the loops of a node make one event for
    each message, with the response it sends, and one for each tick, with the heartbeat of a leader.
  \<^item> \<open>Cluster_Relation\<close>, \<open>Cluster_Events\<close>, \<open>Cluster_Refinement\<close>: the simulation relation
    between a cluster and the specification, and one lemma for each event.  The relation also
    counts votes, because the code does not check that the votes of a quorum come from
    different acceptors; they do, since each request is sent once and answered once.
  \<^item> \<open>Cluster_Safety\<close>: agreement, validity and refinement of careful runs.
  \<^item> \<open>Cluster_Restart\<close>: a run without agreement, in which a node restarts.
  \<^item> \<open>Cluster_Goroutines\<close>: in all runs, careful or not, the table of proposals and the goroutines
    agree, and every proposal and election ends.
  \<^item> \<open>Cluster_Progress\<close>: a quorum with working storage (locale \<open>working_storage\<close>) is enough for a
    proposal to be committed and learned; and, with the same runs, from which states agreement is
    lost because votes were forgotten or an empty value was accepted.
  \<^item> \<open>Node_Lifecycle\<close> (\<^verbatim>\<open>node.go\<close>): \<open>Start\<close>, the two loops and \<open>Close\<close> of a node with its
    channels, a message loop that also drains a closed channel, and proposals in flight; when they
    panic and when they do not.
  \<^item> \<open>Go_Text\<close>, \<open>Go_Json\<close>: what the examples use of \<^verbatim>\<open>strings\<close>, \<^verbatim>\<open>strconv\<close> and
    \<^verbatim>\<open>encoding/json\<close>, for ASCII text.
  \<^item> \<open>Replicas\<close> (\<^verbatim>\<open>examples/\<close>): the stores, the JSON form of their operations, the command
    loops, the configurations; locales \<open>value_replica\<close> and \<open>commuting_replica\<close> for the
    convergence arguments.
  \<^item> \<open>Example_Programs\<close> (\<^verbatim>\<open>examples/\<close>): \<open>main\<close> from the flags to the exit status or the first
    prompt, and a session with its output; the loggers.
  \<^item> \<open>Cluster_Replicas\<close>: the examples on a cluster: counters converge, key-value stores need
    delivery in the same order, which the subscription does not give.

  \<^bold>\<open>Careful runs.\<close>  Agreement is proved for runs in which proposed values are not empty, an
  acceptor is not asked about an instance that its own node has committed, rounds do not wrap
  around 2^32, and only nodes that never made a ballot restart, recovering what they had
  committed.  Message loss, delay and reordering, failing storage writes, failing sends and
  timeouts are all allowed.  The conditions on values, on committed instances and on restarts are
  necessary: the code forgets the votes of committed instances, ignores accepted empty values and
  does not store the proposer's round, so that a restarted node uses a ballot again and counts one
  acceptor twice.  \<open>Cluster_Progress\<close> and \<open>Cluster_Restart\<close> have runs without agreement for each.

  \<^bold>\<open>Termination.\<close>  A proposal or election makes at most nine steps of its own and one for each
  response; it can always return by itself, since its waits have deadlines.  \<open>Close\<close> of the
  transport can return once the loops have seen the closed listener, the closed sockets and the
  cancelled context, \<open>Close\<close> of the node once its two loops have seen the cancelled context.  These
  are bounds on steps; that a runnable goroutine is scheduled is Go's part, and so is the return of
  a write: the transport writes without a deadline, so a broadcast to a peer that does not read may
  block its caller for ever, which the steps of the model leave out.

  \<^bold>\<open>What the code does not promise.\<close>  \<open>Propose\<close> may return an instance at which another value
  was committed, so the key-value store can report a write that is lost; notifications do not come
  in the order of instances; \<open>Close\<close> panics on a proposal in flight and when it is called twice;
  durations that are not positive pass \<open>Validate\<close> and panic.  Each has a theorem.

  \<^bold>\<open>Bounds and fuel.\<close>  Integers keep their widths: ballots, instances and durations are 64-bit
  words, rounds 32-bit, node identifiers 16-bit.  The JSON reader has fuel of twice the length
  of its input plus two; \<open>read_value_fuel\<close> shows that more changes nothing.  All other
  recursions are structural or have a termination proof.

  \<^bold>\<open>Not modelled.\<close>  The log lines, those of the handlers and of the example programs alike (also
  the one for a committed value that cannot be decoded), and the parsing of the command line into
  flags; writes that block; goroutine scheduling inside a locked section (each is one step), inside
  the handling of one message and inside one tick; in \<open>Node_Lifecycle\<close>, where the subject is the
  channels, also inside an election and inside a \<open>Propose\<close> up to its quorum; socket calls and
  their deadlines, whose results are arguments; that an \<open>Add\<close> to a wait group may race with its
  \<open>Wait\<close> when \<open>Listen\<close> is called during \<open>Close\<close>; duplicated messages (the transport writes a
  message once); the Unicode side of the text functions; the wrap-around of the instance counter
  after 2^64 - 1 proposals of one node.  The fast path of a leader, the catch-up messages and
  \<^verbatim>\<open>MaxInFlightInstances\<close> are declared in the code but never used.
\<close>

end
